(* ===== verification/Prelude.thy ===== *)
theory Prelude
  imports Main "HOL-Library.Word"
begin

text \<open>
  Shared vocabulary of the development: C integer conversions (the wrap-around of a signed or
  unsigned object of a given width), the result type of code that can stop in a \<open>BUG_ON\<close> or fail
  to return, and the list lemmas the components share.
\<close>

unbundle bit_operations_syntax

named_theorems c_int \<open>facts on the C integer conversions\<close>

section \<open>C integers\<close>

text \<open>Conversion to a signed 16-bit object, a signed 32-bit \<open>int\<close>, and an unsigned 32-bit object.\<close>

definition s16 :: "int \<Rightarrow> int" where
  "s16 v = (v + 32768) mod 65536 - 32768"

definition s32 :: "int \<Rightarrow> int" where
  "s32 v = (v + 2147483648) mod 4294967296 - 2147483648"

definition u32 :: "int \<Rightarrow> int" where
  "u32 v = v mod 4294967296"

definition s64 :: "int \<Rightarrow> int" where
  "s64 v = (v + 9223372036854775808) mod 18446744073709551616 - 9223372036854775808"

definition u64 :: "int \<Rightarrow> int" where
  "u64 v = v mod 18446744073709551616"

lemma s16_id [c_int]: "- 32768 \<le> v \<Longrightarrow> v < 32768 \<Longrightarrow> s16 v = v"
  by (simp add: s16_def)

lemma s32_id [c_int]: "- 2147483648 \<le> v \<Longrightarrow> v < 2147483648 \<Longrightarrow> s32 v = v"
  by (simp add: s32_def)

lemma u32_id [c_int]: "0 \<le> v \<Longrightarrow> v < 4294967296 \<Longrightarrow> u32 v = v"
  by (simp add: u32_def)

lemma u64_id [c_int]: "0 \<le> v \<Longrightarrow> v < 18446744073709551616 \<Longrightarrow> u64 v = v"
  by (simp add: u64_def)

lemma s64_id [c_int]:
  "- 9223372036854775808 \<le> v \<Longrightarrow> v < 9223372036854775808 \<Longrightarrow> s64 v = v"
  by (simp add: s64_def)

lemma s16_range: "- 32768 \<le> s16 v" "s16 v < 32768"
  by (simp_all add: s16_def)

lemma s32_range: "- 2147483648 \<le> s32 v" "s32 v < 2147483648"
  by (simp_all add: s32_def)

lemma s16_mod [c_int]: "s16 (v mod 65536) = s16 v"
  by (simp add: s16_def mod_simps)

lemma s16_s16 [c_int]: "s16 (s16 v) = s16 v"
  by (rule s16_id) (simp_all add: s16_range)

section \<open>Results\<close>

text \<open>
  Code that stops in a \<open>BUG_ON\<close> or runs a loop forever has no result: the two are the errors of the
  sum type \<open>'a run\<close>.
\<close>

datatype kerr = Bug | Diverge

type_synonym 'a run = "kerr + 'a"

definition run_of_loop :: "'a option \<Rightarrow> 'a run" where
  "run_of_loop r = (case r of None \<Rightarrow> Inl Diverge | Some x \<Rightarrow> Inr x)"

lemma run_of_loop_simps [simp]:
  "run_of_loop None = Inl Diverge" "run_of_loop (Some x) = Inr x"
  by (simp_all add: run_of_loop_def)

definition run_bind :: "'a run \<Rightarrow> ('a \<Rightarrow> 'b run) \<Rightarrow> 'b run" where
  "run_bind r f = (case r of Inl e \<Rightarrow> Inl e | Inr x \<Rightarrow> f x)"

lemma run_bind_simps [simp]:
  "run_bind (Inl e) f = Inl e" "run_bind (Inr x) f = f x"
  by (simp_all add: run_bind_def)

lemma run_bind_Inr_iff: "run_bind r f = Inr y \<longleftrightarrow> (\<exists>x. r = Inr x \<and> f x = Inr y)"
  by (cases r) auto

section \<open>Lists\<close>

lemma remove1_middle: "x \<notin> set xs \<Longrightarrow> remove1 x (xs @ x # ys) = xs @ ys"
  by (simp add: remove1_append)

lemma split_list_distinct:
  assumes "x \<in> set xs" and "distinct xs"
  obtains ys zs where "xs = ys @ x # zs" and "x \<notin> set ys" and "x \<notin> set zs"
    and "remove1 x xs = ys @ zs"
proof -
  from assms(1) obtain ys zs where xs: "xs = ys @ x # zs" by (meson split_list)
  with assms(2) have "x \<notin> set ys" "x \<notin> set zs" by auto
  with xs show thesis by (intro that) (auto simp: remove1_middle)
qed

lemma last_Cons_snoc: "last (a # xs @ [b]) = b"
  by simp

end
