(* ===== verification/Klist.thy ===== *)
theory Klist
  imports Prelude
begin

text \<open>
  The kernel's doubly linked lists (\<open>include/linux/list.h\<close>) at pointer level. A heap holds the
  \<open>next\<close> and \<open>prev\<close> field of every \<open>struct list_head\<close>; the operations are the assignments of the
  source in their order. \<open>is_list h hp xs\<close> says that the ring through the head \<open>hp\<close> holds exactly the
  entries \<open>xs\<close>, and \<open>fam h A\<close> that a whole heap consists of the pairwise disjoint lists \<open>A\<close>. The
  lemmas at the end are the refinement: each pointer operation implements one list operation.
\<close>

section \<open>The heap and the operations\<close>

datatype 'a lptr = Node 'a | LIST_POISON1 | LIST_POISON2

record 'a lheap =
  nxt :: "'a lptr \<Rightarrow> 'a lptr"
  prv :: "'a lptr \<Rightarrow> 'a lptr"

definition set_next :: "'a lheap \<Rightarrow> 'a lptr \<Rightarrow> 'a lptr \<Rightarrow> 'a lheap" where
  "set_next h p q = h\<lparr>nxt := (nxt h)(p := q)\<rparr>"

definition set_prev :: "'a lheap \<Rightarrow> 'a lptr \<Rightarrow> 'a lptr \<Rightarrow> 'a lheap" where
  "set_prev h p q = h\<lparr>prv := (prv h)(p := q)\<rparr>"

definition INIT_LIST_HEAD :: "'a lheap \<Rightarrow> 'a lptr \<Rightarrow> 'a lheap" where
  "INIT_LIST_HEAD h l =
     (let h1 = set_next h l l
      in set_prev h1 l l)"

definition raw_list_add :: "'a lheap \<Rightarrow> 'a lptr \<Rightarrow> 'a lptr \<Rightarrow> 'a lptr \<Rightarrow> 'a lheap" where
  "raw_list_add h new prev next =
     (let h1 = set_prev h next new;
          h2 = set_next h1 new next;
          h3 = set_prev h2 new prev
      in set_next h3 prev new)"

definition list_add :: "'a lheap \<Rightarrow> 'a lptr \<Rightarrow> 'a lptr \<Rightarrow> 'a lheap" where
  "list_add h new head = raw_list_add h new head (nxt h head)"

definition list_add_tail :: "'a lheap \<Rightarrow> 'a lptr \<Rightarrow> 'a lptr \<Rightarrow> 'a lheap" where
  "list_add_tail h new head = raw_list_add h new (prv h head) head"

definition raw_list_del :: "'a lheap \<Rightarrow> 'a lptr \<Rightarrow> 'a lptr \<Rightarrow> 'a lheap" where
  "raw_list_del h prev next =
     (let h1 = set_prev h next prev
      in set_next h1 prev next)"

definition raw_list_del_entry :: "'a lheap \<Rightarrow> 'a lptr \<Rightarrow> 'a lheap" where
  "raw_list_del_entry h entry = raw_list_del h (prv h entry) (nxt h entry)"

definition list_del :: "'a lheap \<Rightarrow> 'a lptr \<Rightarrow> 'a lheap" where
  "list_del h entry =
     (let h1 = raw_list_del h (prv h entry) (nxt h entry);
          h2 = set_next h1 entry LIST_POISON1
      in set_prev h2 entry LIST_POISON2)"

definition list_replace :: "'a lheap \<Rightarrow> 'a lptr \<Rightarrow> 'a lptr \<Rightarrow> 'a lheap" where
  "list_replace h old new =
     (let h1 = set_next h new (nxt h old);
          h2 = set_prev h1 (nxt h1 new) new;
          h3 = set_prev h2 new (prv h2 old)
      in set_next h3 (prv h3 new) new)"

definition list_replace_init :: "'a lheap \<Rightarrow> 'a lptr \<Rightarrow> 'a lptr \<Rightarrow> 'a lheap" where
  "list_replace_init h old new = INIT_LIST_HEAD (list_replace h old new) old"

definition list_del_init :: "'a lheap \<Rightarrow> 'a lptr \<Rightarrow> 'a lheap" where
  "list_del_init h entry = INIT_LIST_HEAD (raw_list_del_entry h entry) entry"

definition list_move :: "'a lheap \<Rightarrow> 'a lptr \<Rightarrow> 'a lptr \<Rightarrow> 'a lheap" where
  "list_move h l head = list_add (raw_list_del_entry h l) l head"

definition list_move_tail :: "'a lheap \<Rightarrow> 'a lptr \<Rightarrow> 'a lptr \<Rightarrow> 'a lheap" where
  "list_move_tail h l head = list_add_tail (raw_list_del_entry h l) l head"

definition list_is_last :: "'a lheap \<Rightarrow> 'a lptr \<Rightarrow> 'a lptr \<Rightarrow> bool" where
  "list_is_last h l head \<longleftrightarrow> nxt h l = head"

definition list_empty :: "'a lheap \<Rightarrow> 'a lptr \<Rightarrow> bool" where
  "list_empty h head \<longleftrightarrow> nxt h head = head"

definition list_empty_careful :: "'a lheap \<Rightarrow> 'a lptr \<Rightarrow> bool" where
  "list_empty_careful h head =
     (let next = nxt h head
      in next = head \<and> next = prv h head)"

definition list_rotate_left :: "'a lheap \<Rightarrow> 'a lptr \<Rightarrow> 'a lheap" where
  "list_rotate_left h head =
     (if \<not> list_empty h head
      then let first = nxt h head in list_move_tail h first head
      else h)"

definition list_is_singular :: "'a lheap \<Rightarrow> 'a lptr \<Rightarrow> bool" where
  "list_is_singular h head \<longleftrightarrow> \<not> list_empty h head \<and> nxt h head = prv h head"

definition raw_list_cut_position ::
  "'a lheap \<Rightarrow> 'a lptr \<Rightarrow> 'a lptr \<Rightarrow> 'a lptr \<Rightarrow> 'a lheap" where
  "raw_list_cut_position h l head entry =
     (let new_first = nxt h entry;
          h1 = set_next h l (nxt h head);
          h2 = set_prev h1 (nxt h1 l) l;
          h3 = set_prev h2 l entry;
          h4 = set_next h3 entry l;
          h5 = set_next h4 head new_first
      in set_prev h5 new_first head)"

definition list_cut_position ::
  "'a lheap \<Rightarrow> 'a lptr \<Rightarrow> 'a lptr \<Rightarrow> 'a lptr \<Rightarrow> 'a lheap" where
  "list_cut_position h l head entry =
     (if list_empty h head then h
      else if list_is_singular h head \<and> (nxt h head \<noteq> entry \<and> head \<noteq> entry) then h
      else if entry = head then INIT_LIST_HEAD h l
      else raw_list_cut_position h l head entry)"

definition raw_list_splice :: "'a lheap \<Rightarrow> 'a lptr \<Rightarrow> 'a lptr \<Rightarrow> 'a lptr \<Rightarrow> 'a lheap" where
  "raw_list_splice h l prev next =
     (let first = nxt h l;
          last = prv h l;
          h1 = set_prev h first prev;
          h2 = set_next h1 prev first;
          h3 = set_next h2 last next
      in set_prev h3 next last)"

definition list_splice :: "'a lheap \<Rightarrow> 'a lptr \<Rightarrow> 'a lptr \<Rightarrow> 'a lheap" where
  "list_splice h l head =
     (if \<not> list_empty h l then raw_list_splice h l head (nxt h head) else h)"

definition list_splice_tail :: "'a lheap \<Rightarrow> 'a lptr \<Rightarrow> 'a lptr \<Rightarrow> 'a lheap" where
  "list_splice_tail h l head =
     (if \<not> list_empty h l then raw_list_splice h l (prv h head) head else h)"

definition list_splice_init :: "'a lheap \<Rightarrow> 'a lptr \<Rightarrow> 'a lptr \<Rightarrow> 'a lheap" where
  "list_splice_init h l head =
     (if \<not> list_empty h l
      then INIT_LIST_HEAD (raw_list_splice h l head (nxt h head)) l else h)"

definition list_splice_tail_init :: "'a lheap \<Rightarrow> 'a lptr \<Rightarrow> 'a lptr \<Rightarrow> 'a lheap" where
  "list_splice_tail_init h l head =
     (if \<not> list_empty h l
      then INIT_LIST_HEAD (raw_list_splice h l (prv h head) head) l else h)"

lemmas list_field_defs =
  set_next_def set_prev_def

lemmas list_op_defs =
  INIT_LIST_HEAD_def raw_list_add_def raw_list_del_def raw_list_del_entry_def
  set_next_def set_prev_def Let_def

section \<open>Abstraction: the entries of a ring\<close>

fun linked :: "'a lheap \<Rightarrow> 'a lptr list \<Rightarrow> bool" where
  "linked h (x # y # zs) = (nxt h x = y \<and> prv h y = x \<and> linked h (y # zs))"
| "linked h zs = True"

definition is_list :: "'a lheap \<Rightarrow> 'a lptr \<Rightarrow> 'a lptr list \<Rightarrow> bool" where
  "is_list h hp xs \<longleftrightarrow> distinct (hp # xs) \<and> linked h (hp # xs @ [hp])"

lemma linked_append:
  "linked h (xs @ p # q # ys) \<longleftrightarrow>
   linked h (xs @ [p]) \<and> nxt h p = q \<and> prv h q = p \<and> linked h (q # ys)"
proof (induction xs)
  case (Cons x xs)
  then show ?case by (cases xs) auto
qed simp

lemma linked_cong:
  assumes "\<And>x. x \<in> set (butlast l) \<Longrightarrow> nxt h' x = nxt h x"
    and "\<And>x. x \<in> set (tl l) \<Longrightarrow> prv h' x = prv h x"
  shows "linked h' l = linked h l"
  using assms by (induction h l rule: linked.induct) auto

lemma is_list_cong:
  assumes "\<And>x. x \<in> set (hp # xs) \<Longrightarrow> nxt h' x = nxt h x \<and> prv h' x = prv h x"
  shows "is_list h' hp xs = is_list h hp xs"
proof -
  have "linked h' (hp # xs @ [hp]) = linked h (hp # xs @ [hp])"
    by (rule linked_cong) (use assms in \<open>auto simp: butlast_append dest: in_set_butlastD\<close>)
  then show ?thesis by (simp add: is_list_def)
qed

lemma is_list_distinct: "is_list h hp xs \<Longrightarrow> distinct (hp # xs)"
  by (simp add: is_list_def)

lemma is_list_next: "is_list h hp (xs @ x # ys) \<Longrightarrow> nxt h x = hd (ys @ [hp])"
  using linked_append [of h "hp # xs" x "hd (ys @ [hp])" "tl (ys @ [hp])"]
  by (cases ys) (simp_all add: is_list_def)

lemma is_list_prev: "is_list h hp (xs @ x # ys) \<Longrightarrow> prv h x = last (hp # xs)"
  using linked_append [of h "butlast (hp # xs)" "last (hp # xs)" x "ys @ [hp]"]
    append_butlast_last_id [of "hp # xs"]
  by (simp add: is_list_def) (metis append_Cons append_assoc append_Nil)

lemma is_list_head_next: "is_list h hp xs \<Longrightarrow> nxt h hp = hd (xs @ [hp])"
  by (cases xs) (simp_all add: is_list_def)

lemma is_list_head_prev: "is_list h hp xs \<Longrightarrow> prv h hp = last (hp # xs)"
proof (cases xs rule: rev_cases)
  case (snoc ys y)
  assume "is_list h hp xs"
  with snoc show ?thesis
    using linked_append [of h "hp # ys" y hp "[]"] by (simp add: is_list_def)
qed (simp add: is_list_def)

lemma is_list_empty_iff: "is_list h hp xs \<Longrightarrow> list_empty h hp \<longleftrightarrow> xs = []"
  by (cases xs) (auto simp: list_empty_def is_list_def)

lemma is_list_unique: "is_list h hp xs \<Longrightarrow> is_list h hp ys \<Longrightarrow> xs = ys"
proof -
  have "linked h (p # xs @ [hp]) \<Longrightarrow> linked h (p # ys @ [hp]) \<Longrightarrow>
     hp \<notin> set xs \<Longrightarrow> hp \<notin> set ys \<Longrightarrow> xs = ys" for p
  proof (induction xs arbitrary: p ys)
    case Nil
    then show ?case by (cases ys) auto
  next
    case (Cons x xs)
    then show ?case by (cases ys) auto
  qed
  then show "is_list h hp xs \<Longrightarrow> is_list h hp ys \<Longrightarrow> xs = ys"
    unfolding is_list_def by auto
qed

section \<open>One operation on one list\<close>

lemma is_list_init: "is_list (INIT_LIST_HEAD h l) l []"
  by (simp add: is_list_def list_op_defs)

lemma raw_list_add_spec:
  assumes l: "is_list h hp (xs @ ys)" and new: "new \<notin> set (hp # xs @ ys)"
    and p: "p = last (hp # xs)" and q: "q = hd (ys @ [hp])"
  shows "is_list (raw_list_add h new p q) hp (xs @ new # ys)"
proof -
  define us where "us = butlast (hp # xs)"
  define vs where "vs = tl (ys @ [hp])"
  have us: "hp # xs = us @ [p]" by (simp add: us_def p)
  have vs: "ys @ [hp] = q # vs" by (simp add: vs_def q)
  have dist: "distinct (hp # xs @ ys)" using l by (simp add: is_list_def)
  have d1: "distinct (us @ [p])" using dist by (simp flip: us)
  have d2: "distinct (q # vs)" using dist by (simp flip: vs)
  have qtl: "q \<notin> set (tl (us @ [p]))"
    using dist us [symmetric] vs by (cases ys) auto
  have pbl: "p \<notin> set (butlast (q # vs))"
    using dist us vs [symmetric] by (cases xs rule: rev_cases) auto
  have newn: "new \<notin> set (us @ [p])" "new \<notin> set (q # vs)"
    using new by (simp_all flip: us vs)
  let ?h = "raw_list_add h new p q"
  have "linked h ((us @ [p]) @ (q # vs))"
    using l by (simp add: is_list_def flip: us vs)
  then have L: "linked h (us @ [p])" "linked h (q # vs)"
    using linked_append [of h us p q vs] by simp_all
  have A: "linked ?h (us @ [p])"
    using L(1) d1 qtl newn
    by (subst linked_cong [of _ _ h]) (auto simp: list_op_defs tl_append split: list.splits)
  have B: "linked ?h (q # vs)"
    using L(2) d2 pbl newn
    by (subst linked_cong [of _ _ h]) (auto simp: list_op_defs dest: in_set_butlastD split: if_splits)
  have F: "nxt ?h p = new" "prv ?h new = p" "nxt ?h new = q" "prv ?h q = new"
    using newn by (auto simp: list_op_defs)
  have "linked ?h (us @ p # new # q # vs)"
    using A B F linked_append [of ?h us p new "q # vs"] by simp
  moreover have "hp # (xs @ new # ys) @ [hp] = us @ p # new # q # vs"
    using us vs by (metis append.assoc append_Cons append_Nil)
  ultimately show ?thesis using dist new by (auto simp: is_list_def)
qed

lemma raw_list_del_spec:
  assumes l: "is_list h hp (xs @ x # ys)"
  shows "is_list (raw_list_del_entry h x) hp (xs @ ys)"
proof -
  define p where "p = last (hp # xs)"
  define q where "q = hd (ys @ [hp])"
  define us where "us = butlast (hp # xs)"
  define vs where "vs = tl (ys @ [hp])"
  have us: "hp # xs = us @ [p]" by (simp add: us_def p_def)
  have vs: "ys @ [hp] = q # vs" by (simp add: vs_def q_def)
  have dist: "distinct (hp # xs @ x # ys)" using l by (simp add: is_list_def)
  have d1: "distinct (us @ [p])" using dist by (simp flip: us)
  have d2: "distinct (q # vs)" using dist by (simp flip: vs)
  have qtl: "q \<notin> set (tl (us @ [p]))"
    using dist us [symmetric] vs by (cases ys) auto
  have pbl: "p \<notin> set (butlast (q # vs))"
    using dist us vs [symmetric] by (cases xs rule: rev_cases) auto
  have pq: "prv h x = p" "nxt h x = q"
    using is_list_prev [OF l] is_list_next [OF l] by (simp_all add: p_def q_def)
  let ?h = "raw_list_del_entry h x"
  have "linked h (us @ p # x # q # vs)"
    using l us vs by (simp add: is_list_def) (metis append.assoc append_Cons append_Nil)
  then have L: "linked h (us @ [p])" "linked h (q # vs)"
    using linked_append [of h us p x "q # vs"] by simp_all
  have A: "linked ?h (us @ [p])"
    using L(1) d1 qtl pq
    by (subst linked_cong [of _ _ h]) (auto simp: list_op_defs tl_append split: list.splits)
  have B: "linked ?h (q # vs)"
    using L(2) d2 pbl pq
    by (subst linked_cong [of _ _ h]) (auto simp: list_op_defs dest: in_set_butlastD)
  have F: "nxt ?h p = q" "prv ?h q = p"
    using pq by (simp_all add: list_op_defs)
  have "linked ?h (us @ p # q # vs)"
    using A B F linked_append [of ?h us p q vs] by simp
  moreover have "hp # (xs @ ys) @ [hp] = us @ p # q # vs"
    using us vs by (metis append.assoc append_Cons append_Nil)
  ultimately show ?thesis using dist by (auto simp: is_list_def)
qed

lemma linked_split:
  "linked h (us @ p # vs) \<longleftrightarrow> linked h (us @ [p]) \<and> linked h (p # vs)"
  by (cases vs) (simp_all add: linked_append)

lemma is_list_rotate:
  assumes "is_list h hp (xs @ y # ys)"
  shows "is_list h y (ys @ hp # xs)"
  using assms linked_split [of h "hp # xs" y "ys @ [hp]"] linked_split [of h "y # ys" hp "xs @ [y]"]
  by (auto simp: is_list_def)

lemma list_move_head_spec:
  assumes l: "is_list h hp (xs @ y # ys)"
  shows "is_list (list_move_tail h hp y) hp (y # ys @ xs)"
proof -
  have "is_list h y (ys @ hp # xs)" by (rule is_list_rotate [OF l])
  then have d: "is_list (raw_list_del_entry h hp) y (ys @ xs)" by (rule raw_list_del_spec)
  have fresh: "hp \<notin> set (y # ys @ xs)" using l by (auto simp: is_list_def)
  have "is_list (list_move_tail h hp y) y ((ys @ xs) @ [hp])"
    unfolding list_move_tail_def list_add_tail_def
    using raw_list_add_spec [of _ y "ys @ xs" "[]"] d fresh is_list_head_prev [OF d]
    by simp
  then show ?thesis using is_list_rotate [of _ y "ys @ xs" hp "[]"] by simp
qed

section \<open>A heap of disjoint lists\<close>

type_synonym 'a lists = "'a lptr \<rightharpoonup> 'a lptr list"

definition nodes :: "'a lists \<Rightarrow> 'a lptr set \<Rightarrow> 'a lptr set" where
  "nodes A D = (\<Union>a \<in> D. case A a of None \<Rightarrow> {} | Some xs \<Rightarrow> set (a # xs))"

definition fam :: "'a lheap \<Rightarrow> 'a lists \<Rightarrow> bool" where
  "fam h A \<longleftrightarrow> (\<forall>a xs. A a = Some xs \<longrightarrow> is_list h a xs) \<and>
     (\<forall>a b xs ys. A a = Some xs \<longrightarrow> A b = Some ys \<longrightarrow> a \<noteq> b \<longrightarrow> set (a # xs) \<inter> set (b # ys) = {})"

text \<open>A loose node is on no list: it is unknown to the family, or a ring of its own.\<close>

definition loose :: "'a lists \<Rightarrow> 'a lptr \<Rightarrow> bool" where
  "loose A n \<longleftrightarrow> (\<forall>a xs. A a = Some xs \<longrightarrow> n \<in> set (a # xs) \<longrightarrow> a = n \<and> xs = [])"

lemma famD: "fam h A \<Longrightarrow> A a = Some xs \<Longrightarrow> is_list h a xs"
  by (simp add: fam_def)

lemma fam_disjoint:
  "fam h A \<Longrightarrow> A a = Some xs \<Longrightarrow> A b = Some ys \<Longrightarrow> a \<noteq> b \<Longrightarrow> set (a # xs) \<inter> set (b # ys) = {}"
  by (simp only: fam_def) blast

lemma fam_distinct: "fam h A \<Longrightarrow> A a = Some xs \<Longrightarrow> distinct (a # xs)"
  using famD is_list_distinct by blast

lemma fam_empty: "fam h A \<Longrightarrow> A a = Some xs \<Longrightarrow> list_empty h a \<longleftrightarrow> xs = []"
  using famD is_list_empty_iff by blast

lemma fam_member_not_empty:
  assumes "fam h A" and "A a = Some xs" and "n \<in> set xs"
  shows "\<not> list_empty h n"
proof -
  from assms(3) obtain ys zs where xs: "xs = ys @ n # zs" by (meson split_list)
  have l: "is_list h a (ys @ n # zs)" using famD [OF assms(1,2)] xs by simp
  have "nxt h n = hd (zs @ [a])" using is_list_next [OF l] .
  moreover have "n \<noteq> hd (zs @ [a])" using is_list_distinct [OF l] by (cases zs) auto
  ultimately show ?thesis by (auto simp: list_empty_def)
qed

lemma fam_no_head: "fam h A \<Longrightarrow> A a = Some xs \<Longrightarrow> n \<in> set xs \<Longrightarrow> A n = None"
  using fam_disjoint [of h A a xs n] fam_distinct [of h A a xs] by (cases "A n") fastforce+

lemma nodes_absent: "n \<notin> nodes A UNIV \<Longrightarrow> A a = Some xs \<Longrightarrow> n \<notin> set (a # xs)"
  unfolding nodes_def by (force split: option.splits)

lemma looseI_absent: "n \<notin> nodes A UNIV \<Longrightarrow> loose A n"
  unfolding loose_def nodes_def by (force split: option.splits)

lemma looseI_single: "fam h A \<Longrightarrow> A n = Some [] \<Longrightarrow> loose A n"
  unfolding loose_def using fam_disjoint by fastforce

lemma fam_change:
  assumes f: "fam h A"
    and out: "\<And>x. x \<notin> nodes A D \<Longrightarrow> x \<notin> X \<Longrightarrow> nxt h' x = nxt h x \<and> prv h' x = prv h x"
    and X: "\<And>a xs. a \<notin> D \<Longrightarrow> A a = Some xs \<Longrightarrow> set (a # xs) \<inter> X = {}"
    and same: "\<And>a. a \<notin> D \<Longrightarrow> A' a = A a"
    and new: "\<And>a xs. a \<in> D \<Longrightarrow> A' a = Some xs \<Longrightarrow>
       is_list h' a xs \<and> set (a # xs) \<subseteq> nodes A D \<union> X"
    and disj: "\<And>a b xs ys. a \<in> D \<Longrightarrow> b \<in> D \<Longrightarrow> a \<noteq> b \<Longrightarrow> A' a = Some xs \<Longrightarrow>
       A' b = Some ys \<Longrightarrow> set (a # xs) \<inter> set (b # ys) = {}"
  shows "fam h' A'"
proof -
  have D: "set (a # xs) \<inter> (nodes A D \<union> X) = {}" if "a \<notin> D" "A a = Some xs" for a xs
  proof -
    have "set (a # xs) \<inter> nodes A D = {}"
      unfolding nodes_def using fam_disjoint [OF f that(2)] that(1)
      by (fastforce split: option.splits)
    with X [OF that] show ?thesis by blast
  qed
  have L: "is_list h' a xs" if "A' a = Some xs" for a xs
  proof (cases "a \<in> D")
    case True
    then show ?thesis using new that by blast
  next
    case False
    with that same have a: "A a = Some xs" by simp
    have "is_list h' a xs = is_list h a xs"
      by (rule is_list_cong) (use D [OF False a] out in blast)
    with famD [OF f a] show ?thesis by simp
  qed
  have S: "set (a # xs) \<inter> set (b # ys) = {}"
    if ab: "A' a = Some xs" "A' b = Some ys" "a \<noteq> b" for a b xs ys
  proof (cases "a \<in> D")
    case True
    show ?thesis
    proof (cases "b \<in> D")
      case True
      with \<open>a \<in> D\<close> disj ab show ?thesis by blast
    next
      case False
      then show ?thesis using new [OF \<open>a \<in> D\<close> ab(1)] D [of b ys] same ab(2) by fastforce
    qed
  next
    case False
    note aD = this
    show ?thesis
    proof (cases "b \<in> D")
      case True
      then show ?thesis using new [OF True ab(2)] D [of a xs] same aD ab(1) by fastforce
    next
      case False
      then show ?thesis using fam_disjoint [OF f] same aD ab by simp
    qed
  qed
  show ?thesis unfolding fam_def using L S by blast
qed

subsection \<open>Each operation on a family\<close>

lemma raw_list_add_frame:
  "x \<noteq> n \<Longrightarrow> x \<noteq> p \<Longrightarrow> x \<noteq> q \<Longrightarrow>
   nxt (raw_list_add h n p q) x = nxt h x \<and> prv (raw_list_add h n p q) x = prv h x"
  by (simp add: list_op_defs)

lemma raw_list_del_entry_frame:
  "x \<noteq> prv h n \<Longrightarrow> x \<noteq> nxt h n \<Longrightarrow>
   nxt (raw_list_del_entry h n) x = nxt h x \<and> prv (raw_list_del_entry h n) x = prv h x"
  by (simp add: list_op_defs)

lemma fam_insert:
  assumes f: "fam h A" and hp: "A hp = Some (xs @ ys)" and n: "loose A n" "n \<noteq> hp"
    and p: "p = last (hp # xs)" and q: "q = hd (ys @ [hp])"
  shows "fam (raw_list_add h n p q) (A(n := None, hp \<mapsto> xs @ n # ys))"
proof (rule fam_change [OF f, where D = "{hp, n}" and X = "{n}"])
  have l: "is_list h hp (xs @ ys)" by (rule famD [OF f hp])
  have nin: "n \<notin> set (hp # xs @ ys)" using n hp unfolding loose_def by fastforce
  have pq: "p \<in> set (hp # xs @ ys)" "q \<in> set (hp # xs @ ys)"
    by (auto simp: p q hd_append)
  fix x assume "x \<notin> nodes A {hp, n}" "x \<notin> {n}"
  with hp pq show "nxt (raw_list_add h n p q) x = nxt h x \<and> prv (raw_list_add h n p q) x = prv h x"
    by (intro raw_list_add_frame) (auto simp: nodes_def)
next
  fix a zs assume "a \<notin> {hp, n}" "A a = Some zs"
  with n show "set (a # zs) \<inter> {n} = {}" unfolding loose_def by fastforce
next
  fix a zs assume "a \<in> {hp, n}" "(A(n := None, hp \<mapsto> xs @ n # ys)) a = Some zs"
  then have a: "a = hp" "zs = xs @ n # ys" by (auto split: if_splits)
  have "n \<notin> set (hp # xs @ ys)" using n hp unfolding loose_def by fastforce
  with a raw_list_add_spec [OF famD [OF f hp] _ p q, of n] hp
  show "is_list (raw_list_add h n p q) a zs \<and> set (a # zs) \<subseteq> nodes A {hp, n} \<union> {n}"
    by (auto simp: nodes_def)
qed (auto split: if_splits)

lemma fam_list_add:
  assumes "fam h A" and "A hp = Some xs" and "loose A n" "n \<noteq> hp"
  shows "fam (list_add h n hp) (A(n := None, hp \<mapsto> n # xs))"
  unfolding list_add_def
  using fam_insert [of h A hp "[]" xs n] assms is_list_head_next [OF famD [OF assms(1,2)]] by simp

lemma fam_list_add_after:
  assumes "fam h A" and "A hp = Some (xs @ y # ys)" and "loose A n" "n \<noteq> hp"
  shows "fam (list_add h n y) (A(n := None, hp \<mapsto> xs @ y # n # ys))"
  unfolding list_add_def
  using fam_insert [of h A hp "xs @ [y]" ys n] assms is_list_next [OF famD [OF assms(1,2)]] by simp

lemma fam_list_add_tail:
  assumes "fam h A" and "A hp = Some xs" and "loose A n" "n \<noteq> hp"
  shows "fam (list_add_tail h n hp) (A(n := None, hp \<mapsto> xs @ [n]))"
  unfolding list_add_tail_def
  using fam_insert [of h A hp xs "[]" n] assms is_list_head_prev [OF famD [OF assms(1,2)]] by simp

lemma fam_raw_list_del:
  assumes f: "fam h A" and hp: "A hp = Some (xs @ n # ys)"
  shows "fam (raw_list_del_entry h n) (A(hp \<mapsto> xs @ ys))"
proof (rule fam_change [OF f, where D = "{hp}" and X = "{}"])
  have l: "is_list h hp (xs @ n # ys)" by (rule famD [OF f hp])
  fix x assume "x \<notin> nodes A {hp}"
  then have "x \<noteq> prv h n" "x \<noteq> nxt h n"
    using is_list_prev [OF l] is_list_next [OF l] hp by (auto simp: nodes_def hd_append)
  then show "nxt (raw_list_del_entry h n) x = nxt h x \<and> prv (raw_list_del_entry h n) x = prv h x"
    by (rule raw_list_del_entry_frame)
next
  fix a zs assume "a \<in> {hp}" "(A(hp \<mapsto> xs @ ys)) a = Some zs"
  then have a: "a = hp" "zs = xs @ ys" by auto
  with raw_list_del_spec [OF famD [OF f hp]] hp
  show "is_list (raw_list_del_entry h n) a zs \<and> set (a # zs) \<subseteq> nodes A {hp} \<union> {}"
    by (auto simp: nodes_def)
qed auto

lemma fam_outside:
  assumes f: "fam h A" and n: "n \<notin> nodes A UNIV"
    and out: "\<And>x. x \<noteq> n \<Longrightarrow> nxt h' x = nxt h x \<and> prv h' x = prv h x"
  shows "fam h' A"
  by (rule fam_change [OF f, where D = "{}" and X = "{n}"])
    (use n out in \<open>force simp: nodes_def split: option.splits\<close>)+

lemma fam_init_outside:
  assumes f: "fam h A" and n: "n \<notin> nodes A UNIV"
  shows "fam (INIT_LIST_HEAD h n) (A(n \<mapsto> []))"
proof (rule fam_change [OF f, where D = "{n}" and X = "{n}"])
  fix a zs assume "a \<in> {n}" "(A(n \<mapsto> [])) a = Some zs"
  then show "is_list (INIT_LIST_HEAD h n) a zs \<and> set (a # zs) \<subseteq> nodes A {n} \<union> {n}"
    using is_list_init [of h n] by (auto simp: nodes_def)
qed (use nodes_absent [OF n] in \<open>auto simp: list_op_defs\<close>)

lemma nodes_after_del:
  assumes f: "fam h A" and hp: "A hp = Some (xs @ n # ys)"
  shows "n \<notin> nodes (A(hp \<mapsto> xs @ ys)) UNIV"
proof
  assume "n \<in> nodes (A(hp \<mapsto> xs @ ys)) UNIV"
  then obtain a zs where a: "(A(hp \<mapsto> xs @ ys)) a = Some zs" "n \<in> set (a # zs)"
    by (auto simp: nodes_def split: option.splits)
  show False
  proof (cases "a = hp")
    case True
    then show ?thesis using a fam_distinct [OF f hp] by auto
  next
    case False
    then show ?thesis using a fam_disjoint [OF f hp, of a zs] by fastforce
  qed
qed

lemma fam_list_del:
  assumes f: "fam h A" and hp: "A hp = Some (xs @ n # ys)"
  shows "fam (list_del h n) (A(hp \<mapsto> xs @ ys))"
  by (rule fam_outside [OF fam_raw_list_del [OF f hp] nodes_after_del [OF f hp]])
    (simp add: list_del_def list_op_defs)

lemma fam_list_del_init:
  assumes f: "fam h A" and hp: "A hp = Some (xs @ n # ys)"
  shows "fam (list_del_init h n) (A(hp \<mapsto> xs @ ys, n \<mapsto> []))"
  unfolding list_del_init_def
  by (rule fam_init_outside [OF fam_raw_list_del [OF f hp] nodes_after_del [OF f hp]])

lemma fam_list_move_tail:
  assumes f: "fam h A" and hp: "A hp = Some (xs @ n # ys)"
  shows "fam (list_move_tail h n hp) (A(hp \<mapsto> xs @ ys @ [n]))"
proof -
  have n: "n \<noteq> hp" "A n = None" using fam_distinct [OF f hp] fam_no_head [OF f hp] by auto
  have "fam (list_add_tail (raw_list_del_entry h n) n hp)
     ((A(hp \<mapsto> xs @ ys))(n := None, hp \<mapsto> (xs @ ys) @ [n]))"
    by (rule fam_list_add_tail [OF fam_raw_list_del [OF f hp]])
      (use n nodes_after_del [OF f hp] in \<open>auto intro: looseI_absent\<close>)
  moreover have "(A(hp \<mapsto> xs @ ys))(n := None, hp \<mapsto> (xs @ ys) @ [n]) = A(hp \<mapsto> xs @ ys @ [n])"
    using n by (auto simp: fun_eq_iff)
  ultimately show ?thesis by (simp add: list_move_tail_def)
qed

lemma fam_list_move:
  assumes f: "fam h A" and hp: "A hp = Some (xs @ n # ys)"
  shows "fam (list_move h n hp) (A(hp \<mapsto> n # xs @ ys))"
proof -
  have n: "n \<noteq> hp" "A n = None" using fam_distinct [OF f hp] fam_no_head [OF f hp] by auto
  have "fam (list_add (raw_list_del_entry h n) n hp)
     ((A(hp \<mapsto> xs @ ys))(n := None, hp \<mapsto> n # xs @ ys))"
    by (rule fam_list_add [OF fam_raw_list_del [OF f hp]])
      (use n nodes_after_del [OF f hp] in \<open>auto intro: looseI_absent\<close>)
  moreover have "(A(hp \<mapsto> xs @ ys))(n := None, hp \<mapsto> n # xs @ ys) = A(hp \<mapsto> n # xs @ ys)"
    using n by (auto simp: fun_eq_iff)
  ultimately show ?thesis by (simp add: list_move_def)
qed

text \<open>Moving the head itself in front of an entry rotates the list.\<close>

lemma fam_rotate:
  assumes f: "fam h A" and hp: "A hp = Some (xs @ y # ys)"
  shows "fam (list_move_tail h hp y) (A(hp \<mapsto> y # ys @ xs))"
proof (rule fam_change [OF f, where D = "{hp}" and X = "{}"])
  have l: "is_list h hp (xs @ y # ys)" by (rule famD [OF f hp])
  let ?h1 = "raw_list_del_entry h hp"
  have e: "prv h hp \<in> set (hp # xs @ y # ys)" "nxt h hp \<in> set (hp # xs @ y # ys)"
    using is_list_head_prev [OF l] is_list_head_next [OF l] by (auto simp: hd_append)
  have "prv ?h1 y = last (y # ys @ xs)"
    by (rule is_list_head_prev [OF raw_list_del_spec [OF is_list_rotate [OF l]]])
  then have e2: "prv ?h1 y \<in> set (hp # xs @ y # ys)"
    using last_in_set [of "y # ys @ xs"] by auto
  fix x assume "x \<notin> nodes A {hp}"
  with hp have x: "x \<notin> set (hp # xs @ y # ys)" by (simp add: nodes_def)
  with e have "nxt ?h1 x = nxt h x \<and> prv ?h1 x = prv h x"
    by (intro raw_list_del_entry_frame) auto
  with x e2 raw_list_add_frame [of x hp "prv ?h1 y" y ?h1]
  show "nxt (list_move_tail h hp y) x = nxt h x \<and> prv (list_move_tail h hp y) x = prv h x"
    unfolding list_move_tail_def list_add_tail_def by auto
next
  fix a zs assume "a \<in> {hp}" "(A(hp \<mapsto> y # ys @ xs)) a = Some zs"
  then have a: "a = hp" "zs = y # ys @ xs" by auto
  with list_move_head_spec [OF famD [OF f hp]] hp
  show "is_list (list_move_tail h hp y) a zs \<and> set (a # zs) \<subseteq> nodes A {hp} \<union> {}"
    by (auto simp: nodes_def)
qed auto

subsection \<open>Joining and cutting lists\<close>

lemma linked_frame:
  "linked h l \<Longrightarrow> (\<And>x. x \<in> set (butlast l) \<Longrightarrow> nxt h' x = nxt h x) \<Longrightarrow>
   (\<And>x. x \<in> set (tl l) \<Longrightarrow> prv h' x = prv h x) \<Longrightarrow> linked h' l"
  using linked_cong by blast

lemma linked_join:
  "linked h (us @ [p]) \<Longrightarrow> nxt h p = q \<Longrightarrow> prv h q = p \<Longrightarrow> linked h (q # vs) \<Longrightarrow>
   linked h (us @ p # q # vs)"
  by (simp add: linked_append)

lemma raw_list_splice_spec:
  assumes l: "is_list h lp (f # ms)" and hp: "is_list h hp ys"
    and dj: "set (lp # f # ms) \<inter> set (hp # ys) = {}"
  shows "is_list (raw_list_splice h lp hp (nxt h hp)) hp (f # ms @ ys)"
proof -
  define e where "e = last (f # ms)"
  define ns where "ns = butlast (f # ms)"
  define q where "q = hd (ys @ [hp])"
  define vs where "vs = tl (ys @ [hp])"
  have ns: "f # ms = ns @ [e]" by (simp add: ns_def e_def)
  have vs: "ys @ [hp] = q # vs" by (simp add: vs_def q_def)
  have d1: "distinct (lp # f # ms)" and d2: "distinct (hp # ys)"
    using l hp by (simp_all add: is_list_def)
  have fields: "nxt h lp = f" "prv h lp = e" "nxt h hp = q"
    using is_list_head_next [OF l] is_list_head_prev [OF l] is_list_head_next [OF hp]
    by (simp_all add: e_def q_def)
  let ?h = "raw_list_splice h lp hp (nxt h hp)"
  have e: "e \<in> set (f # ms)" "e \<notin> set (butlast (f # ms))"
    using ns d1 by (auto simp: e_def ns_def)
  have q: "q \<in> set (hp # ys)" by (auto simp: q_def hd_append)
  have N: "nxt ?h x = (if x = e then q else if x = hp then f else nxt h x)" for x
    by (simp add: raw_list_splice_def list_field_defs Let_def fields)
  have P: "prv ?h x = (if x = q then e else if x = f then hp else prv h x)" for x
    by (simp add: raw_list_splice_def list_field_defs Let_def fields)
  have "linked h (f # ms)"
    using l linked_split [of h "lp # ns" e "[lp]"] ns by (cases ns) (auto simp: is_list_def)
  then have A: "linked ?h (ns @ [e])"
    unfolding ns [symmetric]
    by (rule linked_frame)
      (use e q dj d1 in \<open>auto simp: N P dest: in_set_butlastD split: if_splits\<close>)
  have "linked h (q # vs)" using hp vs by (cases ys) (auto simp: is_list_def)
  then have B: "linked ?h (q # vs)"
  proof (rule linked_frame)
    fix x assume "x \<in> set (butlast (q # vs))"
    then have "x \<in> set ys" using vs [symmetric] by simp
    with e dj d2 show "nxt ?h x = nxt h x" by (auto simp: N)
  next
    fix x assume "x \<in> set (tl (q # vs))"
    then have "x \<in> set (hp # ys)" "x \<noteq> q" using vs d2 by (cases ys; auto)+
    with dj show "prv ?h x = prv h x" by (auto simp: P)
  qed
  have "linked ?h (ns @ e # q # vs)"
    by (rule linked_join [OF A _ _ B]) (auto simp: N P)
  then have "linked ?h ((f # ms) @ ys @ [hp])" by (simp add: ns vs)
  moreover have "nxt ?h hp = f" "prv ?h f = hp" using e q dj by (auto simp: N P)
  ultimately show ?thesis using d1 d2 dj by (auto simp: is_list_def)
qed

lemma list_splice_spec:
  assumes l: "is_list h lp xs" and hp: "is_list h hp ys"
    and dj: "set (lp # xs) \<inter> set (hp # ys) = {}"
  shows "is_list (list_splice h lp hp) hp (xs @ ys)"
proof (cases xs)
  case Nil
  with assms show ?thesis by (simp add: list_splice_def is_list_empty_iff)
next
  case (Cons f ms)
  with assms show ?thesis using raw_list_splice_spec [of h lp f ms hp ys]
    by (simp add: list_splice_def is_list_empty_iff)
qed

lemma list_rotate_left_spec:
  assumes "fam h A" and "A hp = Some (x # xs)"
  shows "fam (list_rotate_left h hp) (A(hp \<mapsto> xs @ [x]))"
  using fam_list_move_tail [of h A hp "[]" x xs] assms fam_empty [OF assms]
    is_list_head_next [OF famD [OF assms]]
  by (simp add: list_rotate_left_def)

lemma list_is_singular_iff:
  assumes l: "is_list h hp xs"
  shows "list_is_singular h hp \<longleftrightarrow> (\<exists>x. xs = [x])"
proof (cases xs)
  case Nil
  with l show ?thesis by (simp add: list_is_singular_def is_list_empty_iff)
next
  case (Cons x ys)
  then have "nxt h hp = x" "prv h hp = last (x # ys)"
    using is_list_head_next [OF l] is_list_head_prev [OF l] by simp_all
  moreover have "x = last (x # ys) \<longleftrightarrow> ys = []"
    using is_list_distinct [OF l] Cons last_in_set [of ys] by (cases ys) auto
  ultimately show ?thesis using l Cons by (auto simp: list_is_singular_def is_list_empty_iff)
qed

text \<open>A circular list may be entered at any of its nodes.\<close>

lemma fam_reroot:
  assumes f: "fam h A" and hp: "A a = Some (xs @ y # ys)"
  shows "fam h (A(a := None, y \<mapsto> ys @ a # xs))"
proof -
  have il: "is_list h a (xs @ y # ys)" using famD [OF f hp] .
  have ya: "y \<noteq> a" using is_list_distinct [OF il] by auto
  have Ay: "A y = None" using fam_no_head [OF f hp] by simp
  have dj: "set (a # xs @ y # ys) \<inter> set (b # zs) = {}" if "A b = Some zs" "b \<noteq> a" for b zs
    using fam_disjoint [OF f hp that(1)] that(2) by auto
  show ?thesis
    unfolding fam_def
  proof (intro conjI allI impI)
    fix b zs assume "(A(a := None, y \<mapsto> ys @ a # xs)) b = Some zs"
    then show "is_list h b zs"
      using is_list_rotate [OF il] famD [OF f] by (auto split: if_splits)
  next
    fix b c zs ws
    assume b: "(A(a := None, y \<mapsto> ys @ a # xs)) b = Some zs" and c: "(A(a := None, y \<mapsto> ys @ a # xs)) c = Some ws"
      and bc: "b \<noteq> c"
    have same: "set (y # ys @ a # xs) = set (a # xs @ y # ys)" by auto
    consider "b = y" "c \<noteq> y" | "c = y" "b \<noteq> y" | "b \<noteq> y" "c \<noteq> y" using bc by blast
    then show "set (b # zs) \<inter> set (c # ws) = {}"
    proof cases
      case 1
      then have z: "zs = ys @ a # xs" "A c = Some ws" "c \<noteq> a" using b c by (auto split: if_splits)
      show ?thesis using dj [OF z(2,3)] unfolding 1 z(1) same .
    next
      case 2
      then have z: "ws = ys @ a # xs" "A b = Some zs" "b \<noteq> a" using b c by (auto split: if_splits)
      show ?thesis using dj [OF z(2,3)] unfolding 2 z(1) same by blast
    next
      case 3
      then have "A b = Some zs" "A c = Some ws" using b c by (auto split: if_splits)
      then show ?thesis using fam_disjoint [OF f _ _ bc] by blast
    qed
  qed
qed

lemma fam_list_add_before:
  assumes f: "fam h A" and hp: "A hp = Some (xs @ y # ys)" and n: "loose A n" "n \<noteq> hp"
  shows "fam (list_add_tail h n y) (A(n := None, hp \<mapsto> xs @ n # y # ys))"
proof -
  have "prv h y = last (hp # xs)" using is_list_prev [OF famD [OF f hp]] .
  then show ?thesis
    unfolding list_add_tail_def using fam_insert [OF f hp n] by simp
qed

section \<open>Circular lists without a head\<close>

text \<open>The nodes \<open>cs\<close> in a circle, entered at the first one.\<close>

definition circle :: "'a lists \<Rightarrow> 'a lptr list \<Rightarrow> 'a lists" where
  "circle B cs = (case cs of [] \<Rightarrow> B | c # ds \<Rightarrow> B(c \<mapsto> ds))"

lemma circle_simps [simp]: "circle B [] = B" "circle B (c # ds) = B(c \<mapsto> ds)"
  by (simp_all add: circle_def)

lemma circle_reroot:
  assumes f: "fam h (circle B (us @ y # vs))" and B: "\<forall>c \<in> set (us @ y # vs). B c = None"
  shows "fam h (circle B (y # vs @ us))"
proof (cases us)
  case Nil
  then show ?thesis using f by simp
next
  case (Cons a as)
  have "fam h (B(a \<mapsto> as @ y # vs, a := None, y \<mapsto> vs @ a # as))"
    using f Cons by (intro fam_reroot) auto
  moreover have "B(a \<mapsto> as @ y # vs, a := None, y \<mapsto> vs @ a # as) = B(y \<mapsto> vs @ a # as)"
    using B Cons by auto
  ultimately show ?thesis using Cons by simp
qed

lemma circle_insert:
  assumes f: "fam h (circle B (us @ vs))" and ne: "us @ vs \<noteq> []" and B: "\<forall>c \<in> set (us @ vs). B c = None"
    and n: "B n = Some []" and y: "y = hd (vs @ us)"
  shows "fam (list_add_tail h n y) (circle (B(n := None)) (us @ n # vs))"
proof -
  have nn: "n \<notin> set (us @ vs)" using B n by auto
  obtain zs where zs: "vs @ us = y # zs" using y ne by (cases "vs @ us") auto
  have "fam h (circle B (vs @ us))"
  proof (cases vs)
    case Nil
    then show ?thesis using f by simp
  next
    case (Cons v ws)
    then show ?thesis using circle_reroot [of h B us v ws] f B by simp
  qed
  then have f1: "fam h (B(y \<mapsto> zs))" using zs by simp
  have yn: "n \<noteq> y" using nn arg_cong [OF zs, of set] by auto
  have ln: "loose (B(y \<mapsto> zs)) n" using looseI_single [OF f1] n yn by simp
  have f2: "fam (list_add_tail h n y) (B(y \<mapsto> zs, n := None, y \<mapsto> zs @ [n]))"
    using fam_list_add_tail [OF f1 _ ln yn] by simp
  let ?B = "B(n := None)"
  have "B(y \<mapsto> zs, n := None, y \<mapsto> zs @ [n]) = circle ?B ((vs @ us) @ [n])"
    using yn zs by auto
  with f2 have f3: "fam (list_add_tail h n y) (circle ?B (vs @ (us @ [n])))" by simp
  have Bn: "\<forall>c \<in> set (vs @ us @ [n]). ?B c = None" using B by auto
  show ?thesis
  proof (cases us)
    case Nil
    then show ?thesis using circle_reroot [of _ ?B vs n "[]"] f3 Bn by simp
  next
    case (Cons u ws)
    then show ?thesis using circle_reroot [of _ ?B vs u "ws @ [n]"] f3 Bn by simp
  qed
qed

lemma circle_insert_after:
  assumes f: "fam h (circle B (us @ x # vs))" and B: "\<forall>c \<in> set (us @ x # vs). B c = None"
    and n: "B n = Some []"
  shows "fam (list_add h n x) (circle (B(n := None)) (us @ x # n # vs))"
proof -
  let ?B = "B(n := None)"
  have f1: "fam h (B(x \<mapsto> vs @ us))" using circle_reroot [OF f B] by simp
  have xn: "n \<noteq> x" using B n by auto
  have ln: "loose (B(x \<mapsto> vs @ us)) n" using looseI_single [OF f1] n xn by simp
  have "fam (list_add h n x) (B(x \<mapsto> vs @ us, n := None, x \<mapsto> n # vs @ us))"
    using fam_list_add [OF f1 _ ln xn] by simp
  moreover have "B(x \<mapsto> vs @ us, n := None, x \<mapsto> n # vs @ us) = circle ?B (x # n # vs @ us)" using xn by auto
  ultimately have f2: "fam (list_add h n x) (circle ?B ((x # n # vs) @ us))" by simp
  have Bn: "\<forall>c \<in> set (us @ x # n # vs). ?B c = None" using B by auto
  show ?thesis
  proof (cases us)
    case Nil
    then show ?thesis using f2 by simp
  next
    case (Cons u ws)
    have "\<forall>c \<in> set ((x # n # vs) @ u # ws). ?B c = None" using B Cons by auto
    with circle_reroot [of _ ?B "x # n # vs" u ws] f2 Cons show ?thesis by simp
  qed
qed

lemma circle_del:
  assumes f: "fam h (circle B (us @ n # vs))" and ne: "us @ vs \<noteq> []"
    and B: "\<forall>c \<in> set (us @ n # vs). B c = None"
  shows "fam (list_del_init h n) (circle (B(n \<mapsto> [])) (us @ vs))"
proof -
  obtain y zs where yz: "vs @ us = y # zs" using ne by (cases "vs @ us") auto
  have d: "distinct (us @ n # vs)"
  proof -
    have "fam h (circle B (n # vs @ us))" using circle_reroot [OF f B] .
    then have "distinct (n # vs @ us)" using fam_distinct [of h "B(n \<mapsto> vs @ us)" n] by simp
    then show ?thesis by auto
  qed
  let ?B = "B(n \<mapsto> [])"
  have "fam h (circle B (n # vs @ us))" using circle_reroot [OF f B] .
  then have "fam h (circle B ([n] @ y # zs))" using yz by simp
  moreover have "\<forall>c \<in> set ([n] @ y # zs). B c = None" using B arg_cong [OF yz, of set] by auto
  ultimately have "fam h (circle B (y # zs @ [n]))" using circle_reroot by blast
  then have "fam h (B(y \<mapsto> zs @ n # []))" by simp
  then have "fam (list_del_init h n) (B(y \<mapsto> zs @ n # [], y \<mapsto> zs @ [], n \<mapsto> []))" by (rule fam_list_del_init) simp
  moreover have "n \<noteq> y" using d arg_cong [OF yz, of set] by auto
  then have "B(y \<mapsto> zs @ n # [], y \<mapsto> zs @ [], n \<mapsto> []) = circle ?B (vs @ us)" using yz by auto
  ultimately have f2: "fam (list_del_init h n) (circle ?B (vs @ us))" by simp
  show ?thesis
  proof (cases us)
    case Nil
    then show ?thesis using f2 by simp
  next
    case (Cons u ws)
    have "\<forall>c \<in> set (vs @ u # ws). ?B c = None" using B d Cons by auto
    with circle_reroot [of _ ?B vs u ws] f2 Cons show ?thesis by simp
  qed
qed

end
