(* ===== verification/Slob_Page.thy ===== *)
theory Slob_Page
  imports Klist
begin

text \<open>
  The block level of the SLOB allocator (\<open>project4/slob.c\<close>, the group's best-fit version): memory as
  bytes, the encoding of free blocks (\<open>set_slob\<close>, \<open>slob_units\<close>, \<open>slob_next\<close>, \<open>slob_last\<close>), the page
  flags and lists, and \<open>slob_page_alloc\<close>, which scans a page's whole free list for the block with the
  least slack and carves the request out of it. A \<open>slob_t *\<close> is a unit address (byte address divided
  by \<open>SLOB_UNIT\<close>); \<open>slobidx_t\<close> is a signed 16-bit integer, as \<open>PAGE_SIZE\<close> is 4096.

  \<open>fl m e bs\<close> says that the free list of a page holds exactly the blocks \<open>bs\<close> (start and length, in
  units), in address order and with no two of them adjacent. The theorems state what an allocation
  does to \<open>bs\<close>, that it takes the best fit, and that it leaves every byte outside the free blocks alone.
\<close>

section \<open>Memory\<close>

type_synonym bmem = "nat \<Rightarrow> 8 word"

definition rd16 :: "bmem \<Rightarrow> nat \<Rightarrow> int" where
  "rd16 m s = s16 (uint (m (2 * s)) + 256 * uint (m (2 * s + 1)))"

definition wr16 :: "bmem \<Rightarrow> nat \<Rightarrow> int \<Rightarrow> bmem" where
  "wr16 m s v = m(2 * s := word_of_int v, 2 * s + 1 := word_of_int (v div 256))"

lemma rd16_wr16 [simp]: "rd16 (wr16 m s v) s = s16 v"
proof -
  have "v mod 256 + 256 * (v div 256 mod 256) = v mod 65536"
    using zmod_zmult2_eq [of 256 v 256] by simp
  then show ?thesis
    by (simp add: rd16_def wr16_def uint_word_of_int s16_mod)
qed

lemma rd16_wr16_other [simp]: "s \<noteq> t \<Longrightarrow> rd16 (wr16 m s v) t = rd16 m t"
proof -
  assume "s \<noteq> t"
  then have "2 * t \<noteq> 2 * s" "2 * t \<noteq> 2 * s + 1" "2 * t + 1 \<noteq> 2 * s" "2 * t + 1 \<noteq> 2 * s + 1"
    by presburger+
  then show ?thesis by (simp add: rd16_def wr16_def)
qed

lemma wr16_frame: "x div 2 \<noteq> s \<Longrightarrow> wr16 m s v x = m x"
  by (auto simp: wr16_def)

lemma rd16_cong: "m' (2 * s) = m (2 * s) \<Longrightarrow> m' (2 * s + 1) = m (2 * s + 1) \<Longrightarrow> rd16 m' s = rd16 m s"
  by (simp add: rd16_def)

section \<open>Constants and macros\<close>

definition PAGE_SIZE :: nat where "PAGE_SIZE = 4096"

definition SLOB_UNIT :: nat where "SLOB_UNIT = 2"

definition SLOB_UNITS :: "nat \<Rightarrow> nat" where
  "SLOB_UNITS sz = ((sz + SLOB_UNIT - 1) mod 2 ^ 32) div SLOB_UNIT"

lemma SLOB_UNITS_PAGE [simp]: "SLOB_UNITS PAGE_SIZE = 2048"
  by (simp add: SLOB_UNITS_def PAGE_SIZE_def SLOB_UNIT_def)

lemma SLOB_UNITS_eq: "sz < 2 ^ 32 - 1 \<Longrightarrow> SLOB_UNITS sz = (sz + 1) div 2"
  by (simp add: SLOB_UNITS_def SLOB_UNIT_def)

text \<open>\<open>addr & PAGE_MASK\<close> and \<open>addr & ~PAGE_MASK\<close> on byte addresses.\<close>

definition page_mask :: "nat \<Rightarrow> nat" where "page_mask a = a - a mod PAGE_SIZE"

definition page_off :: "nat \<Rightarrow> nat" where "page_off a = a mod PAGE_SIZE"

text \<open>The kernel's \<open>ALIGN(x, a)\<close>: \<open>(x + mask) & ~mask\<close> with \<open>mask = (unsigned long)a - 1\<close>.\<close>

definition ALIGN :: "nat \<Rightarrow> int \<Rightarrow> nat" where
  "ALIGN x a = nat (u32 (int x + u32 (a - 1)) AND NOT (u32 (a - 1)))"

section \<open>Encoding of free blocks\<close>

definition slob_base :: "nat \<Rightarrow> nat" where
  "slob_base s = page_mask (2 * s) div 2"

definition set_slob :: "bmem \<Rightarrow> nat \<Rightarrow> int \<Rightarrow> nat \<Rightarrow> bmem" where
  "set_slob m s sz next =
     (let sz = s16 sz;
          base = slob_base s;
          offset = s16 (int next - int base)
      in if sz > 1
         then wr16 (wr16 m s sz) (s + 1) offset
         else wr16 m s (s16 (- offset)))"

definition slob_units :: "bmem \<Rightarrow> nat \<Rightarrow> int" where
  "slob_units m s = (if rd16 m s > 0 then rd16 m s else 1)"

definition slob_next :: "bmem \<Rightarrow> nat \<Rightarrow> nat" where
  "slob_next m s =
     (let base = slob_base s;
          next = (if rd16 m s < 0 then s16 (- rd16 m s) else rd16 m (s + 1))
      in nat (int base + next))"

definition slob_last :: "bmem \<Rightarrow> nat \<Rightarrow> bool" where
  "slob_last m s \<longleftrightarrow> page_off (2 * slob_next m s) = 0"

section \<open>Pages and lists\<close>

record slob_page =
  PageSlab :: bool
  PageSlobFree :: bool
  units :: int
  free :: nat
  page_private :: nat

datatype slob_node = free_slob_small | free_slob_medium | free_slob_large | page_list nat

record slob_st =
  mem :: bmem
  pages :: "nat \<Rightarrow> slob_page"
  lists :: "slob_node lheap"

definition upd_page :: "'z slob_st_scheme \<Rightarrow> nat \<Rightarrow> (slob_page \<Rightarrow> slob_page) \<Rightarrow> 'z slob_st_scheme" where
  "upd_page st sp f = st\<lparr>pages := (pages st)(sp := f (pages st sp))\<rparr>"

definition set_slob_page :: "'z slob_st_scheme \<Rightarrow> nat \<Rightarrow> 'z slob_st_scheme" where
  "set_slob_page st sp = upd_page st sp (\<lambda>p. p\<lparr>PageSlab := True\<rparr>)"

definition clear_slob_page :: "'z slob_st_scheme \<Rightarrow> nat \<Rightarrow> 'z slob_st_scheme" where
  "clear_slob_page st sp = upd_page st sp (\<lambda>p. p\<lparr>PageSlab := False\<rparr>)"

definition is_slob_page :: "'z slob_st_scheme \<Rightarrow> nat \<Rightarrow> bool" where
  "is_slob_page st sp = PageSlab (pages st sp)"

definition slob_page_free :: "'z slob_st_scheme \<Rightarrow> nat \<Rightarrow> bool" where
  "slob_page_free st sp = PageSlobFree (pages st sp)"

definition set_slob_page_free :: "'z slob_st_scheme \<Rightarrow> nat \<Rightarrow> slob_node \<Rightarrow> 'z slob_st_scheme" where
  "set_slob_page_free st sp list =
     (let st1 = st\<lparr>lists := list_add (lists st) (Node (page_list sp)) (Node list)\<rparr>
      in upd_page st1 sp (\<lambda>p. p\<lparr>PageSlobFree := True\<rparr>))"

definition clear_slob_page_free :: "'z slob_st_scheme \<Rightarrow> nat \<Rightarrow> 'z slob_st_scheme" where
  "clear_slob_page_free st sp =
     (let st1 = st\<lparr>lists := list_del (lists st) (Node (page_list sp))\<rparr>
      in upd_page st1 sp (\<lambda>p. p\<lparr>PageSlobFree := False\<rparr>))"

text \<open>\<open>virt_to_page\<close>: the page frame of a byte address.\<close>

definition slob_page_of :: "nat \<Rightarrow> nat" where
  "slob_page_of addr = addr div PAGE_SIZE"

section \<open>Allocating from a page\<close>

text \<open>The locals \<open>best_prev\<close>, \<open>best_cur\<close>, \<dots> of the scan; none of them is set while \<open>best_cur\<close> is \<open>NULL\<close>.\<close>

record best =
  best_prev :: "nat option"
  best_cur :: nat
  best_aligned :: "nat option"
  best_delta :: int
  best_diff :: int

definition scan_align :: "nat \<Rightarrow> int \<Rightarrow> nat option \<times> int" where
  "scan_align cur align =
     (if align \<noteq> 0
      then let aligned = ALIGN (2 * cur) align div 2 in (Some aligned, s32 (int aligned - int cur))
      else (None, 0))"

definition scan_best ::
  "int \<Rightarrow> int \<Rightarrow> nat option \<Rightarrow> nat \<Rightarrow> int \<Rightarrow> best option \<Rightarrow> best option" where
  "scan_best us align prev cur avail best =
     (let (aligned, delta) = scan_align cur align
      in if avail \<ge> us + delta \<and>
            (case best of None \<Rightarrow> True | Some b \<Rightarrow> avail - (us + delta) < best_diff b)
         then Some \<lparr>best_prev = prev, best_cur = cur, best_aligned = aligned,
                    best_delta = delta, best_diff = s16 (avail - (us + delta))\<rparr>
         else best)"

partial_function (option) slob_page_scan ::
  "bmem \<Rightarrow> int \<Rightarrow> int \<Rightarrow> nat option \<Rightarrow> nat \<Rightarrow> best option \<Rightarrow> best option option" where
  "slob_page_scan m us align prev cur best =
     (let avail = slob_units m cur;
          best = scan_best us align prev cur avail best
      in if slob_last m cur then Some best
         else slob_page_scan m us align (Some cur) (slob_next m cur) best)"

text \<open>Fragment the head of the chosen block when the request needs alignment.\<close>

definition slob_page_fragment :: "bmem \<Rightarrow> best \<Rightarrow> bmem \<times> nat option \<times> nat \<times> int" where
  "slob_page_fragment m b =
     (let avail = slob_units m (best_cur b)
      in case (best_delta b \<noteq> 0, best_aligned b) of
           (True, Some aligned) \<Rightarrow>
             (let next = slob_next m (best_cur b);
                  m = set_slob m aligned (avail - best_delta b) next;
                  m = set_slob m (best_cur b) (best_delta b) aligned
              in (m, Some (best_cur b), aligned, slob_units m aligned))
         | _ \<Rightarrow> (m, best_prev b, best_cur b, avail))"

text \<open>Unlink the block \<open>cur\<close> (exact fit) or cut the request off its front, and account for it.\<close>

definition slob_page_take ::
  "'z slob_st_scheme \<Rightarrow> nat \<Rightarrow> int \<Rightarrow> bmem \<times> nat option \<times> nat \<times> int \<Rightarrow> nat \<times> 'z slob_st_scheme" where
  "slob_page_take st sp us = (\<lambda>(m, prev, cur, avail).
     (let next = slob_next m cur;
          st = (if avail = us
                then (case prev of
                        Some p \<Rightarrow> st\<lparr>mem := set_slob m p (slob_units m p) next\<rparr>
                      | None \<Rightarrow> upd_page (st\<lparr>mem := m\<rparr>) sp (\<lambda>p. p\<lparr>free := next\<rparr>))
                else let rest = cur + nat us;
                         st = (case prev of
                                 Some p \<Rightarrow> st\<lparr>mem := set_slob m p (slob_units m p) rest\<rparr>
                               | None \<Rightarrow> upd_page (st\<lparr>mem := m\<rparr>) sp (\<lambda>p. p\<lparr>free := rest\<rparr>))
                     in st\<lparr>mem := set_slob (mem st) rest (avail - us) next\<rparr>);
          st = upd_page st sp (\<lambda>p. p\<lparr>units := s16 (units p - us)\<rparr>);
          st = (if units (pages st sp) = 0 then clear_slob_page_free st sp else st)
      in (cur, st)))"

definition slob_page_carve ::
  "'z slob_st_scheme \<Rightarrow> nat \<Rightarrow> int \<Rightarrow> best \<Rightarrow> nat \<times> 'z slob_st_scheme" where
  "slob_page_carve st sp us b = slob_page_take st sp us (slob_page_fragment (mem st) b)"

definition slob_page_alloc ::
  "'z slob_st_scheme \<Rightarrow> nat \<Rightarrow> nat \<Rightarrow> int \<Rightarrow> (nat option \<times> 'z slob_st_scheme) option" where
  "slob_page_alloc st sp sz align =
     (let us = s32 (int (SLOB_UNITS sz))
      in case slob_page_scan (mem st) us align None (free (pages st sp)) None of
           None \<Rightarrow> None
         | Some None \<Rightarrow> Some (None, st)
         | Some (Some b) \<Rightarrow> (case slob_page_carve st sp us b of (p, st') \<Rightarrow> Some (Some p, st')))"

section \<open>Reading back what \<open>set_slob\<close> wrote\<close>

lemma page_offset:
  fixes B s :: nat
  assumes "B mod 2048 = 0" "B \<le> s"
  obtains k where "B = 2048 * k" and "2 * s = 4096 * k + 2 * (s - B)"
proof -
  from assms(1) obtain k where k: "B = 2048 * k" by (auto elim: dvdE simp: mod_0_imp_dvd)
  moreover have "2 * s = 4096 * k + 2 * (s - B)" using k assms(2) by simp
  ultimately show thesis by (rule that)
qed

lemma slob_base_in:
  assumes "B mod 2048 = 0" "B \<le> s" "s < B + 2048"
  shows "slob_base s = B"
proof -
  obtain k where k: "B = 2048 * k" "2 * s = 4096 * k + 2 * (s - B)"
    using page_offset [OF assms(1,2)] by blast
  have "(2 * s) mod 4096 = 2 * (s - B)" using k(2) assms by simp
  then show ?thesis using k by (simp add: slob_base_def page_mask_def PAGE_SIZE_def)
qed

lemma slob_last_iff:
  assumes "B mod 2048 = 0" and "B < slob_next m s" and "slob_next m s \<le> B + 2048"
  shows "slob_last m s \<longleftrightarrow> slob_next m s = B + 2048"
proof -
  let ?n = "slob_next m s"
  obtain k where k: "B = 2048 * k" "2 * ?n = 4096 * k + 2 * (?n - B)"
    using page_offset [of B ?n] assms by auto
  have "(2 * ?n) mod 4096 = (2 * (?n - B)) mod 4096" using k(2) by simp
  also have "\<dots> = 0 \<longleftrightarrow> ?n = B + 2048"
  proof (cases "?n = B + 2048")
    case False
    then have "2 * (?n - B) < 4096" "0 < 2 * (?n - B)" using assms by auto
    then show ?thesis using False by simp
  qed simp
  finally show ?thesis by (simp add: slob_last_def page_off_def PAGE_SIZE_def)
qed

text \<open>\<open>block_at m s n nx\<close>: the units from \<open>s\<close> encode a free block of \<open>n\<close> units followed by \<open>nx\<close>.\<close>

definition block_at :: "bmem \<Rightarrow> nat \<Rightarrow> nat \<Rightarrow> nat \<Rightarrow> bool" where
  "block_at m s n nx \<longleftrightarrow>
     (if n = 1 then rd16 m s = - (int nx - int (slob_base s)) \<and> slob_base s < nx
      else rd16 m s = int n \<and> rd16 m (s + 1) = int nx - int (slob_base s) \<and> slob_base s < nx)"

lemma block_at_units: "block_at m s n nx \<Longrightarrow> 1 \<le> n \<Longrightarrow> slob_units m s = int n"
  by (auto simp: block_at_def slob_units_def split: if_splits)

lemma block_at_next:
  "block_at m s n nx \<Longrightarrow> 1 \<le> n \<Longrightarrow> nx \<le> slob_base s + 2048 \<Longrightarrow> slob_next m s = nx"
  by (auto simp: block_at_def slob_next_def Let_def s16_id split: if_splits)

lemma block_at_set_slob:
  assumes "1 \<le> n" "n \<le> 2048" "slob_base s < nx" "nx \<le> slob_base s + 2048"
  shows "block_at (set_slob m s (int n) nx) s n nx"
  using assms by (auto simp: block_at_def set_slob_def Let_def s16_id)

lemma set_slob_frame:
  assumes "1 \<le> n" "n \<le> 2048" "x div 2 \<notin> {s..<s + n}"
  shows "set_slob m s (int n) nx x = m x"
proof (cases "n = 1")
  case True
  with assms show ?thesis by (simp add: set_slob_def Let_def s16_id wr16_frame)
next
  case False
  with assms have "x div 2 \<noteq> s" "x div 2 \<noteq> s + 1" by auto
  with assms False show ?thesis by (simp add: set_slob_def Let_def s16_id wr16_frame)
qed

lemma block_at_cong:
  assumes "block_at m s n nx" "1 \<le> n" "\<And>x. x div 2 \<in> {s..<s + n} \<Longrightarrow> m' x = m x"
  shows "block_at m' s n nx"
proof -
  have "rd16 m' s = rd16 m s"
    using assms(2) assms(3) [of "2 * s"] assms(3) [of "2 * s + 1"] by (intro rd16_cong) simp_all
  moreover have "rd16 m' (s + 1) = rd16 m (s + 1)" if "n \<noteq> 1"
    using assms(2) that assms(3) [of "2 * (s + 1)"] assms(3) [of "2 * (s + 1) + 1"]
    by (intro rd16_cong) simp_all
  ultimately show ?thesis using assms(1) by (auto simp: block_at_def)
qed

section \<open>The free list of a page\<close>

text \<open>
  \<open>seg m t q bs\<close>: the blocks \<open>bs\<close> are chained in address order without adjacent blocks, the last one
  links to \<open>t\<close> and ends at or below \<open>t\<close>, strictly below it if \<open>q\<close>.
\<close>

type_synonym blocks = "(nat \<times> nat) list"

definition start :: "nat \<Rightarrow> blocks \<Rightarrow> nat" where
  "start e bs = (case bs of [] \<Rightarrow> e | b # _ \<Rightarrow> fst b)"

fun seg :: "bmem \<Rightarrow> nat \<Rightarrow> bool \<Rightarrow> blocks \<Rightarrow> bool" where
  "seg m t q [] = True"
| "seg m t q ((b, n) # bs) =
     (1 \<le> n \<and> b + n \<le> t \<and> (q \<or> bs \<noteq> [] \<longrightarrow> b + n < start t bs) \<and>
      block_at m b n (start t bs) \<and> seg m t q bs)"

abbreviation fl :: "bmem \<Rightarrow> nat \<Rightarrow> blocks \<Rightarrow> bool" where
  "fl m e bs \<equiv> seg m e False bs"

definition units_of :: "blocks \<Rightarrow> nat set" where
  "units_of bs = (\<Union>(b, n) \<in> set bs. {b..<b + n})"

definition sum_units :: "blocks \<Rightarrow> nat" where
  "sum_units bs = sum_list (map snd bs)"

lemma start_simps [simp]: "start e [] = e" "start e ((b, n) # bs) = b"
  by (simp_all add: start_def)

lemma start_append: "start e (bs @ cs) = start (start e cs) bs"
  by (cases bs) (auto simp: start_def)

lemma units_of_simps [simp]:
  "units_of [] = {}" "units_of ((b, n) # bs) = {b..<b + n} \<union> units_of bs"
  "units_of (bs @ cs) = units_of bs \<union> units_of cs"
  by (auto simp: units_of_def)

lemma sum_units_simps [simp]:
  "sum_units [] = 0" "sum_units ((b, n) # bs) = n + sum_units bs" "sum_units (bs @ cs) = sum_units bs + sum_units cs"
  by (simp_all add: sum_units_def)

lemma seg_bounds: "seg m t q bs \<Longrightarrow> (b, n) \<in> set bs \<Longrightarrow> 1 \<le> n \<and> start t bs \<le> b \<and> b + n \<le> t"
proof (induction bs)
  case (Cons c bs)
  obtain c1 k where c: "c = (c1, k)" by (cases c)
  show ?case
  proof (cases "(b, n) = c")
    case True
    with Cons.prems c show ?thesis by simp
  next
    case False
    with Cons c have "1 \<le> n \<and> start t bs \<le> b \<and> b + n \<le> t" "bs \<noteq> []" by auto
    with Cons.prems c show ?thesis by auto
  qed
qed simp

lemma seg_start_le: "seg m t q bs \<Longrightarrow> start t bs \<le> t"
  by (cases bs) auto

lemma seg_units: "seg m t q bs \<Longrightarrow> x \<in> units_of bs \<Longrightarrow> start t bs \<le> x \<and> x < t"
  unfolding units_of_def using seg_bounds by fastforce

lemma seg_cong:
  assumes "seg m t q bs" "\<And>x. x div 2 \<in> units_of bs \<Longrightarrow> m' x = m x"
  shows "seg m' t q bs"
  using assms
proof (induction bs)
  case (Cons c bs)
  obtain c1 k where c: "c = (c1, k)" by (cases c)
  have "block_at m c1 k (start t bs)" "1 \<le> k" using Cons.prems(1) c by simp_all
  then have "block_at m' c1 k (start t bs)"
    by (rule block_at_cong) (rule Cons.prems(2), simp add: c)
  moreover have "seg m' t q bs"
    by (rule Cons.IH) (use Cons.prems(1) c in simp, rule Cons.prems(2), simp add: c)
  ultimately show ?case using Cons.prems(1) c by simp
qed simp

lemma seg_append:
  "cs \<noteq> [] \<Longrightarrow> seg m t q (bs @ cs) \<longleftrightarrow> seg m (start t cs) True bs \<and> seg m t q cs"
proof (induction bs)
  case (Cons b bs)
  obtain b1 n where b: "b = (b1, n)" by (cases b)
  have "start t cs \<le> t" if "seg m t q cs" using seg_start_le [OF that] .
  moreover have "b1 + n \<le> start t cs" if "seg m (start t cs) True bs" "b1 + n < start (start t cs) bs"
    using seg_start_le [OF that(1)] that(2) by simp
  ultimately show ?case using Cons b by (auto simp: start_append)
qed simp

lemma seg_weaken: "seg m t q bs \<Longrightarrow> seg m t False bs"
  by (induction bs) auto

lemma seg_relink:
  assumes s: "seg m t q (bs @ [(p, k)])" and k: "k \<le> 2048"
    and t': "slob_base p < t'" "t' \<le> slob_base p + 2048" "p + k \<le> t'" "q' \<longrightarrow> p + k < t'"
  shows "seg (set_slob m p (int k) t') t' q' (bs @ [(p, k)])"
proof -
  let ?m = "set_slob m p (int k) t'"
  have s1: "seg m p True bs" "1 \<le> k" using s seg_append [of "[(p, k)]" m t q bs] by auto
  have "seg ?m p True bs"
  proof (rule seg_cong [OF s1(1)])
    fix x assume "x div 2 \<in> units_of bs"
    with seg_units [OF s1(1)] have "x div 2 < p" by blast
    then show "?m x = m x" using s1(2) k by (intro set_slob_frame) auto
  qed
  moreover have "block_at ?m p k t'" using s1 k t' by (intro block_at_set_slob) auto
  ultimately show ?thesis using s1(2) t' seg_append [of "[(p, k)]" ?m t' q' bs] by auto
qed

lemma seg_cons:
  assumes f: "seg m t q bs" and n: "1 \<le> n" "n \<le> 2048" "b + n \<le> t" "q \<or> bs \<noteq> [] \<longrightarrow> b + n < start t bs"
    and B: "slob_base b < start t bs" "start t bs \<le> slob_base b + 2048"
  shows "seg (set_slob m b (int n) (start t bs)) t q ((b, n) # bs)"
proof -
  let ?m = "set_slob m b (int n) (start t bs)"
  have "seg ?m t q bs"
  proof (rule seg_cong [OF f])
    fix x assume x: "x div 2 \<in> units_of bs"
    then have "bs \<noteq> []" by auto
    with x n seg_units [OF f x] have "b + n \<le> x div 2" by auto
    then show "?m x = m x" using n by (intro set_slob_frame) auto
  qed
  moreover have "block_at ?m b n (start t bs)" by (rule block_at_set_slob) (use n B in auto)
  ultimately show ?thesis using n by simp
qed

text \<open>The free list \<open>bs\<close> of the page whose first unit is \<open>B\<close>.\<close>

definition page_fl :: "bmem \<Rightarrow> nat \<Rightarrow> blocks \<Rightarrow> bool" where
  "page_fl m B bs \<longleftrightarrow> B mod 2048 = 0 \<and> B \<le> start (B + 2048) bs \<and> fl m (B + 2048) bs"

lemma page_fl_block:
  assumes "page_fl m B bs" "(b, n) \<in> set bs"
  shows "1 \<le> n" "n \<le> 2048" "B \<le> b" "b + n \<le> B + 2048" "slob_base b = B"
proof -
  have "1 \<le> n \<and> start (B + 2048) bs \<le> b \<and> b + n \<le> B + 2048"
    using assms seg_bounds unfolding page_fl_def by blast
  then show "1 \<le> n" "n \<le> 2048" "B \<le> b" "b + n \<le> B + 2048" "slob_base b = B"
    using assms(1) slob_base_in [of B b] unfolding page_fl_def by auto
qed

lemma page_fl_read:
  assumes f: "page_fl m B (xs @ (b, n) # ys)"
  shows "slob_units m b = int n" "slob_next m b = start (B + 2048) ys"
    "B < slob_next m b" "slob_last m b \<longleftrightarrow> ys = []"
proof -
  let ?nx = "start (B + 2048) ys"
  have b: "1 \<le> n" "B \<le> b" "slob_base b = B" using page_fl_block [OF f, of b n] by auto
  have s: "seg m (B + 2048) False ((b, n) # ys)"
    using f seg_append [of "(b, n) # ys" m "B + 2048" False xs] by (simp add: page_fl_def)
  then have at: "block_at m b n ?nx" and le: "?nx \<le> B + 2048" by (auto intro: seg_start_le)
  show u: "slob_units m b = int n" by (rule block_at_units [OF at b(1)])
  show nx: "slob_next m b = ?nx" using block_at_next [OF at b(1)] le b by simp
  show lt: "B < slob_next m b" using nx s b by (cases ys) auto
  have "B mod 2048 = 0" using f by (simp add: page_fl_def)
  then have "slob_last m b \<longleftrightarrow> ?nx = B + 2048" using slob_last_iff [of B m b] nx lt le by simp
  also have "\<dots> \<longleftrightarrow> ys = []"
  proof (cases ys)
    case (Cons d zs)
    then have "1 \<le> snd d" "fst d + snd d \<le> B + 2048" using s by (cases d; simp)+
    then show ?thesis using Cons by (simp add: start_def)
  qed simp
  finally show "slob_last m b \<longleftrightarrow> ys = []" .
qed

section \<open>The scan takes the best fit\<close>

fun best_of :: "int \<Rightarrow> int \<Rightarrow> nat option \<Rightarrow> blocks \<Rightarrow> best option \<Rightarrow> best option" where
  "best_of us align prev [] best = best"
| "best_of us align prev ((b, n) # bs) best =
     best_of us align (Some b) bs (scan_best us align prev b (int n) best)"

lemma slob_page_scan_eq:
  "page_fl m B (xs @ bs) \<Longrightarrow> bs \<noteq> [] \<Longrightarrow>
   slob_page_scan m us align prev (start (B + 2048) bs) best = Some (best_of us align prev bs best)"
proof (induction bs arbitrary: xs prev best)
  case (Cons c bs)
  obtain b n where c: "c = (b, n)" by (cases c)
  note r = page_fl_read [of m B xs b n bs]
  show ?case
  proof (cases "bs = []")
    case True
    then show ?thesis using Cons.prems c r
      by (subst slob_page_scan.simps) (simp add: Let_def)
  next
    case False
    have "slob_page_scan m us align (Some b) (start (B + 2048) bs)
       (scan_best us align prev b (int n) best) =
       Some (best_of us align (Some b) bs (scan_best us align prev b (int n) best))"
      by (rule Cons.IH [of "xs @ [c]"]) (use Cons.prems False in auto)
    then show ?thesis using Cons.prems c r False
      by (subst slob_page_scan.simps) (simp add: Let_def)
  qed
qed simp

text \<open>The slack a block would leave, and the record the scan keeps for it.\<close>

definition adelta :: "int \<Rightarrow> nat \<Rightarrow> int" where
  "adelta align cur = snd (scan_align cur align)"

definition slack :: "int \<Rightarrow> int \<Rightarrow> nat \<times> nat \<Rightarrow> int" where
  "slack us align b = int (snd b) - (us + adelta align (fst b))"

definition fits :: "int \<Rightarrow> int \<Rightarrow> nat \<times> nat \<Rightarrow> bool" where
  "fits us align b \<longleftrightarrow> 0 \<le> slack us align b"

definition mk_best :: "int \<Rightarrow> int \<Rightarrow> nat option \<Rightarrow> nat \<times> nat \<Rightarrow> best" where
  "mk_best us align prev b =
     \<lparr>best_prev = prev, best_cur = fst b, best_aligned = fst (scan_align (fst b) align),
      best_delta = adelta align (fst b), best_diff = s16 (slack us align b)\<rparr>"

definition prev_of :: "nat option \<Rightarrow> blocks \<Rightarrow> nat option" where
  "prev_of prev xs = (if xs = [] then prev else Some (fst (last xs)))"

lemma scan_best_eq:
  "scan_best us align prev b (int n) best =
     (if fits us align (b, n) \<and> (case best of None \<Rightarrow> True | Some r \<Rightarrow> slack us align (b, n) < best_diff r)
      then Some (mk_best us align prev (b, n)) else best)"
  by (cases "scan_align b align")
    (auto simp: scan_best_def fits_def slack_def mk_best_def adelta_def split: option.splits)

lemma best_of_None_iff:
  "best_of us align prev bs best = None \<longleftrightarrow> best = None \<and> (\<forall>b \<in> set bs. \<not> fits us align b)"
  by (induction bs arbitrary: prev best) (auto simp: scan_best_eq split: option.splits if_splits)

lemma best_of_chosen:
  "best_of us align prev bs best = Some r \<Longrightarrow>
   best = Some r \<or> (\<exists>xs b ys. bs = xs @ b # ys \<and> fits us align b \<and> r = mk_best us align (prev_of prev xs) b)"
proof (induction bs arbitrary: prev best)
  case (Cons c bs)
  obtain b n where c: "c = (b, n)" by (cases c)
  let ?best = "scan_best us align prev b (int n) best"
  from Cons.prems c have "best_of us align (Some b) bs ?best = Some r" by simp
  from Cons.IH [OF this] consider "?best = Some r"
    | xs d ys where "bs = xs @ d # ys" "fits us align d" "r = mk_best us align (prev_of (Some b) xs) d"
    by blast
  then show ?case
  proof cases
    case 1
    then show ?thesis using c
      by (auto simp: scan_best_eq prev_of_def split: if_splits intro: exI [of _ "[]"])
  next
    case 2
    have "prev_of (Some b) xs = prev_of prev (c # xs)" by (simp add: prev_of_def c)
    with 2 show ?thesis by (metis append_Cons)
  qed
qed simp

lemma best_of_min:
  assumes "best_of us align prev bs best = Some r"
    and "\<And>b. b \<in> set bs \<Longrightarrow> slack us align b < 32768"
  shows "(\<forall>b \<in> set bs. fits us align b \<longrightarrow> best_diff r \<le> slack us align b) \<and>
     (\<forall>r0. best = Some r0 \<longrightarrow> best_diff r \<le> best_diff r0)"
  using assms
proof (induction bs arbitrary: prev best)
  case (Cons c bs)
  obtain b n where c: "c = (b, n)" by (cases c)
  let ?best = "scan_best us align prev b (int n) best"
  from Cons c have IH: "\<forall>b \<in> set bs. fits us align b \<longrightarrow> best_diff r \<le> slack us align b"
    "\<forall>r0. ?best = Some r0 \<longrightarrow> best_diff r \<le> best_diff r0"
    by auto
  have sl: "fits us align (b, n) \<Longrightarrow> s16 (slack us align (b, n)) = slack us align (b, n)"
    using Cons.prems(2) [of c] c by (intro s16_id) (auto simp: fits_def)
  have "fits us align c \<longrightarrow> best_diff r \<le> slack us align c"
    and "\<forall>r0. best = Some r0 \<longrightarrow> best_diff r \<le> best_diff r0"
    using IH(2) sl c
    by (auto simp: scan_best_eq mk_best_def not_less split: if_splits option.splits)
  with IH(1) show ?case by simp
qed simp

section \<open>Alignment\<close>

definition valid_align :: "int \<Rightarrow> bool" where
  "valid_align al \<longleftrightarrow> al = 0 \<or> (\<exists>k \<le> 12. al = 2 ^ k)"

lemma and_not_mask: "(a::int) AND NOT (2 ^ k - 1) = a div 2 ^ k * 2 ^ k"
proof -
  have "a AND NOT (mask k) = push_bit k (drop_bit k a)"
    by (rule bit_eqI) (auto simp: bit_simps)
  then show ?thesis by (simp add: mask_eq_exp_minus_1 push_bit_eq_mult drop_bit_eq_div)
qed

lemma ALIGN_pow2:
  assumes "k \<le> 12" "x + 4096 \<le> 2 ^ 32"
  shows "int (ALIGN x (2 ^ k)) = (int x + (2 ^ k - 1)) div 2 ^ k * 2 ^ k"
proof -
  have k: "(2::int) ^ k \<le> 4096" using assms(1) power_increasing [of k 12 "2::int"] by simp
  have "u32 (2 ^ k - 1) = 2 ^ k - 1" using k by (intro u32_id) auto
  moreover have "u32 (int x + (2 ^ k - 1)) = int x + (2 ^ k - 1)"
    using k assms(2) by (intro u32_id) auto
  ultimately show ?thesis by (simp add: ALIGN_def and_not_mask pos_imp_zdiv_nonneg_iff)
qed

lemma scan_align_props:
  assumes al: "valid_align al" and cur: "cur + 4096 \<le> 2 ^ 31"
  shows "0 \<le> adelta al cur" "adelta al cur < 2048"
    "al \<noteq> 0 \<Longrightarrow> fst (scan_align cur al) = Some (cur + nat (adelta al cur))"
    "al \<noteq> 0 \<Longrightarrow> 2 * (int cur + adelta al cur) mod al = 0"
proof -
  consider "al = 0" | k where "k \<le> 12" "al = 2 ^ k" using al by (auto simp: valid_align_def)
  then have "0 \<le> adelta al cur \<and> adelta al cur < 2048 \<and>
    (al \<noteq> 0 \<longrightarrow> fst (scan_align cur al) = Some (cur + nat (adelta al cur)) \<and>
      2 * (int cur + adelta al cur) mod al = 0)"
  proof cases
    case 1
    then show ?thesis by (simp add: adelta_def scan_align_def)
  next
    case 2
    define A where "A = ALIGN (2 * cur) al"
    have A: "int A = (2 * int cur + (al - 1)) div al * al"
      using ALIGN_pow2 [of k "2 * cur"] 2 cur by (simp add: A_def)
    have pos: "0 < al" "al \<le> 4096"
      using 2 power_increasing [of k 12 "2::int"] by simp_all
    have lo: "2 * int cur \<le> int A" and hi: "int A \<le> 2 * int cur + (al - 1)"
    proof -
      have "(2 * int cur + (al - 1)) mod al + int A = 2 * int cur + (al - 1)"
        using A by (metis mod_div_mult_eq)
      moreover have "0 \<le> (2 * int cur + (al - 1)) mod al" "(2 * int cur + (al - 1)) mod al < al"
        using pos by simp_all
      ultimately show "2 * int cur \<le> int A" "int A \<le> 2 * int cur + (al - 1)" by linarith+
    qed
    have ev: "2 * (A div 2) = A \<or> (A = 2 * cur)"
    proof (cases "k = 0")
      case True
      with 2 A show ?thesis by simp
    next
      case False
      then have "even al" using 2 by simp
      then have "even (int A)" using A by simp
      then show ?thesis by simp
    qed
    then have "2 * (A div 2) = A" by auto
    then have ev: "int A = 2 * int (A div 2)" by (metis of_nat_mult of_nat_numeral)
    have d: "s32 (int (A div 2) - int cur) = int (A div 2) - int cur"
      using lo hi ev pos by (intro s32_id) linarith+
    have del: "adelta al cur = int (A div 2) - int cur"
      using pos d by (simp add: adelta_def scan_align_def A_def Let_def)
    have "2 * (int cur + adelta al cur) = int A" using del ev by simp
    moreover have "int A mod al = 0" using A by simp
    ultimately show ?thesis using del lo hi ev pos
      by (simp add: scan_align_def Let_def A_def [symmetric])
  qed
  then show "0 \<le> adelta al cur" "adelta al cur < 2048"
    "al \<noteq> 0 \<Longrightarrow> fst (scan_align cur al) = Some (cur + nat (adelta al cur))"
    "al \<noteq> 0 \<Longrightarrow> 2 * (int cur + adelta al cur) mod al = 0"
    by blast+
qed

section \<open>What an allocation does to the page\<close>

text \<open>The memory and the list head after \<open>slob_page_take\<close>, separated from the bookkeeping.\<close>

definition take_mem :: "bmem \<Rightarrow> nat option \<Rightarrow> nat \<Rightarrow> int \<Rightarrow> int \<Rightarrow> bmem" where
  "take_mem m prev cur avail us =
     (let target = (if avail = us then slob_next m cur else cur + nat us);
          m1 = (case prev of Some p \<Rightarrow> set_slob m p (slob_units m p) target | None \<Rightarrow> m)
      in if avail = us then m1 else set_slob m1 target (avail - us) (slob_next m cur))"

lemma slob_page_take_fields:
  assumes "slob_page_take st sp us (m, prev, cur, avail) = (p, st')"
  shows "p = cur" "mem st' = take_mem m prev cur avail us"
    "free (pages st' sp) = (case prev of
        Some _ \<Rightarrow> free (pages st sp)
      | None \<Rightarrow> if avail = us then slob_next m cur else cur + nat us)"
    "units (pages st' sp) = s16 (units (pages st sp) - us)"
    "PageSlab (pages st' sp) = PageSlab (pages st sp)"
    "PageSlobFree (pages st' sp) = (units (pages st' sp) \<noteq> 0 \<and> PageSlobFree (pages st sp))"
    "x \<noteq> sp \<Longrightarrow> pages st' x = pages st x"
    "lists st' = (if units (pages st' sp) = 0 then list_del (lists st) (Node (page_list sp)) else lists st)"
    "slob_st.more st' = slob_st.more st"
  using assms
  by (auto simp: slob_page_take_def take_mem_def Let_def upd_page_def clear_slob_page_free_def
      split: option.splits if_splits)

lemma take_mem_spec:
  assumes pre: "seg m c q pre" and preB: "\<forall>(b, k) \<in> set pre. slob_base b = B \<and> k \<le> 2048"
    and cur: "fl m (B + 2048) ((c, n) # ys)" and B: "B mod 2048 = 0" "B \<le> c"
    and u: "1 \<le> u" "u \<le> n"
    and zs: "zs = (if u < n then [(c + u, n - u)] else []) @ ys"
  defines "m' \<equiv> take_mem m (prev_of None pre) c (int n) (int u)"
  shows "fl m' (B + 2048) (pre @ zs)"
    and "x div 2 \<notin> units_of pre \<union> {c..<c + n} \<Longrightarrow> m' x = m x"
    and "start (B + 2048) zs = (if int n = int u then slob_next m c else c + u)"
proof -
  let ?e = "B + 2048"
  have n: "1 \<le> n" "c + n \<le> ?e" "ys \<noteq> [] \<longrightarrow> c + n < start ?e ys" "fl m ?e ys"
    using cur by auto
  have pf: "page_fl m B ((c, n) # ys)" using cur B by (simp add: page_fl_def)
  have nx: "slob_next m c = start ?e ys" using page_fl_read(2) [of m B "[]"] pf by simp
  have base: "slob_base x = B" if "B \<le> x" "x < ?e" for x using slob_base_in [OF B(1)] that by blast
  have endys: "c + n \<le> start ?e ys" "start ?e ys \<le> ?e"
    using n seg_start_le [OF n(4)] by (cases ys; auto)+
  show st: "start ?e zs = (if int n = int u then slob_next m c else c + u)"
    using u nx by (auto simp: zs)
  define t where "t = start ?e zs"
  have t: "c < t" "t \<le> ?e" "t \<noteq> c"
    using u n endys by (auto simp: t_def zs)
  \<comment> \<open>relink the predecessor\<close>
  define m1 where "m1 = (case prev_of None pre of Some p \<Rightarrow> set_slob m p (slob_units m p) t | None \<Rightarrow> m)"
  have m1: "seg m1 t True pre" "\<And>x. x div 2 \<notin> units_of pre \<Longrightarrow> m1 x = m x"
  proof -
    have "seg m1 t True pre \<and> (\<forall>x. x div 2 \<notin> units_of pre \<longrightarrow> m1 x = m x)"
    proof (cases pre rule: rev_cases)
      case Nil
      then show ?thesis by (simp add: m1_def prev_of_def)
    next
      case (snoc xs b)
      obtain p k where b: "b = (p, k)" by (cases b)
      have s: "seg m c q (xs @ [(p, k)])" using pre snoc b by simp
      have pk: "1 \<le> k" "p + k \<le> c" "block_at m p k c"
        using s seg_append [of "[(p, k)]" m c q xs] by auto
      have bp: "slob_base p = B" "k \<le> 2048" using preB snoc b by auto
      have mm: "m1 = set_slob m p (int k) t"
        using snoc b block_at_units [OF pk(3,1)] by (simp add: m1_def prev_of_def)
      have "seg m1 t True (xs @ [(p, k)])"
        unfolding mm by (rule seg_relink [OF s]) (use pk bp t B in auto)
      moreover have "\<forall>x. x div 2 \<notin> units_of pre \<longrightarrow> m1 x = m x"
        unfolding mm using set_slob_frame [OF pk(1) bp(2)] snoc b by auto
      ultimately show ?thesis using snoc b by simp
    qed
    then show "seg m1 t True pre" "\<And>x. x div 2 \<notin> units_of pre \<Longrightarrow> m1 x = m x" by blast+
  qed
  have pre_lt: "y < c" if "y \<in> units_of pre" for y using seg_units [OF pre that] by simp
  have ys1: "fl m1 ?e ys"
    by (rule seg_cong [OF n(4)]) (use m1(2) pre_lt seg_units [OF n(4)] endys in force)
  \<comment> \<open>write the remainder\<close>
  have m': "m' = (if u < n then set_slob m1 (c + u) (int (n - u)) (start ?e ys) else m1)"
  proof (cases "u < n")
    case True
    then have "t = c + u" using st by (simp add: t_def)
    then show ?thesis using True u nx
      by (simp add: m'_def take_mem_def Let_def m1_def of_nat_diff split: option.splits)
  next
    case False
    then have "t = slob_next m c" using st u by (simp add: t_def)
    then show ?thesis using False u nx
      by (simp add: m'_def take_mem_def Let_def m1_def split: option.splits)
  qed
  have zs1: "fl m' ?e zs"
  proof (cases "u < n")
    case True
    have "fl (set_slob m1 (c + u) (int (n - u)) (start ?e ys)) ?e ((c + u, n - u) # ys)"
      by (rule seg_cons [OF ys1]) (use True n B endys base [of "c + u"] in auto)
    with True m' show ?thesis by (simp add: zs)
  next
    case False
    with m' ys1 show ?thesis by (simp add: zs)
  qed
  have frame1: "m' x = m1 x" if "x div 2 \<notin> {c..<c + n}" for x
    using m' that set_slob_frame [of "n - u" x "c + u" m1 "start ?e ys"] n(2) B
    by (auto split: if_splits)
  have pre1: "seg m' t True pre"
    by (rule seg_cong [OF m1(1)]) (use pre_lt frame1 in force)
  show "fl m' ?e (pre @ zs)"
  proof (cases "zs = []")
    case True
    with pre1 t_def show ?thesis by (auto intro: seg_weaken)
  next
    case False
    with pre1 zs1 t_def show ?thesis by (simp add: seg_append)
  qed
  show "m' x = m x" if "x div 2 \<notin> units_of pre \<union> {c..<c + n}"
    using that frame1 m1(2) by simp
qed

lemma slob_page_fragment_spec:
  assumes f: "page_fl m B (xs @ (c, n) # ys)" and top: "B + 6144 \<le> 2 ^ 31" and al: "valid_align al"
    and d: "int d = adelta al c" "d < n"
    and pre: "pre = xs @ (if 0 < d then [(c, d)] else [])"
  obtains m2 where
    "slob_page_fragment m (mk_best us al (prev_of None xs) (c, n)) =
       (m2, prev_of None pre, c + d, int (n - d))"
    "seg m2 (c + d) False pre" "fl m2 (B + 2048) ((c + d, n - d) # ys)"
    "\<And>x. x div 2 \<notin> {c..<c + n} \<Longrightarrow> m2 x = m x"
proof -
  let ?e = "B + 2048"
  have B: "B mod 2048 = 0" using f by (simp add: page_fl_def)
  have c: "1 \<le> n" "B \<le> c" "c + n \<le> ?e" "n \<le> 2048" using page_fl_block [OF f, of c n] by auto
  have base: "slob_base x = B" if "B \<le> x" "x < ?e" for x using slob_base_in [OF B] that by blast
  note rd = page_fl_read [OF f]
  have sx: "seg m c True xs" and sc: "fl m ?e ((c, n) # ys)"
    using f seg_append [of "(c, n) # ys" m ?e False xs] by (simp_all add: page_fl_def)
  have xs_lt: "y < c" if "y \<in> units_of xs" for y using seg_units [OF sx that] by simp
  show thesis
  proof (cases "d = 0")
    case True
    have "slob_page_fragment m (mk_best us al (prev_of None xs) (c, n)) = (m, prev_of None pre, c + d, int (n - d))"
      using True d rd(1) pre by (simp add: slob_page_fragment_def mk_best_def)
    moreover have "seg m (c + d) False pre" using True sx pre by (auto intro: seg_weaken)
    ultimately show thesis using that [of m] True sc by simp
  next
    case False
    then have al0: "al \<noteq> 0" using d by (auto simp: adelta_def scan_align_def)
    have a: "fst (scan_align c al) = Some (c + d)"
      using scan_align_props(3) [OF al _ al0, of c] c top by (simp add: d(1) [symmetric])
    define m1 where "m1 = set_slob m (c + d) (int (n - d)) (start ?e ys)"
    define m2 where "m2 = set_slob m1 c (int d) (c + d)"
    have ys: "fl m ?e ys" "c + n \<le> start ?e ys" "start ?e ys \<le> ?e"
      using sc seg_start_le [of m ?e False ys] by (cases ys; auto)+
    have s1: "fl m1 ?e ((c + d, n - d) # ys)"
      unfolding m1_def by (rule seg_cons [OF ys(1)]) (use c d ys sc base [of "c + d"] in auto)
    have s2: "fl m2 ?e ((c + d, n - d) # ys)"
    proof (rule seg_cong [OF s1])
      fix x assume "x div 2 \<in> units_of ((c + d, n - d) # ys)"
      then have "c + d \<le> x div 2" using seg_units [OF s1, of "x div 2"] by simp
      then show "m2 x = m1 x" unfolding m2_def using False c d by (intro set_slob_frame) auto
    qed
    have fr1: "m1 x = m x" if "x div 2 \<notin> {c + d..<c + n}" for x
      unfolding m1_def by (rule set_slob_frame) (use that c d in auto)
    have fr2: "m2 x = m x" if "x div 2 \<notin> {c..<c + n}" for x
    proof -
      have "m2 x = m1 x" unfolding m2_def by (rule set_slob_frame) (use that c d False in auto)
      moreover have "m1 x = m x" by (rule fr1) (use that d in auto)
      ultimately show ?thesis by simp
    qed
    have "seg m2 c True xs"
      by (rule seg_cong [OF sx], rule fr2) (use xs_lt in force)
    moreover have "block_at m2 c d (c + d)"
      unfolding m2_def by (rule block_at_set_slob) (use False c d base [of c] in auto)
    ultimately have s3: "seg m2 (c + d) False (xs @ [(c, d)])"
      using False by (subst seg_append) auto
    have un: "slob_units m2 (c + d) = int (n - d)"
      using page_fl_read(1) [of m2 B "[]" "c + d" "n - d" ys] s2 B c by (simp add: page_fl_def)
    show thesis
    proof (rule that [of m2])
      show "slob_page_fragment m (mk_best us al (prev_of None xs) (c, n)) =
         (m2, prev_of None pre, c + d, int (n - d))"
      proof -
        have "adelta al c = int d" "int (n - d) = int n - int d" using d by simp_all
        then have "slob_page_fragment m (mk_best us al (prev_of None xs) (c, n)) =
           (m2, Some c, c + d, slob_units m2 (c + d))"
          using False a rd(1,2) by (simp add: slob_page_fragment_def mk_best_def Let_def m2_def m1_def)
        then show ?thesis using False pre un by (simp add: prev_of_def)
      qed
      show "seg m2 (c + d) False pre" using s3 False pre by simp
    qed (fact s2, fact fr2)
  qed
qed

section \<open>The page invariant and \<open>slob_page_alloc\<close>\<close>

text \<open>\<open>page_ok st sp bs\<close>: page frame \<open>sp\<close> has the free blocks \<open>bs\<close>, at least one, and counts them right.\<close>

definition page_ok :: "'z slob_st_scheme \<Rightarrow> nat \<Rightarrow> blocks \<Rightarrow> bool" where
  "page_ok st sp bs \<longleftrightarrow> page_fl (mem st) (2048 * sp) bs \<and> bs \<noteq> [] \<and>
     free (pages st sp) = start (2048 * sp + 2048) bs \<and> units (pages st sp) = int (sum_units bs)"

definition carved :: "blocks \<Rightarrow> nat \<Rightarrow> nat \<Rightarrow> nat \<Rightarrow> nat \<Rightarrow> blocks \<Rightarrow> blocks" where
  "carved xs c n d u ys =
     xs @ (if 0 < d then [(c, d)] else []) @ (if d + u < n then [(c + d + u, n - d - u)] else []) @ ys"

lemma units_of_carved:
  assumes "d + u \<le> n"
  shows "units_of (carved xs c n d u ys) = units_of xs \<union> ({c..<c + n} - {c + d..<c + d + u}) \<union> units_of ys"
  using assms by (auto simp: carved_def)

lemma sum_units_carved: "d + u \<le> n \<Longrightarrow> sum_units (carved xs c n d u ys) + u = sum_units (xs @ (c, n) # ys)"
  by (simp add: carved_def)

lemma sum_units_le: "seg m t q bs \<Longrightarrow> sum_units bs \<le> t - start t bs"
proof (induction bs)
  case (Cons b bs)
  obtain c n where b: "b = (c, n)" by (cases b)
  with Cons have "sum_units bs \<le> t - start t bs" "c + n \<le> t" "bs \<noteq> [] \<longrightarrow> c + n < start t bs"
    "start t bs \<le> t" by (auto intro: seg_start_le)
  then show ?case using b by (cases bs) auto
qed simp

lemma page_fl_sum: "page_fl m B bs \<Longrightarrow> sum_units bs \<le> 2048"
  using sum_units_le [of m "B + 2048" False bs] by (auto simp: page_fl_def)

lemma sum_units_zero_iff: "seg m t q bs \<Longrightarrow> sum_units bs = 0 \<longleftrightarrow> bs = []"
  by (cases bs) auto

text \<open>What taking units from page \<open>sp\<close> does: its free blocks are now \<open>bs'\<close>, and nothing else moved.\<close>

definition took :: "'z slob_st_scheme \<Rightarrow> 'z slob_st_scheme \<Rightarrow> nat \<Rightarrow> blocks \<Rightarrow> blocks \<Rightarrow> bool" where
  "took st st' sp bs bs' \<longleftrightarrow>
     page_fl (mem st') (2048 * sp) bs' \<and>
     free (pages st' sp) = start (2048 * sp + 2048) bs' \<and>
     units (pages st' sp) = int (sum_units bs') \<and>
     PageSlab (pages st' sp) = PageSlab (pages st sp) \<and>
     PageSlobFree (pages st' sp) = (bs' \<noteq> [] \<and> PageSlobFree (pages st sp)) \<and>
     (\<forall>x. x \<noteq> sp \<longrightarrow> pages st' x = pages st x) \<and>
     lists st' = (if bs' = [] then list_del (lists st) (Node (page_list sp)) else lists st) \<and>
     slob_st.more st' = slob_st.more st \<and>
     (\<forall>x. x div 2 \<notin> units_of bs \<longrightarrow> mem st' x = mem st x)"

lemma slob_page_carve_spec:
  assumes ok: "page_ok st sp (xs @ (c, n) # ys)" and top: "2048 * sp + 6144 \<le> 2 ^ 31"
    and al: "valid_align al" and d: "int d = adelta al c" and u: "1 \<le> u" "d + u \<le> n"
  obtains st' where
    "slob_page_carve st sp (int u) (mk_best us al (prev_of None xs) (c, n)) = (c + d, st')"
    "took st st' sp (xs @ (c, n) # ys) (carved xs c n d u ys)"
proof -
  define B where "B = 2048 * sp"
  let ?bs = "xs @ (c, n) # ys" and ?e = "B + 2048"
  define pre where "pre = xs @ (if 0 < d then [(c, d)] else [])"
  define zs where "zs = (if u < n - d then [(c + d + u, n - d - u)] else []) @ ys"
  have f: "page_fl (mem st) B ?bs" using ok by (simp add: page_ok_def B_def)
  have B: "B mod 2048 = 0" by (simp add: B_def)
  have c: "1 \<le> n" "B \<le> c" "c + n \<le> ?e" "n \<le> 2048" using page_fl_block [OF f, of c n] by auto
  obtain m2 where m2: "slob_page_fragment (mem st) (mk_best us al (prev_of None xs) (c, n)) =
       (m2, prev_of None pre, c + d, int (n - d))"
    "seg m2 (c + d) False pre" "fl m2 ?e ((c + d, n - d) # ys)"
    "\<And>x. x div 2 \<notin> {c..<c + n} \<Longrightarrow> m2 x = mem st x"
    by (rule slob_page_fragment_spec [OF f _ al d _ pre_def]) (use top u B_def in auto)
  have preB: "\<forall>(b, k) \<in> set pre. slob_base b = B \<and> k \<le> 2048"
    using page_fl_block [OF f] u by (fastforce simp: pre_def split: if_splits)
  note T = take_mem_spec [OF m2(2) preB m2(3) B, of u zs]
  have cd: "B \<le> c + d" "1 \<le> u" "u \<le> n - d" "zs = (if u < n - d then [(c + d + u, n - d - u)] else []) @ ys"
    using c u by (auto simp: zs_def)
  obtain p st' where st': "slob_page_take st sp (int u) (m2, prev_of None pre, c + d, int (n - d)) = (p, st')"
    by fastforce
  note F = slob_page_take_fields [OF st']
  have carve: "slob_page_carve st sp (int u) (mk_best us al (prev_of None xs) (c, n)) = (c + d, st')"
    using st' F(1) m2(1) by (simp add: slob_page_carve_def)
  have car: "pre @ zs = carved xs c n d u ys"
    using u by (auto simp: pre_def zs_def carved_def)
  have fl': "fl (mem st') ?e (carved xs c n d u ys)"
    using T(1) [OF cd] F(2) car by simp
  have st_zs: "start ?e zs = (if int (n - d) = int u then slob_next m2 (c + d) else c + d + u)"
    using T(3) [OF cd] by simp
  have free': "free (pages st' sp) = start ?e (carved xs c n d u ys)"
  proof (cases "pre = []")
    case True
    then show ?thesis using F(3) st_zs car by (simp add: prev_of_def)
  next
    case False
    then have "start ?e (pre @ zs) = start ?e ?bs"
      by (cases xs) (auto simp: pre_def start_def split: if_splits)
    with False show ?thesis using F(3) car ok by (simp add: prev_of_def page_ok_def B_def)
  qed
  have "B \<le> start ?e (carved xs c n d u ys)"
  proof (cases xs)
    case Nil
    have "B \<le> start ?e zs" using c u seg_start_le [of m2 ?e False ys] m2(3) 
      by (cases ys) (auto simp: zs_def)
    then show ?thesis unfolding car [symmetric] using Nil c by (auto simp: pre_def)
  next
    case (Cons b bs)
    then show ?thesis using f by (auto simp: carved_def page_fl_def start_def)
  qed
  with fl' B have pf': "page_fl (mem st') B (carved xs c n d u ys)" by (simp add: page_fl_def)
  have tot: "int (sum_units ?bs) - int u = int (sum_units (carved xs c n d u ys))"
    using sum_units_carved [OF u(2), of xs c ys] by simp
  have un': "units (pages st' sp) = int (sum_units (carved xs c n d u ys))"
    using F(4) ok tot page_fl_sum [OF pf'] by (simp add: page_ok_def s16_id)
  have z: "units (pages st' sp) = 0 \<longleftrightarrow> carved xs c n d u ys = []"
    using un' sum_units_zero_iff [OF fl'] by simp
  have flag: "PageSlobFree (pages st' sp) = (carved xs c n d u ys \<noteq> [] \<and> PageSlobFree (pages st sp))"
    using F(6) z by blast
  have frame: "mem st' x = mem st x" if x: "x div 2 \<notin> units_of ?bs" for x
  proof -
    have "x div 2 \<notin> units_of pre \<union> {c + d..<c + d + (n - d)}" and xc: "x div 2 \<notin> {c..<c + n}"
      using x u by (auto simp: pre_def split: if_splits)
    then have "mem st' x = m2 x" using T(2) [OF cd] F(2) by simp
    also have "\<dots> = mem st x" by (rule m2(4) [OF xc])
    finally show ?thesis .
  qed
  have "took st st' sp ?bs (carved xs c n d u ys)"
    unfolding took_def
    using pf' free' un' F(5,8,9) F(7) flag z frame by (simp add: B_def)
  with carve show thesis by (rule that)
qed

theorem slob_page_alloc_none:
  assumes ok: "page_ok st sp bs" and sz: "sz < 2 ^ 32 - 1"
    and none: "\<forall>b \<in> set bs. \<not> fits (int (SLOB_UNITS sz)) al b"
  shows "slob_page_alloc st sp sz al = Some (None, st)"
proof -
  have us: "s32 (int (SLOB_UNITS sz)) = int (SLOB_UNITS sz)"
    using sz by (intro s32_id) (auto simp: SLOB_UNITS_eq)
  have "slob_page_scan (mem st) (int (SLOB_UNITS sz)) al None (free (pages st sp)) None =
     Some (best_of (int (SLOB_UNITS sz)) al None bs None)"
    using slob_page_scan_eq [of "mem st" "2048 * sp" "[]" bs] ok by (simp add: page_ok_def)
  moreover have "best_of (int (SLOB_UNITS sz)) al None bs None = None"
    using none by (simp add: best_of_None_iff)
  ultimately show ?thesis by (simp add: slob_page_alloc_def us)
qed

theorem slob_page_alloc_some:
  assumes ok: "page_ok st sp bs" and top: "2048 * sp + 6144 \<le> 2 ^ 31" and al: "valid_align al"
    and sz: "1 \<le> sz" "sz < 2 ^ 32 - 1"
    and fit: "b0 \<in> set bs" "fits (int (SLOB_UNITS sz)) al b0"
  obtains xs c n ys d st' where "bs = xs @ (c, n) # ys" "int d = adelta al c" "d + SLOB_UNITS sz \<le> n"
    "slob_page_alloc st sp sz al = Some (Some (c + d), st')"
    "\<forall>b \<in> set bs. fits (int (SLOB_UNITS sz)) al b \<longrightarrow>
       slack (int (SLOB_UNITS sz)) al (c, n) \<le> slack (int (SLOB_UNITS sz)) al b"
    "took st st' sp bs (carved xs c n d (SLOB_UNITS sz) ys)"
proof -
  let ?u = "SLOB_UNITS sz"
  have us: "s32 (int ?u) = int ?u" using sz by (intro s32_id) (auto simp: SLOB_UNITS_eq)
  have u1: "1 \<le> ?u" using sz by (simp add: SLOB_UNITS_eq)
  have f: "page_fl (mem st) (2048 * sp) bs" using ok by (simp add: page_ok_def)
  have "best_of (int ?u) al None bs None \<noteq> None" using fit by (auto simp: best_of_None_iff)
  then obtain r where r: "best_of (int ?u) al None bs None = Some r" by blast
  obtain xs b ys where b: "bs = xs @ b # ys" "fits (int ?u) al b" "r = mk_best (int ?u) al (prev_of None xs) b"
    using best_of_chosen [OF r] by blast
  obtain c n where cn: "b = (c, n)" by (cases b)
  have c: "n \<le> 2048" "c + n \<le> 2048 * sp + 2048" using page_fl_block [OF f, of c n] b cn by auto
  have del: "0 \<le> adelta al b'" if "(b', n') \<in> set bs" for b' n'
    using scan_align_props(1) [OF al, of b'] page_fl_block [OF f that] top by simp
  define d where "d = nat (adelta al c)"
  have d: "int d = adelta al c" using del [of c n] b cn by (simp add: d_def)
  have le: "d + ?u \<le> n" using b(2) cn d by (simp add: fits_def slack_def)
  have small: "slack (int ?u) al b' < 32768" if "b' \<in> set bs" for b'
    using page_fl_block(2) [OF f, of "fst b'" "snd b'"] del [of "fst b'" "snd b'"] that
    by (simp add: slack_def)
  have "s16 (slack (int ?u) al (c, n)) = slack (int ?u) al (c, n)"
    using small [of b] b cn by (intro s16_id) (auto simp: fits_def)
  then have min: "\<forall>b' \<in> set bs. fits (int ?u) al b' \<longrightarrow> slack (int ?u) al (c, n) \<le> slack (int ?u) al b'"
    using best_of_min [OF r small] b(3) cn by (simp add: mk_best_def)
  obtain st' where st': "slob_page_carve st sp (int ?u) r = (c + d, st')"
    "took st st' sp bs (carved xs c n d ?u ys)"
    using slob_page_carve_spec [of st sp xs c n ys al d ?u "int ?u"] ok top al d u1 le b cn by metis
  have "slob_page_scan (mem st) (int ?u) al None (free (pages st sp)) None = Some (Some r)"
    using slob_page_scan_eq [of "mem st" "2048 * sp" "[]" bs] ok r by (simp add: page_ok_def)
  then have "slob_page_alloc st sp sz al = Some (Some (c + d), st')"
    by (simp add: slob_page_alloc_def us st')
  with b(1) cn d le min st'(2) show thesis by (intro that) auto
qed

end
