(* ===== verification/Slob_Heap.thy ===== *)
theory Slob_Heap
  imports Slob_Page
begin

text \<open>
  The SLOB allocator proper and its front ends (\<open>project4/slob.c\<close>): the page lists, \<open>slob_alloc\<close> and
  \<open>slob_free\<close>, \<open>kmalloc\<close>/\<open>kfree\<close>/\<open>ksize\<close>, the slab-cache emulation and the two accounting system
  calls the group added. The page allocator, which the source only calls, is a parameter: the record
  \<open>kenv\<close> holds \<open>alloc_pages\<close>, \<open>alloc_pages_exact_node\<close> and \<open>page_to_nid\<close>, and \<open>frames\<close> records what it
  has handed out. Locks, tracing and leak checking have no effect on this state and are left out.
\<close>

section \<open>State and parameters\<close>

type_synonym gfp_t = "32 word"

definition GFP_COMP :: gfp_t where "GFP_COMP = 0x4000"
definition GFP_ZERO :: gfp_t where "GFP_ZERO = 0x8000"
definition GFP_KERNEL :: gfp_t where "GFP_KERNEL = 0xD0"

record kenv =
  CONFIG_NUMA :: bool
  alloc_pages :: "(nat \<rightharpoonup> nat) \<Rightarrow> gfp_t \<Rightarrow> nat \<Rightarrow> nat option"
  alloc_pages_exact_node :: "(nat \<rightharpoonup> nat) \<Rightarrow> int \<Rightarrow> gfp_t \<Rightarrow> nat \<Rightarrow> nat option"
  page_to_nid :: "nat \<Rightarrow> int"

record kmem_cache =
  c_size :: nat
  c_align :: nat
  c_flags :: "32 word"
  c_name :: string
  c_ctor :: "(bmem \<Rightarrow> nat \<Rightarrow> bmem) option"

record slob_sys = slob_st +
  mem_used :: int
  mem_claimed :: int
  frames :: "nat \<rightharpoonup> nat"
  reclaimed_slab :: "int option"
  rcu_queue :: "nat list"
  caches :: "nat \<rightharpoonup> kmem_cache"
  slob_ready :: int

definition SLOB_BREAK1 :: nat where "SLOB_BREAK1 = 256"
definition SLOB_BREAK2 :: nat where "SLOB_BREAK2 = 1024"
definition ARCH_KMALLOC_MINALIGN :: int where "ARCH_KMALLOC_MINALIGN = 4"
definition ARCH_SLAB_MINALIGN :: int where "ARCH_SLAB_MINALIGN = 4"
definition ZERO_SIZE_PTR :: nat where "ZERO_SIZE_PTR = 16"

definition ZERO_OR_NULL_PTR :: "nat \<Rightarrow> bool" where
  "ZERO_OR_NULL_PTR x \<longleftrightarrow> x \<le> ZERO_SIZE_PTR"

text \<open>32-bit accesses and \<open>memset(b, 0, n)\<close> on byte addresses.\<close>

definition rd32 :: "bmem \<Rightarrow> nat \<Rightarrow> nat" where
  "rd32 m a = unat (m a) + 256 * unat (m (a + 1)) + 65536 * unat (m (a + 2)) + 16777216 * unat (m (a + 3))"

definition wr32 :: "bmem \<Rightarrow> nat \<Rightarrow> nat \<Rightarrow> bmem" where
  "wr32 m a v = m(a := of_nat v, a + 1 := of_nat (v div 256), a + 2 := of_nat (v div 65536),
                  a + 3 := of_nat (v div 16777216))"

definition memset0 :: "bmem \<Rightarrow> nat \<Rightarrow> nat \<Rightarrow> bmem" where
  "memset0 m b n = (\<lambda>x. if b \<le> x \<and> x < b + n then 0 else m x)"

section \<open>Pages from the page allocator\<close>

text \<open>\<open>free_slob_page\<close> resets \<open>_mapcount\<close>, which shares its storage with \<open>units\<close>.\<close>

definition free_slob_page :: "'z slob_st_scheme \<Rightarrow> nat \<Rightarrow> 'z slob_st_scheme" where
  "free_slob_page st sp = upd_page st sp (\<lambda>p. p\<lparr>units := -1\<rparr>)"

definition slob_new_pages :: "kenv \<Rightarrow> slob_sys \<Rightarrow> gfp_t \<Rightarrow> nat \<Rightarrow> int \<Rightarrow> nat option \<times> slob_sys" where
  "slob_new_pages env st gfp_mask order node =
     (let page = (if CONFIG_NUMA env \<and> node \<noteq> -1
                  then alloc_pages_exact_node env (frames st) node gfp_mask order
                  else alloc_pages env (frames st) gfp_mask order)
      in case page of
           None \<Rightarrow> (None, st)
         | Some pg \<Rightarrow> (Some (pg * PAGE_SIZE), st\<lparr>frames := (frames st)(pg \<mapsto> order)\<rparr>))"

definition slob_free_pages :: "slob_sys \<Rightarrow> nat \<Rightarrow> nat \<Rightarrow> slob_sys" where
  "slob_free_pages st b order =
     (let st = st\<lparr>reclaimed_slab := map_option (\<lambda>r. r + 2 ^ order) (reclaimed_slab st)\<rparr>
      in st\<lparr>frames := (frames st)(b div PAGE_SIZE := None)\<rparr>)"

section \<open>\<open>slob_alloc\<close>\<close>

definition slob_list_of :: "nat \<Rightarrow> slob_node" where
  "slob_list_of sz =
     (if sz < SLOB_BREAK1 then free_slob_small
      else if sz < SLOB_BREAK2 then free_slob_medium
      else free_slob_large)"

text \<open>Start the next search at the page that had room: move the list head in front of it.\<close>

definition slob_rotate :: "slob_node lheap \<Rightarrow> slob_node \<Rightarrow> slob_node lptr \<Rightarrow> slob_node lheap" where
  "slob_rotate h slob_list prev =
     (if prev \<noteq> prv h (Node slob_list) \<and> nxt h (Node slob_list) \<noteq> nxt h prev
      then list_move_tail h (Node slob_list) (nxt h prev) else h)"

text \<open>The loop over the pages of a list; \<open>sp\<close> is the page whose list entry is \<open>pos\<close>.\<close>

partial_function (option) slob_alloc_loop ::
  "kenv \<Rightarrow> slob_node \<Rightarrow> nat \<Rightarrow> int \<Rightarrow> int \<Rightarrow> slob_node lptr \<Rightarrow> slob_sys \<Rightarrow> (nat option \<times> slob_sys) option" where
  "slob_alloc_loop env slob_list sz align node pos st =
     (if pos = Node slob_list then Some (None, st)
      else case pos of
        Node (page_list sp) \<Rightarrow>
          (if CONFIG_NUMA env \<and> node \<noteq> -1 \<and> page_to_nid env sp \<noteq> node
           then slob_alloc_loop env slob_list sz align node (nxt (lists st) pos) st
           else if u32 (units (pages st sp)) < int (SLOB_UNITS sz)
           then slob_alloc_loop env slob_list sz align node (nxt (lists st) pos) st
           else let prev = prv (lists st) pos
                in case slob_page_alloc st sp sz align of
                     None \<Rightarrow> None
                   | Some (b, st) \<Rightarrow>
                     (case b of
                       None \<Rightarrow> slob_alloc_loop env slob_list sz align node (nxt (lists st) pos) st
                     | Some b \<Rightarrow>
                         (let st = st\<lparr>mem_used := s32 (mem_used st + int sz)\<rparr>;
                              st = st\<lparr>lists := slob_rotate (lists st) slob_list prev\<rparr>
                          in Some (Some b, st))))
      | _ \<Rightarrow> None)"

definition slob_new_page_setup :: "slob_sys \<Rightarrow> nat \<Rightarrow> slob_node \<Rightarrow> slob_sys" where
  "slob_new_page_setup st b slob_list =
     (let sp = slob_page_of (2 * b);
          st = set_slob_page st sp;
          st = upd_page st sp (\<lambda>p. p\<lparr>units := s16 (int (SLOB_UNITS PAGE_SIZE)), free := b\<rparr>);
          st = st\<lparr>lists := INIT_LIST_HEAD (lists st) (Node (page_list sp))\<rparr>;
          st = st\<lparr>mem := set_slob (mem st) b (int (SLOB_UNITS PAGE_SIZE)) (b + SLOB_UNITS PAGE_SIZE)\<rparr>
      in set_slob_page_free st sp slob_list)"

definition slob_zero :: "gfp_t \<Rightarrow> nat \<Rightarrow> nat \<Rightarrow> slob_sys \<Rightarrow> slob_sys" where
  "slob_zero gfp_mask b sz st =
     (if gfp_mask AND GFP_ZERO \<noteq> 0 then st\<lparr>mem := memset0 (mem st) (2 * b) sz\<rparr> else st)"

definition slob_alloc ::
  "kenv \<Rightarrow> slob_sys \<Rightarrow> nat \<Rightarrow> gfp_t \<Rightarrow> int \<Rightarrow> int \<Rightarrow> (nat option \<times> slob_sys) run" where
  "slob_alloc env st sz gfp_mask align node =
     (let slob_list = slob_list_of sz
      in case slob_alloc_loop env slob_list sz align node (nxt (lists st) (Node slob_list)) st of
        None \<Rightarrow> Inl Diverge
      | Some (Some b, st) \<Rightarrow> Inr (Some b, slob_zero gfp_mask b sz st)
      | Some (None, st) \<Rightarrow>
          (case slob_new_pages env st (gfp_mask AND NOT GFP_ZERO) 0 node of
             (None, st) \<Rightarrow> Inr (None, st)
           | (Some addr, st) \<Rightarrow>
               (let b = addr div 2;
                    sp = slob_page_of addr;
                    st = slob_new_page_setup st b slob_list
                in case slob_page_alloc st sp sz align of
                     None \<Rightarrow> Inl Diverge
                   | Some (None, st) \<Rightarrow> Inl Bug
                   | Some (Some b, st) \<Rightarrow>
                       (let st = st\<lparr>mem_claimed := s32 (mem_claimed st + int PAGE_SIZE)\<rparr>
                        in Inr (Some b, slob_zero gfp_mask b sz st)))))"

section \<open>\<open>slob_free\<close>\<close>

partial_function (option) slob_free_find :: "bmem \<Rightarrow> nat \<Rightarrow> nat \<Rightarrow> nat \<Rightarrow> (nat \<times> nat) option" where
  "slob_free_find m b prev next =
     (if b > next then slob_free_find m b next (slob_next m next) else Some (prev, next))"

text \<open>The tail of the search: merge with the next block, then with the previous one.\<close>

definition slob_free_link :: "bmem \<Rightarrow> nat \<Rightarrow> int \<Rightarrow> nat \<Rightarrow> nat \<Rightarrow> bmem" where
  "slob_free_link m b us prev next =
     (let m = (if \<not> slob_last m prev \<and> int b + us = int next
               then let us = s16 (us + slob_units m next) in set_slob m b us (slob_next m next)
               else set_slob m b us next)
      in if int prev + slob_units m prev = int b
         then let us = s16 (slob_units m b + slob_units m prev) in set_slob m prev us (slob_next m b)
         else set_slob m prev (slob_units m prev) b)"

text \<open>Reinsert a block into a page that is already partially free.\<close>

definition slob_free_insert :: "slob_sys \<Rightarrow> nat \<Rightarrow> nat \<Rightarrow> int \<Rightarrow> slob_sys option" where
  "slob_free_insert st sp b us =
     (let st = upd_page st sp (\<lambda>p. p\<lparr>units := s16 (units p + us)\<rparr>);
          m = mem st;
          fr = free (pages st sp)
      in if b < fr
         then (let (us, fr) = (if int b + us = int fr
                               then (s16 (us + slob_units m fr), slob_next m fr) else (us, fr));
                   st = st\<lparr>mem := set_slob m b us fr\<rparr>
               in Some (upd_page st sp (\<lambda>p. p\<lparr>free := b\<rparr>)))
         else case slob_free_find m b fr (slob_next m fr) of
                None \<Rightarrow> None
              | Some (prev, next) \<Rightarrow> Some (st\<lparr>mem := slob_free_link m b us prev next\<rparr>))"

definition slob_free :: "slob_sys \<Rightarrow> nat \<Rightarrow> int \<Rightarrow> slob_sys run" where
  "slob_free st block sz =
     (if ZERO_OR_NULL_PTR block then Inr st
      else if sz = 0 then Inl Bug
      else
       let b = block div 2;
           sp = slob_page_of block;
           us = s16 (int (SLOB_UNITS (nat (u32 sz))));
           st = st\<lparr>mem_used := s32 (mem_used st - sz)\<rparr>
       in if u32 (units (pages st sp) + us) = int (SLOB_UNITS PAGE_SIZE)
          then (let st = st\<lparr>mem_claimed := s32 (mem_claimed st - int PAGE_SIZE)\<rparr>;
                    st = (if slob_page_free st sp then clear_slob_page_free st sp else st);
                    st = clear_slob_page st sp;
                    st = free_slob_page st sp
                in Inr (slob_free_pages st block 0))
          else if \<not> slob_page_free st sp
          then (let st = upd_page st sp (\<lambda>p. p\<lparr>units := us, free := b\<rparr>);
                    st = st\<lparr>mem := set_slob (mem st) b us (page_mask (2 * (b + SLOB_UNITS PAGE_SIZE)) div 2)\<rparr>
                in Inr (set_slob_page_free st sp (slob_list_of (nat sz))))
          else run_of_loop (slob_free_insert st sp b us))"

section \<open>\<open>kmalloc\<close>, \<open>kfree\<close>, \<open>ksize\<close>\<close>

function order_loop :: "nat \<Rightarrow> nat \<Rightarrow> nat" where
  "order_loop sz order = (let sz = sz div 2 in if sz \<noteq> 0 then order_loop sz (order + 1) else order)"
  by pat_completeness auto
termination
  by (relation "measure fst") auto

definition get_order :: "nat \<Rightarrow> nat" where
  "get_order sz = order_loop (nat (u32 (int sz - 1)) div 2 ^ 11) 0"

definition kmalloc_align :: int where
  "kmalloc_align = max ARCH_KMALLOC_MINALIGN ARCH_SLAB_MINALIGN"

definition kmalloc_node :: "kenv \<Rightarrow> slob_sys \<Rightarrow> nat \<Rightarrow> gfp_t \<Rightarrow> int \<Rightarrow> (nat option \<times> slob_sys) run" where
  "kmalloc_node env st sz gfp_mask node =
     (let align = kmalloc_align
      in if sz < PAGE_SIZE - nat align
         then if sz = 0 then Inr (Some ZERO_SIZE_PTR, st)
              else run_bind (slob_alloc env st (sz + nat align) gfp_mask align node)
                (\<lambda>(m, st). case m of
                    None \<Rightarrow> Inr (None, st)
                  | Some m \<Rightarrow> Inr (Some (2 * m + nat align), st\<lparr>mem := wr32 (mem st) (2 * m) sz\<rparr>))
         else
           let order = get_order sz;
               gfp_mask = (if order \<noteq> 0 then gfp_mask OR GFP_COMP else gfp_mask);
               (ret, st) = slob_new_pages env st gfp_mask order node
           in case ret of
                None \<Rightarrow> Inr (None, st)
              | Some r \<Rightarrow> Inr (Some r, upd_page st (slob_page_of r) (\<lambda>p. p\<lparr>page_private := sz\<rparr>)))"

definition kfree :: "slob_sys \<Rightarrow> nat \<Rightarrow> slob_sys run" where
  "kfree st block =
     (if ZERO_OR_NULL_PTR block then Inr st
      else let sp = slob_page_of block
           in if is_slob_page st sp
              then let align = kmalloc_align;
                       m = block - nat align
                   in slob_free st m (s32 (int (rd32 (mem st) m) + align))
              else Inr (st\<lparr>frames := (frames st)(sp := None)\<rparr>))"

definition ksize :: "slob_sys \<Rightarrow> nat \<Rightarrow> nat run" where
  "ksize st block =
     (if block = 0 then Inl Bug
      else if block = ZERO_SIZE_PTR then Inr 0
      else let sp = slob_page_of block
           in if is_slob_page st sp
              then let m = block - nat kmalloc_align
                   in Inr (SLOB_UNITS (rd32 (mem st) m) * SLOB_UNIT)
              else Inr (page_private (pages st sp)))"

section \<open>Slab caches\<close>

definition SLAB_HWCACHE_ALIGN :: "32 word" where "SLAB_HWCACHE_ALIGN = 0x2000"
definition SLAB_PANIC :: "32 word" where "SLAB_PANIC = 0x40000"
definition SLAB_DESTROY_BY_RCU :: "32 word" where "SLAB_DESTROY_BY_RCU = 0x80000"
definition sizeof_kmem_cache :: nat where "sizeof_kmem_cache = 20"
definition sizeof_slob_rcu :: nat where "sizeof_slob_rcu = 12"

definition kmem_cache_create ::
  "kenv \<Rightarrow> nat \<Rightarrow> slob_sys \<Rightarrow> string \<Rightarrow> nat \<Rightarrow> nat \<Rightarrow> 32 word \<Rightarrow> (bmem \<Rightarrow> nat \<Rightarrow> bmem) option \<Rightarrow>
   (nat option \<times> slob_sys) run" where
  "kmem_cache_create env SLOB_ALIGN st name sz align flags ctor =
     run_bind (slob_alloc env st sizeof_kmem_cache GFP_KERNEL ARCH_KMALLOC_MINALIGN (-1))
       (\<lambda>(c, st). case c of
          Some c \<Rightarrow>
            (let csize = (if flags AND SLAB_DESTROY_BY_RCU \<noteq> 0 then sz + sizeof_slob_rcu else sz);
                 calign = (if flags AND SLAB_HWCACHE_ALIGN \<noteq> 0 then SLOB_ALIGN else 0);
                 calign = (if calign < nat ARCH_SLAB_MINALIGN then nat ARCH_SLAB_MINALIGN else calign);
                 calign = (if calign < align then align else calign)
             in Inr (Some (2 * c), st\<lparr>caches := (caches st)(2 * c \<mapsto>
                  \<lparr>c_size = csize mod 2 ^ 32, c_align = calign, c_flags = flags, c_name = name, c_ctor = ctor\<rparr>)\<rparr>))
        | None \<Rightarrow> if flags AND SLAB_PANIC \<noteq> 0 then Inl Bug else Inr (None, st))"

definition kmem_cache_alloc_node ::
  "kenv \<Rightarrow> slob_sys \<Rightarrow> kmem_cache \<Rightarrow> gfp_t \<Rightarrow> int \<Rightarrow> (nat option \<times> slob_sys) run" where
  "kmem_cache_alloc_node env st c flags node =
     run_bind
       (if c_size c < PAGE_SIZE
        then run_bind (slob_alloc env st (c_size c) flags (s32 (int (c_align c))) node)
               (\<lambda>(b, st). Inr (map_option (\<lambda>b. 2 * b) b, st))
        else Inr (slob_new_pages env st flags (get_order (c_size c)) node))
       (\<lambda>(b, st). Inr (b, case c_ctor c of
            None \<Rightarrow> st
          | Some ctor \<Rightarrow> st\<lparr>mem := ctor (mem st) (case b of None \<Rightarrow> 0 | Some a \<Rightarrow> a)\<rparr>))"

definition kmem_cache_free_now :: "slob_sys \<Rightarrow> nat \<Rightarrow> int \<Rightarrow> slob_sys run" where
  "kmem_cache_free_now st b sz =
     (if u32 sz < int PAGE_SIZE then slob_free st b sz
      else Inr (slob_free_pages st b (get_order (nat (u32 sz)))))"

text \<open>The callback takes the oldest entry of the RCU queue.\<close>

definition kmem_rcu_free :: "slob_sys \<Rightarrow> nat \<Rightarrow> slob_sys run" where
  "kmem_rcu_free st head =
     (let sz = rd32 (mem st) (head + 8);
          b = head - (sz - sizeof_slob_rcu)
      in kmem_cache_free_now st b (s32 (int sz)))"

definition kmem_cache_free :: "slob_sys \<Rightarrow> kmem_cache \<Rightarrow> nat \<Rightarrow> slob_sys run" where
  "kmem_cache_free st c b =
     (if c_flags c AND SLAB_DESTROY_BY_RCU \<noteq> 0
      then let rcu = b + (c_size c - sizeof_slob_rcu);
               st = st\<lparr>mem := wr32 (mem st) (rcu + 8) (c_size c)\<rparr>
           in Inr (st\<lparr>rcu_queue := rcu_queue st @ [rcu]\<rparr>)
      else kmem_cache_free_now st b (s32 (int (c_size c))))"

text \<open>\<open>rcu_barrier\<close> runs every callback that is queued.\<close>

fun rcu_run :: "nat list \<Rightarrow> slob_sys \<Rightarrow> slob_sys run" where
  "rcu_run [] st = Inr st"
| "rcu_run (h # hs) st = run_bind (kmem_rcu_free st h) (rcu_run hs)"

definition rcu_barrier :: "slob_sys \<Rightarrow> slob_sys run" where
  "rcu_barrier st = rcu_run (rcu_queue st) (st\<lparr>rcu_queue := []\<rparr>)"

definition kmem_cache_destroy :: "slob_sys \<Rightarrow> nat \<Rightarrow> kmem_cache \<Rightarrow> slob_sys run" where
  "kmem_cache_destroy st addr c =
     run_bind (if c_flags c AND SLAB_DESTROY_BY_RCU \<noteq> 0 then rcu_barrier st else Inr st)
       (\<lambda>st. slob_free st addr (int sizeof_kmem_cache))"

definition kmem_cache_size :: "kmem_cache \<Rightarrow> nat" where
  "kmem_cache_size c = c_size c"

definition kmem_cache_shrink :: "kmem_cache \<Rightarrow> int" where
  "kmem_cache_shrink d = 0"

definition slab_is_available :: "slob_sys \<Rightarrow> int" where
  "slab_is_available st = slob_ready st"

definition kmem_cache_init :: "slob_sys \<Rightarrow> slob_sys" where
  "kmem_cache_init st = st\<lparr>slob_ready := 1\<rparr>"

section \<open>The accounting system calls\<close>

definition sys_get_slob_amt_claimed :: "slob_sys \<Rightarrow> int" where
  "sys_get_slob_amt_claimed st = mem_claimed st"

definition sys_get_slob_amt_free :: "slob_sys \<Rightarrow> int" where
  "sys_get_slob_amt_free st = s32 (mem_claimed st - mem_used st)"

end
