(* ===== verification/Slob_Free.thy ===== *)
theory Slob_Free
  imports Slob_Heap
begin

text \<open>
  Reinsertion of a freed block into the free list of its page: \<open>slob_free_insert\<close> implements insertion
  into a set of free units. A free list is determined by the units it covers (\<open>seg_canonical\<close>), so the
  covered set is the whole specification of a page's free list.
\<close>

section \<open>A free list is determined by the units it covers\<close>

lemma start_units_of: "seg m t q ((b, n) # bs) \<Longrightarrow> b \<in> units_of ((b, n) # bs)"
  by auto

lemma seg_gap:
  assumes "seg m t q ((b, n) # bs)" "x \<in> units_of bs"
  shows "b + n < x"
proof -
  from assms(2) have "bs \<noteq> []" by auto
  with assms(1) have "b + n < start t bs" "seg m t q bs" by auto
  with seg_units [OF this(2) assms(2)] show ?thesis by simp
qed

lemma seg_tail_disjoint:
  assumes "seg m t q ((b, n) # bs)"
  shows "units_of bs = units_of ((b, n) # bs) - {b..<b + n}" "b + n \<notin> units_of ((b, n) # bs)"
proof -
  have "x \<notin> units_of bs" if "x \<le> b + n" for x
    using seg_gap [OF assms, of x] that by linarith
  then show "units_of bs = units_of ((b, n) # bs) - {b..<b + n}" "b + n \<notin> units_of ((b, n) # bs)"
    by auto
qed

lemma seg_canonical:
  "seg m t q bs \<Longrightarrow> seg m' t' q' cs \<Longrightarrow> units_of bs = units_of cs \<Longrightarrow> bs = cs"
proof (induction bs arbitrary: cs)
  case Nil
  show ?case
  proof (cases cs)
    case (Cons ck cs')
    with Nil.prems(2) have "fst ck \<in> units_of cs" by (cases ck) simp
    with Nil.prems(3) show ?thesis by simp
  qed simp
next
  case (Cons bn bs)
  obtain b n where bn: "bn = (b, n)" by (cases bn)
  have b_in: "b \<in> units_of (bn # bs)" using Cons.prems(1) unfolding bn by simp
  then have "units_of cs \<noteq> {}" unfolding Cons.prems(3) by blast
  then obtain c k cs' where cs: "cs = (c, k) # cs'" by (cases cs) auto
  have lo: "\<forall>x \<in> units_of (bn # bs). b \<le> x" "\<forall>x \<in> units_of cs. c \<le> x"
    using seg_units [OF Cons.prems(1)] seg_units [OF Cons.prems(2)] unfolding bn cs start_simps by blast+
  have "c \<in> units_of cs" using Cons.prems(2) unfolding cs by simp
  with b_in lo have "b \<le> c" "c \<le> b" unfolding Cons.prems(3) by blast+
  then have bc: "b = c" by simp
  have end1: "b + n \<notin> units_of (bn # bs)" "\<forall>x \<in> {b..<b + n}. x \<in> units_of (bn # bs)"
    using seg_tail_disjoint(2) [OF Cons.prems(1) [unfolded bn]] unfolding bn by auto
  have end2: "c + k \<notin> units_of cs" "\<forall>x \<in> {c..<c + k}. x \<in> units_of cs"
    using seg_tail_disjoint(2) [OF Cons.prems(2) [unfolded cs]] unfolding cs by auto
  have nk: "n = k"
  proof (rule ccontr)
    assume "n \<noteq> k"
    then consider "n < k" | "k < n" by linarith
    then show False
    proof cases
      case 1
      then have "b + n \<in> units_of cs" using bc end2(2) by auto
      with end1(1) Cons.prems(3) show False by simp
    next
      case 2
      then have "c + k \<in> units_of (bn # bs)" using bc end1(2) by auto
      with end2(1) Cons.prems(3) show False by simp
    qed
  qed
  have "units_of bs = units_of (bn # bs) - {b..<b + n}"
    using seg_tail_disjoint(1) [OF Cons.prems(1) [unfolded bn]] unfolding bn .
  moreover have "units_of cs' = units_of cs - {c..<c + k}"
    using seg_tail_disjoint(1) [OF Cons.prems(2) [unfolded cs]] unfolding cs .
  ultimately have "units_of bs = units_of cs'" using Cons.prems(3) bc nk by simp
  moreover have "seg m t q bs" "seg m' t' q' cs'" using Cons.prems(1,2) unfolding bn cs by simp_all
  ultimately have "bs = cs'" using Cons.IH by blast
  with bn cs bc nk show ?case by simp
qed

lemma card_units_of: "seg m t q bs \<Longrightarrow> finite (units_of bs) \<and> card (units_of bs) = sum_units bs"
proof (induction bs)
  case (Cons bn bs)
  obtain b n where bn: "bn = (b, n)" by (cases bn)
  have "{b..<b + n} \<inter> units_of bs = {}"
    using seg_tail_disjoint(1) [OF Cons.prems [unfolded bn]] by blast
  with Cons bn show ?case by (simp add: card_Un_disjoint)
qed simp

section \<open>Coalescing insertion\<close>

definition join_next :: "nat \<Rightarrow> nat \<Rightarrow> blocks \<Rightarrow> blocks" where
  "join_next b u ys =
     (case ys of (c, n) # zs \<Rightarrow> if b + u = c then (b, u + n) # zs else (b, u) # ys | [] \<Rightarrow> [(b, u)])"

definition join_prev :: "blocks \<Rightarrow> nat \<Rightarrow> nat \<Rightarrow> nat \<Rightarrow> nat \<Rightarrow> blocks \<Rightarrow> blocks" where
  "join_prev xs p k b u zs =
     (if p + k = b then xs @ (p, k + u) # zs else xs @ (p, k) # (b, u) # zs)"

lemma join_next_cases:
  obtains (merge) n zs where "ys = (b + u, n) # zs" "join_next b u ys = (b, u + n) # zs"
  | (keep) "ys = [] \<or> b + u \<noteq> start e ys" "join_next b u ys = (b, u) # ys"
proof (cases ys)
  case Nil
  then show thesis by (intro keep) (auto simp: join_next_def)
next
  case (Cons y zs)
  then show thesis
    by (cases y; cases "b + u = fst y") (auto simp: join_next_def intro: merge keep)
qed

lemma units_of_join_next: "units_of (join_next b u ys) = {b..<b + u} \<union> units_of ys"
  by (rule join_next_cases [where b = b and u = u and ys = ys and e = 0]) auto

lemma sum_units_join_next: "sum_units (join_next b u ys) = u + sum_units ys"
  by (rule join_next_cases [where b = b and u = u and ys = ys and e = 0]) auto

text \<open>The block list after the first \<open>set_slob\<close>, for a block that starts below the list \<open>ys\<close>.\<close>

definition next_units :: "bmem \<Rightarrow> nat \<Rightarrow> nat \<Rightarrow> blocks \<Rightarrow> nat \<times> blocks" where
  "next_units m b u ys = (case join_next b u ys of (_, u') # zs \<Rightarrow> (u', zs) | [] \<Rightarrow> (u, ys))"

lemma fl_join_next:
  assumes ys: "fl m (B + 2048) ys" and B: "B mod 2048 = 0" "B \<le> b" "b + u \<le> start (B + 2048) ys"
    and u: "1 \<le> u" and jn: "join_next b u ys = (b, u') # zs"
  defines "m' \<equiv> set_slob m b (int u') (start (B + 2048) zs)"
  shows "fl m' (B + 2048) ((b, u') # zs)" "fl m (B + 2048) zs" "1 \<le> u'" "u' \<le> 2048"
    "b + u' \<le> B + 2048" "slob_base b = B" "b < start (B + 2048) zs"
    "start (B + 2048) zs \<le> B + 2048" "zs \<noteq> [] \<Longrightarrow> b + u' < start (B + 2048) zs"
    "x div 2 \<notin> {b..<b + u} \<union> units_of ys \<Longrightarrow> m' x = m x"
proof -
  let ?e = "B + 2048"
  have se: "start ?e ys \<le> ?e" using seg_start_le [OF ys] .
  have base: "slob_base b = B" using slob_base_in B se u by simp
  have facts: "fl m ?e zs \<and> 1 \<le> u' \<and> b + u' \<le> ?e \<and> (zs \<noteq> [] \<longrightarrow> b + u' < start ?e zs) \<and>
     {b..<b + u'} \<subseteq> {b..<b + u} \<union> units_of ys"
  proof (rule join_next_cases [where ys = ys and b = b and u = u and e = ?e])
    fix n zs' assume "ys = (b + u, n) # zs'" "join_next b u ys = (b, u + n) # zs'"
    with jn ys u show ?thesis by auto
  next
    assume "ys = [] \<or> b + u \<noteq> start ?e ys" "join_next b u ys = (b, u) # ys"
    with jn ys u B se show ?thesis by auto
  qed
  then have st: "start ?e zs \<le> ?e" using seg_start_le by blast
  have bst: "b < start ?e zs"
  proof (cases "zs = []")
    case True
    with facts show ?thesis by simp
  next
    case False
    with facts show ?thesis by simp
  qed
  have u2: "u' \<le> 2048" using facts B by linarith
  show "fl m' ?e ((b, u') # zs)"
    unfolding m'_def using facts u2 base bst st B by (intro seg_cons) auto
  show "m' x = m x" if "x div 2 \<notin> {b..<b + u} \<union> units_of ys"
  proof -
    have "x div 2 \<notin> {b..<b + u'}" using facts that by blast
    with facts u2 show ?thesis unfolding m'_def by (intro set_slob_frame) auto
  qed
  show "fl m ?e zs" "1 \<le> u'" "b + u' \<le> ?e" "zs \<noteq> [] \<Longrightarrow> b + u' < start ?e zs" using facts by auto
  show "u' \<le> 2048" "slob_base b = B" "b < start ?e zs" "start ?e zs \<le> ?e"
    using u2 base bst st by auto
qed

lemma slob_free_link_next:
  assumes f: "page_fl m B (xs @ (p, k) # ys)" and b: "b + u \<le> start (B + 2048) ys" "B \<le> b"
    and u: "1 \<le> u" and jn: "join_next b u ys = (b, u') # zs"
  shows "(if \<not> slob_last m p \<and> int b + int u = int (start (B + 2048) ys)
          then let us = s16 (int u + slob_units m (start (B + 2048) ys))
               in set_slob m b us (slob_next m (start (B + 2048) ys))
          else set_slob m b (int u) (start (B + 2048) ys)) =
         set_slob m b (int u') (start (B + 2048) zs)"
proof (rule join_next_cases [where ys = ys and b = b and u = u and e = "B + 2048"])
  fix n zs' assume ys: "ys = (b + u, n) # zs'" and "join_next b u ys = (b, u + n) # zs'"
  with jn have u': "u' = u + n" "zs = zs'" by auto
  have f2: "page_fl m B ((xs @ [(p, k)]) @ (b + u, n) # zs)" using f ys u' by simp
  have "b + u + n \<le> B + 2048" using page_fl_block(4) [OF f2] by simp
  then have "s16 (int u + int n) = int u'" using b u' by (simp add: s16_id)
  then show ?thesis
    using page_fl_read [OF f] page_fl_read [OF f2] ys by simp
next
  assume "ys = [] \<or> b + u \<noteq> start (B + 2048) ys" "join_next b u ys = (b, u) # ys"
  then show ?thesis using page_fl_read(4) [OF f] jn by auto
qed

lemma join_prev_simps:
  "units_of (join_prev xs p k b u zs) = units_of (xs @ [(p, k)]) \<union> {b..<b + u} \<union> units_of zs"
  "sum_units (join_prev xs p k b u zs) = sum_units xs + k + u + sum_units zs"
  "join_prev xs p k b u zs \<noteq> []"
  "start e (join_prev xs p k b u zs) = start e (xs @ (p, k) # ys)"
  by (auto simp: join_prev_def start_append)

lemma slob_free_link_spec:
  assumes f: "page_fl m B (xs @ (p, k) # ys)" and b: "p + k \<le> b" "b + u \<le> start (B + 2048) ys"
    and u: "1 \<le> u" and jn: "join_next b u ys = (b, u') # zs"
  defines "m' \<equiv> slob_free_link m b (int u) p (start (B + 2048) ys)"
  shows "fl m' (B + 2048) (join_prev xs p k b u' zs)"
    "x div 2 \<notin> units_of (xs @ (p, k) # ys) \<union> {b..<b + u} \<Longrightarrow> m' x = m x"
proof -
  let ?e = "B + 2048" and ?pre = "xs @ [(p, k)]"
  define m1 where "m1 = set_slob m b (int u') (start ?e zs)"
  have blk: "1 \<le> k" "k \<le> 2048" "B \<le> p" "slob_base p = B" using page_fl_block [OF f, of p k] by auto
  have B: "B mod 2048 = 0" and flm: "fl m ?e (?pre @ ys)" using f by (auto simp: page_fl_def)
  have pre: "seg m (start ?e ys) False ?pre" and ys: "fl m ?e ys"
    using flm seg_append [of ys m ?e False ?pre] seg_weaken by (cases "ys = []"; auto)+
  note jnf = fl_join_next [OF ys B _ b(2) u jn, folded m1_def]
  have bB: "B \<le> b" using blk b by simp
  note j = jnf [OF bB]
  have preu: "x < b" if "x \<in> units_of ?pre" for x
  proof -
    have "seg m p True xs" using pre seg_append [of "[(p, k)]" m "start ?e ys" False xs] by simp
    then show ?thesis using that b seg_units [of m p True xs x] by auto
  qed
  have preu': "seg m1 (start ?e ys) False ?pre"
  proof (rule seg_cong [OF pre])
    fix x assume "x div 2 \<in> units_of ?pre"
    with preu have "x div 2 \<notin> {b..<b + u'}" by fastforce
    with j(3,4) show "m1 x = m x" unfolding m1_def by (intro set_slob_frame) auto
  qed
  have xs1: "seg m1 p True xs" and blkp: "block_at m1 p k (start ?e ys)"
    using preu' seg_append [of "[(p, k)]" m1 "start ?e ys" False xs] by simp_all
  have rd: "slob_units m1 p = int k" "slob_units m1 b = int u'" "slob_next m1 b = start ?e zs"
    using block_at_units [OF blkp] blk j(1,3,6,8) block_at_units [of m1 b u'] block_at_next [of m1 b u']
    by auto
  have m'_eq: "m' = (if p + k = b then set_slob m1 p (int (k + u')) (start ?e zs)
                     else set_slob m1 p (int k) b)"
  proof -
    have "s16 (int u' + int k) = int (k + u')" if "p + k = b"
      using j(5) that blk by (simp add: s16_id)
    then show ?thesis
      unfolding m'_def slob_free_link_def Let_def
        slob_free_link_next [OF f b(2) bB u jn, unfolded Let_def] m1_def [symmetric] rd
      by auto
  qed
  show "fl m' ?e (join_prev xs p k b u' zs)"
  proof (cases "p + k = b")
    case True
    have zs1: "fl m1 ?e zs" using j(1) by simp
    have kz: "zs \<noteq> [] \<Longrightarrow> p + (k + u') < start ?e zs" "p + (k + u') \<le> ?e"
      using j(5,9) True by auto
    have m'1: "m' = set_slob m1 p (int (k + u')) (start ?e zs)" using True m'_eq by simp
    have a: "fl m' ?e ((p, k + u') # zs)"
      unfolding m'1 by (rule seg_cons) (use zs1 blk kz True j(3,4,7,8) in auto)
    have "seg m' p True xs"
    proof (rule seg_cong [OF xs1])
      fix x assume "x div 2 \<in> units_of xs"
      then have "x div 2 < p" using seg_units [OF xs1] by blast
      then show "m' x = m1 x"
        unfolding m'1 by (intro set_slob_frame) (use kz blk in auto)
    qed
    with a True show ?thesis
      using seg_append [of "(p, k + u') # zs" m' ?e False xs] by (simp add: join_prev_def)
  next
    case False
    have m'1: "m' = set_slob m1 p (int k) b" using False m'_eq by simp
    have a: "seg m' b True ?pre"
      unfolding m'1 by (rule seg_relink [OF preu']) (use False blk b j(7,8) in auto)
    have "fl m' ?e ((b, u') # zs)"
    proof (rule seg_cong [OF j(1)])
      fix x assume "x div 2 \<in> units_of ((b, u') # zs)"
      then have "b \<le> x div 2" using seg_units [OF j(1)] by force
      then show "m' x = m1 x"
        unfolding m'1 by (intro set_slob_frame) (use blk b in auto)
    qed
    with a False show ?thesis
      using seg_append [of "(b, u') # zs" m' ?e False ?pre] by (simp add: join_prev_def)
  qed
  show "m' x = m x" if x: "x div 2 \<notin> units_of (xs @ (p, k) # ys) \<union> {b..<b + u}"
  proof -
    have "m1 x = m x" using x j(10) by auto
    moreover have "x div 2 \<notin> {b..<b + u'}"
    proof -
      have "{b..<b + u'} \<union> units_of zs = {b..<b + u} \<union> units_of ys"
        using units_of_join_next [of b u ys] jn by simp
      with x show ?thesis by auto
    qed
    then have "m' x = m1 x"
    proof (cases "p + k = b")
      case True
      then have "m' = set_slob m1 p (int (k + u')) (start ?e zs)" using m'_eq by simp
      moreover have "x div 2 \<notin> {p..<p + (k + u')}" using x True \<open>x div 2 \<notin> {b..<b + u'}\<close> by auto
      ultimately show ?thesis using set_slob_frame [of "k + u'" x p m1] True blk j(5) by simp
    next
      case False
      then have "m' = set_slob m1 p (int k) b" using m'_eq by simp
      moreover have "x div 2 \<notin> {p..<p + k}" using x by auto
      ultimately show ?thesis using set_slob_frame [of k x p m1] blk by simp
    qed
    ultimately show ?thesis by simp
  qed
qed

section \<open>The search for the insertion point\<close>

lemma slob_free_find_eq:
  "page_fl m B (xs @ (p, k) # ys @ zs) \<Longrightarrow> \<forall>c \<in> set ys. fst c < b \<Longrightarrow> b \<le> start (B + 2048) zs \<Longrightarrow>
   slob_free_find m b p (start (B + 2048) (ys @ zs)) = Some (fst (last ((p, k) # ys)), start (B + 2048) zs)"
proof (induction ys arbitrary: xs p k)
  case Nil
  then show ?case by (simp add: slob_free_find.simps)
next
  case (Cons y ys)
  obtain c n where y: "y = (c, n)" by (cases y)
  have f: "page_fl m B ((xs @ [(p, k)]) @ (c, n) # ys @ zs)" using Cons.prems(1) y by simp
  show ?case
    using Cons.IH [OF f] Cons.prems(2,3) page_fl_read(2) [OF f] y
    by (simp add: slob_free_find.simps [of m b p c])
qed

text \<open>Where a block that does not overlap the free list belongs.\<close>

lemma seg_split_at:
  assumes "seg m t q bs" "{b..<b + u} \<inter> units_of bs = {}" "1 \<le> u" "b + u \<le> t"
  obtains ls rs where "bs = ls @ rs" "\<forall>c \<in> set ls. fst c + snd c \<le> b" "b + u \<le> start t rs"
  using assms
proof (induction bs arbitrary: thesis)
  case Nil
  then show ?case by simp
next
  case (Cons cn bs)
  obtain c n where cn: "cn = (c, n)" by (cases cn)
  have n: "1 \<le> n" and sg: "seg m t q bs" using Cons.prems(2) cn by auto
  show ?case
  proof (cases "b < c")
    case True
    have "c \<notin> {b..<b + u}" using Cons.prems(3) n cn by auto
    with True show ?thesis using Cons.prems(1) [of "[]" "cn # bs"] cn by simp
  next
    case False
    have "b \<in> {b..<b + u}" using Cons.prems(4) by simp
    moreover have "{b..<b + u} \<inter> {c..<c + n} = {}" using Cons.prems(3) cn by (simp add: Int_Un_distrib)
    ultimately have "b \<notin> {c..<c + n}" by blast
    with False have le: "c + n \<le> b" by simp
    have "{b..<b + u} \<inter> units_of bs = {}" using Cons.prems(3) cn by auto
    from Cons.IH [OF _ sg this Cons.prems(4,5)] obtain ls rs where
      "bs = ls @ rs" "\<forall>c \<in> set ls. fst c + snd c \<le> b" "b + u \<le> start t rs" by blast
    then show ?thesis using Cons.prems(1) [of "cn # ls" rs] le cn by simp
  qed
qed

text \<open>What one operation on page \<open>sp\<close> may change: the bytes of \<open>X\<close> and the page's free-list fields.\<close>

definition page_frame :: "'z slob_st_scheme \<Rightarrow> 'z slob_st_scheme \<Rightarrow> nat \<Rightarrow> nat set \<Rightarrow> bool" where
  "page_frame st st' sp X \<longleftrightarrow>
     (\<forall>x. x \<noteq> sp \<longrightarrow> pages st' x = pages st x) \<and>
     PageSlab (pages st' sp) = PageSlab (pages st sp) \<and>
     PageSlobFree (pages st' sp) = PageSlobFree (pages st sp) \<and>
     lists st' = lists st \<and> slob_st.more st' = slob_st.more st \<and>
     (\<forall>x. x div 2 \<notin> X \<longrightarrow> mem st' x = mem st x)"

lemma slob_free_insert_front:
  assumes ok: "page_ok st sp bs" and u: "1 \<le> u" and B: "2048 * sp \<le> b" "b + u \<le> start (2048 * sp + 2048) bs"
  obtains st' where "slob_free_insert st sp b (int u) = Some st'" "page_ok st' sp (join_next b u bs)"
    "page_frame st st' sp (units_of bs \<union> {b..<b + u})"
proof -
  let ?B = "2048 * sp" and ?e = "2048 * sp + 2048" and ?m = "mem st"
  obtain c n cs where bs: "bs = (c, n) # cs" using ok by (cases bs) (auto simp: page_ok_def)
  have f: "page_fl ?m ?B ([] @ (c, n) # cs)" and fb: "fl ?m ?e bs" and Bm: "?B mod 2048 = 0"
    and fr: "free (pages st sp) = c" and un: "units (pages st sp) = int (sum_units bs)"
    using ok bs by (auto simp: page_ok_def page_fl_def)
  obtain u' zs where jn: "join_next b u bs = (b, u') # zs"
    using join_next_cases [where ys = bs and b = b and u = u and e = ?e] by metis
  note j = fl_join_next [OF fb Bm B(1,2) u jn]
  define m' where "m' = set_slob ?m b (int u') (start ?e zs)"
  define st' where "st' = upd_page (st\<lparr>mem := m'\<rparr>) sp (\<lambda>p. p\<lparr>units := int (sum_units (join_next b u bs)), free := b\<rparr>)"
  have blk: "1 \<le> n" "c + n \<le> ?e" "b < c" using page_fl_block [OF f, of c n] B u bs by auto
  have sum: "s16 (int (sum_units bs) + int u) = int (sum_units (join_next b u bs))"
  proof -
    have "sum_units ((b, u') # zs) \<le> ?e - b" using sum_units_le [OF j(1)] by simp
    then show ?thesis using B jn sum_units_join_next [of b u bs] by (simp add: s16_id)
  qed
  have "(if int b + int u = int c then (s16 (int u + slob_units ?m c), slob_next ?m c) else (int u, c)) =
     (int u', start ?e zs)"
    using jn bs page_fl_read [OF f] blk B(1) by (auto simp: join_next_def s16_id split: if_splits)
  then have run: "slob_free_insert st sp b (int u) = Some st'"
    unfolding slob_free_insert_def using fr un sum blk
    by (cases "int b + int u = int c") (auto simp: upd_page_def st'_def m'_def Let_def)
  have ok': "page_ok st' sp (join_next b u bs)"
    unfolding page_ok_def page_fl_def using j(1) Bm B jn by (simp add: st'_def upd_page_def m'_def)
  have "page_frame st st' sp (units_of bs \<union> {b..<b + u})"
    unfolding page_frame_def using j(10) by (auto simp: st'_def upd_page_def m'_def)
  with run ok' show thesis by (rule that)
qed

lemma slob_free_insert_after:
  assumes ok: "page_ok st sp (xs @ (p, k) # ys)" and u: "1 \<le> u"
    and b: "p + k \<le> b" "b + u \<le> start (2048 * sp + 2048) ys" and xs: "\<forall>c \<in> set xs. fst c < b"
    and jn: "join_next b u ys = (b, u') # zs"
  obtains st' where "slob_free_insert st sp b (int u) = Some st'"
    "page_ok st' sp (join_prev xs p k b u' zs)"
    "page_frame st st' sp (units_of (xs @ (p, k) # ys) \<union> {b..<b + u})"
proof -
  let ?B = "2048 * sp" and ?e = "2048 * sp + 2048" and ?m = "mem st" and ?bs = "xs @ (p, k) # ys"
  have f: "page_fl ?m ?B ?bs" and fr: "free (pages st sp) = start ?e ?bs"
    and un: "units (pages st sp) = int (sum_units ?bs)"
    using ok by (auto simp: page_ok_def)
  define m' where "m' = slob_free_link ?m b (int u) p (start ?e ys)"
  note l = slob_free_link_spec [OF f b u jn, folded m'_def]
  define js where "js = join_prev xs p k b u' zs"
  define st' where "st' = upd_page (st\<lparr>mem := m'\<rparr>) sp (\<lambda>q. q\<lparr>units := int (sum_units js)\<rparr>)"
  have js: "sum_units js = sum_units ?bs + u" "js \<noteq> []" "start ?e js = start ?e ?bs"
    using sum_units_join_next [of b u ys] jn by (auto simp: js_def join_prev_simps(2-4))
  have pf: "page_fl m' ?B js" using l(1) f js unfolding page_fl_def js_def by simp
  have sum: "s16 (int (sum_units ?bs) + int u) = int (sum_units js)"
    using page_fl_sum [OF pf] js(1) by (simp add: s16_id)
  have find: "slob_free_find ?m b (start ?e ?bs) (slob_next ?m (start ?e ?bs)) = Some (p, start ?e ys)
     \<and> \<not> b < start ?e ?bs"
  proof (cases xs)
    case Nil
    with f have "page_fl ?m ?B ([] @ (p, k) # [] @ ys)" by simp
    from slob_free_find_eq [OF this, of b] page_fl_read(2) [OF f] Nil b u show ?thesis by simp
  next
    case (Cons c cs)
    obtain c0 n0 where c: "c = (c0, n0)" by (cases c)
    have f1: "page_fl ?m ?B ([] @ (c0, n0) # (cs @ [(p, k)]) @ ys)" using f Cons c by simp
    have "1 \<le> k" using page_fl_block(1) [OF f, of p k] by simp
    then have "\<forall>c \<in> set (cs @ [(p, k)]). fst c < b" using xs Cons b by auto
    from slob_free_find_eq [OF f1 this] b u page_fl_read(2) [of ?m ?B "[]" c0 n0] f1 xs Cons c
    show ?thesis by auto
  qed
  have run: "slob_free_insert st sp b (int u) = Some st'"
    unfolding slob_free_insert_def using fr un sum find
    by (simp add: upd_page_def st'_def m'_def Let_def)
  have ok': "page_ok st' sp js"
    unfolding page_ok_def using pf js fr by (simp add: st'_def upd_page_def)
  have "page_frame st st' sp (units_of ?bs \<union> {b..<b + u})"
    unfolding page_frame_def using l(2) by (auto simp: st'_def upd_page_def)
  with run ok' show thesis unfolding js_def by (rule that)
qed

lemma slob_free_insert_spec:
  assumes ok: "page_ok st sp bs" and u: "1 \<le> u" and b: "2048 * sp \<le> b" "b + u \<le> 2048 * sp + 2048"
    and dj: "{b..<b + u} \<inter> units_of bs = {}"
  obtains st' bs' where "slob_free_insert st sp b (int u) = Some st'" "page_ok st' sp bs'"
    "units_of bs' = units_of bs \<union> {b..<b + u}" "page_frame st st' sp (units_of bs \<union> {b..<b + u})"
proof -
  let ?e = "2048 * sp + 2048"
  have "fl (mem st) ?e bs" using ok by (simp add: page_ok_def page_fl_def)
  from seg_split_at [OF this dj u b(2)] obtain ls rs where
    s: "bs = ls @ rs" "\<forall>c \<in> set ls. fst c + snd c \<le> b" "b + u \<le> start ?e rs" by blast
  show thesis
  proof (cases ls rule: rev_cases)
    case Nil
    with s ok u b(1) obtain st' where "slob_free_insert st sp b (int u) = Some st'"
      "page_ok st' sp (join_next b u bs)" "page_frame st st' sp (units_of bs \<union> {b..<b + u})"
      by (auto elim: slob_free_insert_front)
    then show thesis using that units_of_join_next by blast
  next
    case (snoc xs pk)
    obtain p k where pk: "pk = (p, k)" by (cases pk)
    obtain u' zs where jn: "join_next b u rs = (b, u') # zs"
      using join_next_cases [where ys = rs and b = b and u = u and e = ?e] by metis
    have bs: "bs = xs @ (p, k) # rs" using s snoc pk by simp
    have xs: "\<forall>c \<in> set xs. fst c < b"
    proof
      fix c assume c: "c \<in> set xs"
      have "1 \<le> snd c"
        using ok page_fl_block(1) [of "mem st" "2048 * sp" bs "fst c" "snd c"] c bs by (simp add: page_ok_def)
      with s(2) snoc c show "fst c < b" by fastforce
    qed
    obtain st' where "slob_free_insert st sp b (int u) = Some st'"
      "page_ok st' sp (join_prev xs p k b u' zs)"
      "page_frame st st' sp (units_of bs \<union> {b..<b + u})"
      using slob_free_insert_after [OF _ u _ s(3) xs jn, of st p k] ok bs s snoc pk by auto
    moreover have "units_of (join_prev xs p k b u' zs) = units_of bs \<union> {b..<b + u}"
      using units_of_join_next [of b u rs] jn bs by (auto simp: join_prev_simps)
    ultimately show thesis using that by blast
  qed
qed

end
