(* ===== verification/Slob_Inv.thy ===== *)
theory Slob_Inv
  imports Slob_Free
begin

text \<open>
  The invariant of the whole SLOB heap and its preservation by \<open>slob_alloc\<close> and \<open>slob_free\<close>. The
  abstract state is the map \<open>live\<close> from the unit address of an allocated block to its size in units.
  The invariant says that the units of every SLOB page are exactly its free blocks and its live
  blocks, with no overlap, that a page is on one of the three lists exactly when it has room, and
  that every SLOB page is held from the page allocator.
\<close>

section \<open>The invariant\<close>

type_synonym live_map = "nat \<rightharpoonup> nat"

definition slob_heads :: "slob_node lptr set" where
  "slob_heads = {Node free_slob_small, Node free_slob_medium, Node free_slob_large}"

definition on_list :: "slob_node lists \<Rightarrow> nat \<Rightarrow> bool" where
  "on_list A sp \<longleftrightarrow> (\<exists>hp xs. A hp = Some xs \<and> Node (page_list sp) \<in> set xs)"

definition page_units :: "nat \<Rightarrow> nat set" where
  "page_units sp = {2048 * sp..<2048 * sp + 2048}"

definition live_units :: "live_map \<Rightarrow> nat \<Rightarrow> nat set" where
  "live_units live sp = {x. \<exists>b n. live b = Some n \<and> b div 2048 = sp \<and> x \<in> {b..<b + n}}"

definition live_set :: "live_map \<Rightarrow> nat set" where
  "live_set live = {x. \<exists>b n. live b = Some n \<and> x \<in> {b..<b + n}}"

definition live_disjoint :: "live_map \<Rightarrow> bool" where
  "live_disjoint live \<longleftrightarrow>
     (\<forall>b n. live b = Some n \<longrightarrow> 1 \<le> n) \<and>
     (\<forall>b n c k. live b = Some n \<longrightarrow> live c = Some k \<longrightarrow> b \<noteq> c \<longrightarrow> {b..<b + n} \<inter> {c..<c + k} = {})"

definition page_rep :: "'z slob_st_scheme \<Rightarrow> nat \<Rightarrow> blocks \<Rightarrow> live_map \<Rightarrow> bool" where
  "page_rep st sp bs live \<longleftrightarrow>
     page_fl (mem st) (2048 * sp) bs \<and> units (pages st sp) = int (sum_units bs) \<and>
     (bs \<noteq> [] \<longrightarrow> free (pages st sp) = start (2048 * sp + 2048) bs) \<and>
     (PageSlobFree (pages st sp) \<longleftrightarrow> bs \<noteq> []) \<and>
     units_of bs \<union> live_units live sp = page_units sp \<and> units_of bs \<inter> live_units live sp = {}"

definition slob_pages :: "slob_sys \<Rightarrow> (nat \<Rightarrow> blocks) \<Rightarrow> live_map \<Rightarrow> bool" where
  "slob_pages st FB live \<longleftrightarrow>
     (\<forall>sp. PageSlab (pages st sp) \<longrightarrow>
        page_rep st sp (FB sp) live \<and> frames st sp = Some 0 \<and> 1 \<le> sp \<and> 2048 * sp + 6144 \<le> 2 ^ 31) \<and>
     (\<forall>sp. PageSlobFree (pages st sp) \<longrightarrow> PageSlab (pages st sp)) \<and>
     (\<forall>b n. live b = Some n \<longrightarrow> PageSlab (pages st (b div 2048))) \<and>
     live_disjoint live"

definition slob_lists :: "slob_sys \<Rightarrow> slob_node lists \<Rightarrow> bool" where
  "slob_lists st A \<longleftrightarrow>
     fam (lists st) A \<and> dom A = slob_heads \<and>
     (\<forall>hp xs x. A hp = Some xs \<longrightarrow> x \<in> set xs \<longrightarrow> (\<exists>sp. x = Node (page_list sp))) \<and>
     (\<forall>sp. PageSlobFree (pages st sp) \<longleftrightarrow> on_list A sp)"

definition slob_ok :: "slob_sys \<Rightarrow> live_map \<Rightarrow> bool" where
  "slob_ok st live \<longleftrightarrow> (\<exists>A FB. slob_lists st A \<and> slob_pages st FB live)"

definition slab_set :: "slob_sys \<Rightarrow> nat set" where
  "slab_set st = {sp. PageSlab (pages st sp)}"

section \<open>Pages, blocks and live units\<close>

lemma page_units_iff: "x \<in> page_units sp \<longleftrightarrow> x div 2048 = sp"
  by (auto simp: page_units_def)

lemma sys_more_eq:
  "slob_st.more (st :: slob_sys) = slob_st.more st' \<longleftrightarrow>
   mem_used st = mem_used st' \<and> mem_claimed st = mem_claimed st' \<and> frames st = frames st' \<and>
   reclaimed_slab st = reclaimed_slab st' \<and> rcu_queue st = rcu_queue st' \<and> caches st = caches st' \<and>
   slob_ready st = slob_ready st'"
  by (cases st; cases st') auto

lemma live_setI: "live b = Some n \<Longrightarrow> x \<in> {b..<b + n} \<Longrightarrow> x \<in> live_set live"
  unfolding live_set_def by blast

lemma live_unitsI: "live b = Some n \<Longrightarrow> x \<in> {b..<b + n} \<Longrightarrow> x \<in> live_units live (b div 2048)"
  unfolding live_units_def by blast

lemma took_extra:
  assumes "took (st :: slob_sys) st' sp bs bs'"
  shows "mem_used st' = mem_used st" "mem_claimed st' = mem_claimed st" "frames st' = frames st"
    "slab_set st' = slab_set st"
proof -
  show "mem_used st' = mem_used st" "mem_claimed st' = mem_claimed st" "frames st' = frames st"
    using assms sys_more_eq by (auto simp: took_def)
  have "PageSlab (pages st' x) = PageSlab (pages st x)" for x
    using assms by (cases "x = sp") (auto simp: took_def)
  then show "slab_set st' = slab_set st" by (simp add: slab_set_def)
qed

lemma page_rep_subset:
  "page_rep st sp bs live \<Longrightarrow> units_of bs \<subseteq> page_units sp"
  "page_rep st sp bs live \<Longrightarrow> live_units live sp \<subseteq> page_units sp"
  by (auto simp: page_rep_def)

lemma page_rep_frame:
  assumes r: "page_rep st sp bs live" and pg: "pages st' sp = pages st sp"
    and m: "\<forall>x. x div 2 \<in> units_of bs \<longrightarrow> mem st' x = mem st x"
    and lv: "live_units live' sp = live_units live sp"
  shows "page_rep st' sp bs live'"
proof -
  have "page_fl (mem st') (2048 * sp) bs"
    using r m seg_cong [of "mem st" "2048 * sp + 2048" False bs "mem st'"]
    unfolding page_rep_def page_fl_def by blast
  with r pg lv show ?thesis unfolding page_rep_def by simp
qed

lemma page_rep_ok: "page_rep st sp bs live \<Longrightarrow> bs \<noteq> [] \<Longrightarrow> page_ok st sp bs"
  by (simp add: page_rep_def page_ok_def)

lemma slob_pages_cong:
  assumes "slob_pages st FB live" "mem st' = mem st" "pages st' = pages st" "frames st' = frames st"
  shows "slob_pages st' FB live"
  using assms by (simp add: slob_pages_def page_rep_def)

lemma slob_lists_cong:
  assumes "slob_lists st A" "lists st' = lists st" "pages st' = pages st"
  shows "slob_lists st' A"
  using assms by (simp add: slob_lists_def)

lemma slob_pages_free_page:
  assumes "slob_pages st FB live" "PageSlobFree (pages st sp)"
  shows "PageSlab (pages st sp)" "page_rep st sp (FB sp) live" "page_ok st sp (FB sp)"
    "2048 * sp + 6144 \<le> 2 ^ 31"
proof -
  show s: "PageSlab (pages st sp)" using assms by (simp add: slob_pages_def)
  with assms(1) show r: "page_rep st sp (FB sp) live" and "2048 * sp + 6144 \<le> 2 ^ 31"
    by (auto simp: slob_pages_def)
  show "page_ok st sp (FB sp)" using r assms(2) page_rep_ok page_rep_def by metis
qed

lemma live_block:
  assumes "slob_pages st FB live" "live b = Some n"
  shows "1 \<le> n" "PageSlab (pages st (b div 2048))" "{b..<b + n} \<subseteq> page_units (b div 2048)"
    "page_rep st (b div 2048) (FB (b div 2048)) live"
proof -
  show 1: "1 \<le> n" and 2: "PageSlab (pages st (b div 2048))"
    using assms by (auto simp: slob_pages_def live_disjoint_def)
  then show r: "page_rep st (b div 2048) (FB (b div 2048)) live"
    using assms(1) by (simp add: slob_pages_def)
  have "{b..<b + n} \<subseteq> live_units live (b div 2048)" using assms(2) unfolding live_units_def by blast
  then show "{b..<b + n} \<subseteq> page_units (b div 2048)" using page_rep_subset(2) [OF r] by blast
qed

lemma live_units_subset_set: "live_units live sp \<subseteq> live_set live"
  by (auto simp: live_units_def live_set_def)

lemma live_set_page:
  assumes "slob_pages st FB live" "x \<in> live_set live"
  shows "x \<in> live_units live (x div 2048)" "PageSlab (pages st (x div 2048))"
proof -
  obtain b n where b: "live b = Some n" "x \<in> {b..<b + n}" using assms(2) by (auto simp: live_set_def)
  then have "x div 2048 = b div 2048" using live_block(3) [OF assms(1) b(1)] page_units_iff by blast
  with b live_block(2) [OF assms(1) b(1)]
  show "x \<in> live_units live (x div 2048)" "PageSlab (pages st (x div 2048))"
    by (auto simp: live_units_def)
qed

lemma not_live:
  assumes "slob_pages st FB live" "b \<notin> live_set live"
  shows "live b = None"
proof (rule ccontr)
  assume "live b \<noteq> None"
  then obtain n where n: "live b = Some n" by blast
  with live_block(1) [OF assms(1) n] have "b \<in> live_set live" by (intro live_setI) auto
  with assms(2) show False by simp
qed

lemma free_live_disjoint:
  assumes "slob_pages st FB live" "PageSlab (pages st sp)"
  shows "units_of (FB sp) \<inter> live_set live = {}"
proof -
  have r: "page_rep st sp (FB sp) live" using assms by (simp add: slob_pages_def)
  have "x \<notin> live_set live" if x: "x \<in> units_of (FB sp)" for x
  proof
    assume l: "x \<in> live_set live"
    have "x div 2048 = sp" using x page_rep_subset(1) [OF r] page_units_iff by blast
    with live_set_page(1) [OF assms(1) l] r x show False by (auto simp: page_rep_def)
  qed
  then show ?thesis by blast
qed

lemma live_units_upd:
  assumes "live b = None"
  shows "live_units (live(b \<mapsto> n)) sp = live_units live sp \<union> (if b div 2048 = sp then {b..<b + n} else {})"
  using assms by (auto simp: live_units_def split: if_splits)

lemma live_set_upd: "live b = None \<Longrightarrow> live_set (live(b \<mapsto> n)) = live_set live \<union> {b..<b + n}"
  by (auto simp: live_set_def split: if_splits)

lemma live_disjoint_upd:
  assumes "live_disjoint live" "1 \<le> n" "{b..<b + n} \<inter> live_set live = {}"
  shows "live_disjoint (live(b \<mapsto> n))"
proof -
  have d: "{b..<b + n} \<inter> {c..<c + k} = {}" if "live c = Some k" for c k
    using assms(3) that unfolding live_set_def by blast
  show ?thesis
    unfolding live_disjoint_def
  proof (intro conjI allI impI)
    fix c k assume "(live(b \<mapsto> n)) c = Some k"
    then show "1 \<le> k" using assms(1,2) by (auto simp: live_disjoint_def split: if_splits)
  next
    fix c k c' k' assume "(live(b \<mapsto> n)) c = Some k" "(live(b \<mapsto> n)) c' = Some k'" "c \<noteq> c'"
    then show "{c..<c + k} \<inter> {c'..<c' + k'} = {}"
      using assms(1) d [of c k] d [of c' k'] unfolding live_disjoint_def
      by (cases "c = b"; cases "c' = b") (simp_all add: Int_commute)
  qed
qed

section \<open>Taking a block from a page\<close>

lemma units_of_carved_diff:
  assumes f: "seg m t q (xs @ (c, n) # ys)" and d: "d + u \<le> n"
  shows "units_of (carved xs c n d u ys) = units_of (xs @ (c, n) # ys) - {c + d..<c + d + u}"
    "{c + d..<c + d + u} \<subseteq> units_of (xs @ (c, n) # ys)"
proof -
  have sc: "seg m c True xs" "seg m t q ((c, n) # ys)" using f seg_append [of "(c, n) # ys" m t q xs] by auto
  have "units_of xs \<inter> {c..<c + n} = {}" using seg_units [OF sc(1)] by fastforce
  moreover have "units_of ys \<inter> {c..<c + n} = {}" using seg_tail_disjoint(1) [OF sc(2)] by blast
  moreover have "{c + d..<c + d + u} \<subseteq> {c..<c + n}" using d by auto
  ultimately show "units_of (carved xs c n d u ys) = units_of (xs @ (c, n) # ys) - {c + d..<c + d + u}"
    unfolding units_of_carved [OF d] units_of_simps by blast
  show "{c + d..<c + d + u} \<subseteq> units_of (xs @ (c, n) # ys)" using d by auto
qed

lemma slob_pages_take:
  assumes p: "slob_pages st FB live" and fr: "PageSlobFree (pages st sp)"
    and t: "took st st' sp (FB sp) bs'" and u: "1 \<le> u" "{b..<b + u} \<subseteq> units_of (FB sp)"
    and bs': "units_of bs' = units_of (FB sp) - {b..<b + u}"
  shows "slob_pages st' (FB(sp := bs')) (live(b \<mapsto> u))" "{b..<b + u} \<inter> live_set live = {}"
    "\<forall>x. x div 2 \<in> live_set live \<longrightarrow> mem st' x = mem st x"
proof -
  note fp = slob_pages_free_page [OF p fr]
  have dj: "units_of (FB sp) \<inter> live_set live = {}" using free_live_disjoint [OF p fp(1)] .
  with u show dj': "{b..<b + u} \<inter> live_set live = {}" by blast
  show "\<forall>x. x div 2 \<in> live_set live \<longrightarrow> mem st' x = mem st x" using t dj by (auto simp: took_def)
  have "b \<in> {b..<b + u}" using u by simp
  then have bnl: "b \<notin> live_set live" and bsp: "b div 2048 = sp"
    using dj' u page_rep_subset(1) [OF fp(2)] page_units_iff by blast+
  have lb: "live b = None" using not_live [OF p bnl] .
  have rep: "page_rep st' x ((FB(sp := bs')) x) (live(b \<mapsto> u))" if x: "PageSlab (pages st x)" for x
  proof (cases "x = sp")
    case True
    have "units_of (FB sp) \<union> live_units live sp = page_units sp" "units_of (FB sp) \<inter> live_units live sp = {}"
      using fp(2) by (auto simp: page_rep_def)
    then have "units_of bs' \<union> live_units (live(b \<mapsto> u)) sp = page_units sp"
      "units_of bs' \<inter> live_units (live(b \<mapsto> u)) sp = {}"
      using bs' u bsp by (auto simp: live_units_upd [of live b u, OF lb])
    with t fr True show ?thesis by (simp add: page_rep_def took_def)
  next
    case False
    have r: "page_rep st x (FB x) live" using p x by (simp add: slob_pages_def)
    have "page_units x \<inter> page_units sp = {}" using False by (auto simp: page_units_iff)
    then have "units_of (FB x) \<inter> units_of (FB sp) = {}"
      using page_rep_subset(1) [OF r] page_rep_subset(1) [OF fp(2)] by blast
    then have "\<forall>y. y div 2 \<in> units_of (FB x) \<longrightarrow> mem st' y = mem st y" using t by (auto simp: took_def)
    moreover have "pages st' x = pages st x" using t False by (simp add: took_def)
    moreover have "live_units (live(b \<mapsto> u)) x = live_units live x"
      using False bsp by (simp add: live_units_upd [of live b u, OF lb])
    ultimately show ?thesis using page_rep_frame [OF r] False by simp
  qed
  have slab: "PageSlab (pages st' x) = PageSlab (pages st x)" for x using t by (cases "x = sp") (auto simp: took_def)
  have free: "PageSlobFree (pages st' x) \<Longrightarrow> PageSlobFree (pages st x)" for x
    using t by (cases "x = sp") (auto simp: took_def)
  have fm: "frames st' = frames st" using took_extra [OF t] by simp
  show "slob_pages st' (FB(sp := bs')) (live(b \<mapsto> u))"
    unfolding slob_pages_def
  proof (intro conjI allI impI)
    fix x assume x: "PageSlab (pages st' x)"
    show "page_rep st' x ((FB(sp := bs')) x) (live(b \<mapsto> u))" using rep slab x by blast
    show "frames st' x = Some 0" "1 \<le> x" "2048 * x + 6144 \<le> 2 ^ 31"
      using p x slab fm by (auto simp: slob_pages_def)
  next
    fix x assume "PageSlobFree (pages st' x)"
    then show "PageSlab (pages st' x)" using free slab p by (auto simp: slob_pages_def)
  next
    fix c n assume "(live(b \<mapsto> u)) c = Some n"
    then show "PageSlab (pages st' (c div 2048))"
      using slab p bsp fp(1) by (auto simp: slob_pages_def split: if_splits)
  next
    show "live_disjoint (live(b \<mapsto> u))"
      using live_disjoint_upd [OF _ u(1) dj'] p by (simp add: slob_pages_def)
  qed
qed

section \<open>The page lists\<close>

lemma slob_rotate_fam:
  assumes f: "fam h A" and l: "A (Node l) = Some zs" and p: "prev \<in> set (Node l # zs)"
  obtains zs' where "fam (slob_rotate h l prev) (A(Node l \<mapsto> zs'))" "set zs' = set zs"
proof (cases "prev \<noteq> prv h (Node l) \<and> nxt h (Node l) \<noteq> nxt h prev")
  case True
  have il: "is_list h (Node l) zs" using famD [OF f l] .
  from True p have "prev \<in> set zs" by auto
  then obtain us vs where zs: "zs = us @ prev # vs" by (meson split_list)
  have "vs \<noteq> []"
  proof
    assume "vs = []"
    with zs is_list_head_prev [OF il] True show False by simp
  qed
  then obtain y ws where vs: "vs = y # ws" by (cases vs) auto
  have ny: "nxt h prev = y" using is_list_next [of h "Node l" us prev vs] il zs vs by simp
  have "A (Node l) = Some ((us @ [prev]) @ y # ws)" using l zs vs by simp
  from fam_rotate [OF f this] True ny zs vs show thesis
    by (intro that [of "y # ws @ us @ [prev]"]) (auto simp: slob_rotate_def)
next
  case False
  then have "slob_rotate h l prev = h" by (auto simp: slob_rotate_def)
  moreover have "A(Node l \<mapsto> zs) = A" using l by (simp add: map_upd_triv)
  ultimately show thesis using f that [of zs] by simp
qed

lemma on_list_member:
  assumes "fam h A" "A hp = Some xs"
  shows "on_list (A(hp \<mapsto> ys)) sp \<longleftrightarrow>
    Node (page_list sp) \<in> set ys \<or> (on_list A sp \<and> Node (page_list sp) \<notin> set xs)"
proof -
  let ?n = "Node (page_list sp)"
  have new: "on_list (A(hp \<mapsto> ys)) sp \<longleftrightarrow> ?n \<in> set ys \<or> (\<exists>b zs. b \<noteq> hp \<and> A b = Some zs \<and> ?n \<in> set zs)"
    unfolding on_list_def fun_upd_apply by (metis option.inject)
  have old: "?n \<notin> set xs" if "b \<noteq> hp" "A b = Some zs" "?n \<in> set zs" for b zs
    using fam_disjoint [OF assms(1) that(2) assms(2) that(1)] that(3) by auto
  have "(\<exists>b zs. b \<noteq> hp \<and> A b = Some zs \<and> ?n \<in> set zs) \<longleftrightarrow> on_list A sp \<and> ?n \<notin> set xs"
    unfolding on_list_def using old assms(2) by (metis option.inject)
  with new show ?thesis by simp
qed

lemma slob_lists_set:
  assumes s: "slob_lists st A" and l: "A hp = Some xs"
    and f: "fam (lists st') (A(hp \<mapsto> ys))" and ys: "\<forall>y \<in> set ys. \<exists>sp. y = Node (page_list sp)"
    and pg: "\<forall>sp. PageSlobFree (pages st' sp) \<longleftrightarrow>
       Node (page_list sp) \<in> set ys \<or> (PageSlobFree (pages st sp) \<and> Node (page_list sp) \<notin> set xs)"
  shows "slob_lists st' (A(hp \<mapsto> ys))"
proof -
  have "on_list (A(hp \<mapsto> ys)) sp \<longleftrightarrow> PageSlobFree (pages st' sp)" for sp
    using on_list_member [of "lists st" A hp xs ys sp] s l pg unfolding slob_lists_def by simp
  moreover have "dom (A(hp \<mapsto> ys)) = slob_heads" using s l unfolding slob_lists_def by auto
  ultimately show ?thesis using s f ys unfolding slob_lists_def by auto
qed

lemma slob_lists_took:
  assumes s: "slob_lists st A" and l: "A hp = Some (xs @ Node (page_list sp) # ys)"
    and t: "took st st' sp bs bs'"
  shows "slob_lists st' (A(hp \<mapsto> if bs' = [] then xs @ ys else xs @ Node (page_list sp) # ys))"
proof (rule slob_lists_set [OF s l])
  let ?n = "Node (page_list sp)" and ?zs = "if bs' = [] then xs @ ys else xs @ Node (page_list sp) # ys"
  have f: "fam (lists st) A" using s by (simp add: slob_lists_def)
  show "fam (lists st') (A(hp \<mapsto> ?zs))"
    using f fam_list_del [OF f l] l t by (auto simp: took_def map_upd_triv)
  show "\<forall>y \<in> set ?zs. \<exists>sp. y = Node (page_list sp)"
    using s l by (auto simp: slob_lists_def)
  have ol: "PageSlobFree (pages st x)" if "Node (page_list x) \<in> set (xs @ ?n # ys)" for x
    using s l that unfolding slob_lists_def on_list_def by blast
  have d: "?n \<notin> set (xs @ ys)" using fam_distinct [OF f l] by auto
  show "\<forall>x. PageSlobFree (pages st' x) \<longleftrightarrow> Node (page_list x) \<in> set ?zs \<or>
     (PageSlobFree (pages st x) \<and> Node (page_list x) \<notin> set (xs @ ?n # ys))"
  proof
    fix x show "PageSlobFree (pages st' x) \<longleftrightarrow> Node (page_list x) \<in> set ?zs \<or>
     (PageSlobFree (pages st x) \<and> Node (page_list x) \<notin> set (xs @ ?n # ys))"
      using t ol [of x] d by (cases "x = sp") (auto simp: took_def)
  qed
qed

lemma slob_lists_rotate:
  assumes s: "slob_lists st A" and l: "A (Node l) = Some zs" and p: "prev \<in> set (Node l # zs)"
    and st': "lists st' = slob_rotate (lists st) l prev" "pages st' = pages st"
  shows "\<exists>A'. slob_lists st' A'"
proof -
  have "fam (lists st) A" using s by (simp add: slob_lists_def)
  from slob_rotate_fam [OF this l p] obtain zs' where
    "fam (lists st') (A(Node l \<mapsto> zs'))" "set zs' = set zs" using st'(1) by metis
  moreover have "PageSlobFree (pages st x)" if "Node (page_list x) \<in> set zs" for x
    using s l that unfolding slob_lists_def on_list_def by blast
  ultimately have "slob_lists st' (A(Node l \<mapsto> zs'))"
    using s l st'(2) by (intro slob_lists_set [OF s l]) (auto simp: slob_lists_def)
  then show ?thesis by blast
qed

section \<open>The search loop\<close>

lemma SLOB_UNITS_pos: "1 \<le> sz \<Longrightarrow> sz < 2 ^ 32 - 1 \<Longrightarrow> 1 \<le> SLOB_UNITS sz"
  by (simp add: SLOB_UNITS_eq)

text \<open>The effect of a successful allocation on the abstract state and on the memory in use.\<close>

definition alloc_post :: "slob_sys \<Rightarrow> live_map \<Rightarrow> nat \<Rightarrow> int \<Rightarrow> nat \<Rightarrow> slob_sys \<Rightarrow> bool" where
  "alloc_post st live u al b st' \<longleftrightarrow>
     slob_ok st' (live(b \<mapsto> u)) \<and> {b..<b + u} \<inter> live_set live = {} \<and>
     (al \<noteq> 0 \<longrightarrow> int (2 * b) mod al = 0) \<and>
     (\<forall>x. x div 2 \<in> live_set live \<longrightarrow> mem st' x = mem st x)"

lemma slob_page_alloc_global:
  assumes p: "slob_pages st FB live" and fr: "PageSlobFree (pages st sp)" and al: "valid_align al"
    and sz: "1 \<le> sz" "sz < 2 ^ 32 - 1"
    and fit: "\<exists>c \<in> set (FB sp). fits (int (SLOB_UNITS sz)) al c"
  obtains b st' bs' where "slob_page_alloc st sp sz al = Some (Some b, st')"
    "took st st' sp (FB sp) bs'" "slob_pages st' (FB(sp := bs')) (live(b \<mapsto> SLOB_UNITS sz))"
    "{b..<b + SLOB_UNITS sz} \<inter> live_set live = {}" "al \<noteq> 0 \<longrightarrow> int (2 * b) mod al = 0"
    "\<forall>x. x div 2 \<in> live_set live \<longrightarrow> mem st' x = mem st x"
proof -
  let ?u = "SLOB_UNITS sz"
  note fp = slob_pages_free_page [OF p fr]
  from fit obtain c0 where c0: "c0 \<in> set (FB sp)" "fits (int ?u) al c0" by blast
  from slob_page_alloc_some [OF fp(3,4) al sz c0] obtain xs c n ys d st' where
    a: "FB sp = xs @ (c, n) # ys" "int d = adelta al c" "d + ?u \<le> n"
      "slob_page_alloc st sp sz al = Some (Some (c + d), st')"
      "took st st' sp (FB sp) (carved xs c n d ?u ys)" by metis
  have pf: "page_fl (mem st) (2048 * sp) (xs @ (c, n) # ys)" using fp(3) a(1) by (simp add: page_ok_def)
  then have sg: "fl (mem st) (2048 * sp + 2048) (xs @ (c, n) # ys)" by (simp add: page_fl_def)
  note cv = units_of_carved_diff [OF sg a(3), folded a(1)]
  note t = slob_pages_take [OF p fr a(5) SLOB_UNITS_pos [OF sz] cv(2,1)]
  have "c + 4096 \<le> 2 ^ 31" using page_fl_block(1,4) [OF pf, of c n] fp(4) by simp
  then have "al \<noteq> 0 \<longrightarrow> int (2 * (c + d)) mod al = 0"
    using scan_align_props(4) [OF al, of c] a(2) by simp
  then show thesis using that [OF a(4,5) t(1,2) _ t(3)] by simp
qed

lemma slob_alloc_loop_spec:
  assumes p: "slob_pages st FB live" and s: "slob_lists st A" and al: "valid_align al"
    and sz: "1 \<le> sz" "sz < 2 ^ 32 - 1"
  shows "A (Node l) = Some (xs @ ys) \<Longrightarrow>
    slob_alloc_loop env l sz al node (hd (ys @ [Node l])) st = Some (None, st) \<or>
    (\<exists>b st'. slob_alloc_loop env l sz al node (hd (ys @ [Node l])) st = Some (Some b, st') \<and>
       alloc_post st live (SLOB_UNITS sz) al b st' \<and>
       mem_used st' = s32 (mem_used st + int sz) \<and> mem_claimed st' = mem_claimed st \<and> slab_set st' = slab_set st)"
proof (induction ys arbitrary: xs)
  case Nil
  then show ?case by (simp add: slob_alloc_loop.simps)
next
  case (Cons y ys)
  let ?u = "SLOB_UNITS sz" and ?loop = "slob_alloc_loop env l sz al node"
  have f: "fam (lists st) A" using s by (simp add: slob_lists_def)
  have "A (Node l) = Some ((xs @ [y]) @ ys)" using Cons.prems by simp
  note IH = Cons.IH [OF this]
  obtain sp where y: "y = Node (page_list sp)" using s Cons.prems unfolding slob_lists_def by fastforce
  have il: "is_list (lists st) (Node l) (xs @ y # ys)" using famD [OF f Cons.prems] .
  have nl: "y \<noteq> Node l" using is_list_distinct [OF il] by auto
  have nx: "nxt (lists st) y = hd (ys @ [Node l])" using is_list_next [OF il] .
  have fr: "PageSlobFree (pages st sp)"
    using s Cons.prems y unfolding slob_lists_def on_list_def by fastforce
  consider (skip) "CONFIG_NUMA env \<and> node \<noteq> -1 \<and> page_to_nid env sp \<noteq> node \<or>
       u32 (units (pages st sp)) < int ?u"
    | (none) "\<not> (CONFIG_NUMA env \<and> node \<noteq> -1 \<and> page_to_nid env sp \<noteq> node \<or>
       u32 (units (pages st sp)) < int ?u)" "\<forall>c \<in> set (FB sp). \<not> fits (int ?u) al c"
    | (some) "\<not> (CONFIG_NUMA env \<and> node \<noteq> -1 \<and> page_to_nid env sp \<noteq> node \<or>
       u32 (units (pages st sp)) < int ?u)" "\<exists>c \<in> set (FB sp). fits (int ?u) al c"
    by blast
  then show ?case
  proof cases
    case skip
    then have "?loop y st = ?loop (hd (ys @ [Node l])) st"
      using y nl nx by (subst slob_alloc_loop.simps) auto
    with IH show ?thesis by simp
  next
    case none
    then have "?loop y st = ?loop (hd (ys @ [Node l])) st"
      using y nl nx slob_page_alloc_none [OF slob_pages_free_page(3) [OF p fr] sz(2) none(2)]
      by (subst slob_alloc_loop.simps) auto
    with IH show ?thesis by simp
  next
    case some
    from slob_page_alloc_global [OF p fr al sz some(2)] obtain b st1 bs' where
      a: "slob_page_alloc st sp sz al = Some (Some b, st1)" "took st st1 sp (FB sp) bs'"
        "slob_pages st1 (FB(sp := bs')) (live(b \<mapsto> ?u))" "{b..<b + ?u} \<inter> live_set live = {}"
        "al \<noteq> 0 \<longrightarrow> int (2 * b) mod al = 0" "\<forall>x. x div 2 \<in> live_set live \<longrightarrow> mem st1 x = mem st x" .
    define st2 where "st2 = st1\<lparr>mem_used := s32 (mem_used st1 + int sz),
      lists := slob_rotate (lists st1) l (prv (lists st) y)\<rparr>"
    have run: "?loop y st = Some (Some b, st2)"
      using y nl some(1) a(1) by (subst slob_alloc_loop.simps) (auto simp: st2_def)
    define zs where "zs = (if bs' = [] then xs @ ys else xs @ y # ys)"
    have s1: "slob_lists st1 (A(Node l \<mapsto> zs))"
      using slob_lists_took [OF s _ a(2)] Cons.prems y unfolding zs_def by blast
    have "prv (lists st) y = last (Node l # xs)" using is_list_prev [OF il] .
    then have "prv (lists st) y \<in> set (Node l # zs)"
      using last_in_set [of "Node l # xs"] unfolding zs_def by auto
    then have "\<exists>A'. slob_lists st2 A'"
      using slob_lists_rotate [OF s1, of l zs] unfolding st2_def by simp
    moreover have "slob_pages st2 (FB(sp := bs')) (live(b \<mapsto> ?u))"
      by (rule slob_pages_cong [OF a(3)]) (simp_all add: st2_def)
    ultimately have "slob_ok st2 (live(b \<mapsto> ?u))" unfolding slob_ok_def by blast
    moreover have "mem_used st1 = mem_used st" "mem_claimed st1 = mem_claimed st" "slab_set st1 = slab_set st"
      using took_extra [OF a(2)] by auto
    ultimately show ?thesis
      using run a(4-6) by (auto simp: alloc_post_def st2_def slab_set_def)
  qed
qed

end
