(* ===== verification/Slob_Ops.thy ===== *)
theory Slob_Ops
  imports Slob_Inv
begin

text \<open>
  Correctness of \<open>slob_alloc\<close> and \<open>slob_free\<close> against the invariant of \<open>Slob_Inv\<close>, under the contract of
  the page allocator (\<open>page_allocator\<close>: it hands out pages that are not in use and that lie in the
  32-bit address space).
\<close>

section \<open>The contract of the page allocator\<close>

definition new_frames :: "(nat \<rightharpoonup> nat) \<Rightarrow> nat \<Rightarrow> nat \<Rightarrow> bool" where
  "new_frames fr pg order \<longleftrightarrow>
     1 \<le> pg \<and> 2048 * (pg + 2 ^ order) + 4096 \<le> 2 ^ 31 \<and>
     (\<forall>q k. fr q = Some k \<longrightarrow> {q..<q + 2 ^ k} \<inter> {pg..<pg + 2 ^ order} = {})"

definition page_allocator :: "kenv \<Rightarrow> bool" where
  "page_allocator env \<longleftrightarrow>
     (\<forall>fr flags order pg. alloc_pages env fr flags order = Some pg \<longrightarrow> new_frames fr pg order) \<and>
     (\<forall>fr node flags order pg. alloc_pages_exact_node env fr node flags order = Some pg \<longrightarrow> new_frames fr pg order)"

lemma slob_new_pages_some:
  assumes "page_allocator env" "slob_new_pages env st flags order node = (Some a, st')"
  obtains pg where "a = pg * PAGE_SIZE" "new_frames (frames st) pg order"
    "st' = st\<lparr>frames := (frames st)(pg \<mapsto> order)\<rparr>"
proof -
  define page where "page = (if CONFIG_NUMA env \<and> node \<noteq> -1
    then alloc_pages_exact_node env (frames st) node flags order else alloc_pages env (frames st) flags order)"
  have r: "(case page of None \<Rightarrow> (None, st)
      | Some pg \<Rightarrow> (Some (pg * PAGE_SIZE), st\<lparr>frames := (frames st)(pg \<mapsto> order)\<rparr>)) = (Some a, st')"
    using assms(2) unfolding slob_new_pages_def Let_def page_def .
  then obtain pg where pg: "page = Some pg" by (cases page) auto
  then have "new_frames (frames st) pg order"
    using assms(1) unfolding page_def page_allocator_def by (metis (full_types))
  with pg r show thesis by (intro that [of pg]) auto
qed

lemma slob_new_pages_none:
  "slob_new_pages env st flags order node = (None, st') \<Longrightarrow> st' = st"
  by (auto simp: slob_new_pages_def split: if_splits option.splits)

section \<open>Writes to live memory\<close>

lemma slob_pages_mem:
  assumes p: "slob_pages st FB live" and m: "\<forall>x. x div 2 \<notin> live_set live \<longrightarrow> m' x = mem st x"
  shows "slob_pages (st\<lparr>mem := m'\<rparr>) FB live"
proof -
  have "page_rep (st\<lparr>mem := m'\<rparr>) sp (FB sp) live" if s: "PageSlab (pages st sp)" for sp
  proof (rule page_rep_frame)
    show "page_rep st sp (FB sp) live" using p s by (simp add: slob_pages_def)
    show "\<forall>x. x div 2 \<in> units_of (FB sp) \<longrightarrow> mem (st\<lparr>mem := m'\<rparr>) x = mem st x"
      using m free_live_disjoint [OF p s] by auto
  qed simp_all
  with p show ?thesis by (simp add: slob_pages_def)
qed

lemma slob_ok_mem:
  assumes "slob_ok st live" "\<forall>x. x div 2 \<notin> live_set live \<longrightarrow> m' x = mem st x"
  shows "slob_ok (st\<lparr>mem := m'\<rparr>) live"
proof -
  obtain A FB where "slob_lists st A" "slob_pages st FB live" using assms(1) unfolding slob_ok_def by blast
  then have "slob_lists (st\<lparr>mem := m'\<rparr>) A" "slob_pages (st\<lparr>mem := m'\<rparr>) FB live"
    using assms(2) by (auto intro: slob_lists_cong slob_pages_mem)
  then show ?thesis unfolding slob_ok_def by blast
qed

lemma slob_ok_frame:
  assumes "slob_ok st live" "mem st' = mem st" "pages st' = pages st" "lists st' = lists st" "frames st' = frames st"
  shows "slob_ok st' live"
  using assms slob_pages_cong slob_lists_cong unfolding slob_ok_def by metis

section \<open>A fresh page\<close>

lemma adelta_page:
  assumes "valid_align al" "2048 * sp + 6144 \<le> 2 ^ 31"
  shows "adelta al (2048 * sp) = 0"
proof (cases "al = 0")
  case True
  then show ?thesis by (simp add: adelta_def scan_align_def)
next
  case False
  then obtain k where k: "k \<le> 12" "al = 2 ^ k" using assms(1) by (auto simp: valid_align_def)
  have e: "(4096 :: int) = 2 ^ k * 2 ^ (12 - k)" using k(1) by (simp flip: power_add)
  have "(4096 * int sp + (2 ^ k - 1)) div 2 ^ k * 2 ^ k = 4096 * int sp"
  proof -
    have "(4096 * int sp + (2 ^ k - 1)) div 2 ^ k = (2 ^ (12 - k) * int sp * 2 ^ k + (2 ^ k - 1)) div 2 ^ k"
      using e by (simp add: mult_ac)
    also have "\<dots> = 2 ^ (12 - k) * int sp" by (subst div_mult_self3) auto
    finally show ?thesis using e by (simp add: mult_ac)
  qed
  moreover have "int (ALIGN (4096 * sp) (2 ^ k)) = (int (4096 * sp) + (2 ^ k - 1)) div 2 ^ k * 2 ^ k"
    using assms(2) k(1) by (intro ALIGN_pow2) auto
  ultimately have "ALIGN (4096 * sp) (2 ^ k) = 4096 * sp" by simp
  then show ?thesis using False k by (simp add: adelta_def scan_align_def s32_id)
qed

lemma new_page_lists:
  assumes s: "slob_lists st A" and l: "A (Node l) = Some xs" and n: "\<not> PageSlobFree (pages st sp)"
    and st': "lists st' = list_add (INIT_LIST_HEAD (lists st) (Node (page_list sp))) (Node (page_list sp)) (Node l)"
      "\<forall>x. PageSlobFree (pages st' x) = (x = sp \<or> PageSlobFree (pages st x))"
  shows "slob_lists st' (A(Node l \<mapsto> Node (page_list sp) # xs))"
proof (rule slob_lists_set [OF s l])
  let ?n = "Node (page_list sp)"
  have f: "fam (lists st) A" and dom: "dom A = slob_heads" using s by (auto simp: slob_lists_def)
  have An: "A ?n = None" using dom by (auto simp: slob_heads_def dom_def)
  have nin: "?n \<notin> nodes A UNIV"
    using n s An unfolding slob_lists_def on_list_def nodes_def by (auto split: option.splits)
  note i = fam_init_outside [OF f nin]
  have nl: "?n \<noteq> Node l" using An l by auto
  have "fam (lists st') (A(?n \<mapsto> [], ?n := None, Node l \<mapsto> ?n # xs))"
    unfolding st'(1) using looseI_single [OF i, of ?n] l nl by (intro fam_list_add [OF i]) auto
  moreover have "A(?n \<mapsto> [], ?n := None, Node l \<mapsto> ?n # xs) = A(Node l \<mapsto> ?n # xs)"
    using An nl by auto
  ultimately show "fam (lists st') (A(Node l \<mapsto> ?n # xs))" by simp
  show "\<forall>y \<in> set (?n # xs). \<exists>sp. y = Node (page_list sp)" using s l by (auto simp: slob_lists_def)
  have "PageSlobFree (pages st x)" if "Node (page_list x) \<in> set xs" for x
    using s l that unfolding slob_lists_def on_list_def by blast
  then show "\<forall>x. PageSlobFree (pages st' x) \<longleftrightarrow> Node (page_list x) \<in> set (?n # xs) \<or>
     (PageSlobFree (pages st x) \<and> Node (page_list x) \<notin> set xs)"
    using st'(2) by auto
qed

lemma live_units_none:
  assumes "slob_pages st FB live" "\<not> PageSlab (pages st sp)"
  shows "live_units live sp = {}"
  using assms by (auto simp: live_units_def slob_pages_def)

lemma slob_new_page_setup_spec:
  assumes p: "slob_pages st FB live" and s: "slob_lists st A" and l: "A (Node l) = Some xs"
    and nf: "new_frames (frames st) sp 0"
  defines "st2 \<equiv> slob_new_page_setup (st\<lparr>frames := (frames st)(sp \<mapsto> 0)\<rparr>) (2048 * sp) l"
  shows "slob_lists st2 (A(Node l \<mapsto> Node (page_list sp) # xs))"
    "slob_pages st2 (FB(sp := [(2048 * sp, 2048)])) live"
    "PageSlobFree (pages st2 sp)" "\<forall>x. x div 2 \<in> live_set live \<longrightarrow> mem st2 x = mem st x"
    "mem_used st2 = mem_used st" "mem_claimed st2 = mem_claimed st"
    "sp \<notin> slab_set st" "slab_set st2 = insert sp (slab_set st)"
proof -
  let ?B = "2048 * sp"
  have "frames st sp \<noteq> Some 0"
  proof
    assume "frames st sp = Some 0"
    then have "{sp..<sp + 2 ^ 0} \<inter> {sp..<sp + 2 ^ 0} = {}" using nf unfolding new_frames_def by blast
    then show False by simp
  qed
  then have slab: "\<not> PageSlab (pages st sp)" using p by (auto simp: slob_pages_def)
  then have nfree: "\<not> PageSlobFree (pages st sp)" using p by (auto simp: slob_pages_def)
  have sp: "slob_page_of (2 * ?B) = sp" by (simp add: slob_page_of_def PAGE_SIZE_def)
  have base: "slob_base ?B = ?B" by (rule slob_base_in) auto
  have mem: "mem st2 = set_slob (mem st) ?B (int 2048) (?B + 2048)"
    and lists: "lists st2 = list_add (INIT_LIST_HEAD (lists st) (Node (page_list sp))) (Node (page_list sp)) (Node l)"
    and pages: "pages st2 = (pages st)(sp := (pages st sp)\<lparr>PageSlab := True, units := 2048, free := ?B, PageSlobFree := True\<rparr>)"
    and fm: "frames st2 = (frames st)(sp \<mapsto> 0)"
    unfolding st2_def slob_new_page_setup_def Let_def sp
    by (simp_all add: set_slob_page_def upd_page_def set_slob_page_free_def Let_def s16_id)
  show "mem_used st2 = mem_used st" "mem_claimed st2 = mem_claimed st"
    unfolding st2_def slob_new_page_setup_def Let_def sp
    by (simp_all add: set_slob_page_def upd_page_def set_slob_page_free_def Let_def)
  show "slob_lists st2 (A(Node l \<mapsto> Node (page_list sp) # xs))"
    using lists pages by (intro new_page_lists [OF s l nfree]) auto
  show "PageSlobFree (pages st2 sp)" "sp \<notin> slab_set st" "slab_set st2 = insert sp (slab_set st)"
    using pages slab by (auto simp: slab_set_def)
  have out: "mem st2 x = mem st x" if "x div 2 \<notin> page_units sp" for x
    unfolding mem using that by (intro set_slob_frame) (auto simp: page_units_def)
  have "x div 2048 \<noteq> sp" if "x \<in> live_set live" for x
    using live_set_page(2) [OF p that] slab by auto
  then show "\<forall>x. x div 2 \<in> live_set live \<longrightarrow> mem st2 x = mem st x" using out page_units_iff by blast
  have pf: "page_fl (mem st2) ?B [(?B, 2048)]"
    unfolding mem page_fl_def using block_at_set_slob [of 2048 ?B "?B + 2048" "mem st"] base by simp
  have rep: "page_rep st2 x ((FB(sp := [(?B, 2048)])) x) live" if x: "PageSlab (pages st2 x)" for x
  proof (cases "x = sp")
    case True
    then show ?thesis using pf pages live_units_none [OF p slab] by (simp add: page_rep_def page_units_def)
  next
    case False
    have r: "page_rep st x (FB x) live" using p x False pages by (simp add: slob_pages_def)
    have "units_of (FB x) \<inter> page_units sp = {}"
      using page_rep_subset(1) [OF r] False by (auto simp: page_units_iff)
    then have "\<forall>y. y div 2 \<in> units_of (FB x) \<longrightarrow> mem st2 y = mem st y" using out by blast
    moreover have "pages st2 x = pages st x" using False pages by simp
    ultimately have "page_rep st2 x (FB x) live" by (intro page_rep_frame [OF r]) auto
    then show ?thesis using False by simp
  qed
  show "slob_pages st2 (FB(sp := [(?B, 2048)])) live"
    unfolding slob_pages_def
  proof (intro conjI allI impI)
    fix x assume x: "PageSlab (pages st2 x)"
    show "page_rep st2 x ((FB(sp := [(?B, 2048)])) x) live" using rep [OF x] .
    show "frames st2 x = Some 0" "1 \<le> x" "2048 * x + 6144 \<le> 2 ^ 31"
      using x p fm pages nf by (cases "x = sp"; simp add: slob_pages_def new_frames_def)+
  next
    fix x assume "PageSlobFree (pages st2 x)"
    then show "PageSlab (pages st2 x)" using p pages by (cases "x = sp") (auto simp: slob_pages_def)
  next
    fix b n assume "live b = Some n"
    then show "PageSlab (pages st2 (b div 2048))" using p pages by (auto simp: slob_pages_def)
  qed (use p in \<open>simp add: slob_pages_def\<close>)
qed

section \<open>\<open>slob_alloc\<close>\<close>

lemma slob_list_of_head: "dom A = slob_heads \<Longrightarrow> \<exists>xs. A (Node (slob_list_of sz)) = Some xs"
  by (auto simp: slob_heads_def slob_list_of_def dom_def)

lemma slob_zero_post:
  assumes post: "alloc_post st live (SLOB_UNITS sz) al b st'" and sz: "sz < 2 ^ 32 - 1"
  shows "alloc_post st live (SLOB_UNITS sz) al b (slob_zero flags b sz st')"
    "flags AND GFP_ZERO \<noteq> 0 \<Longrightarrow> \<forall>x. 2 * b \<le> x \<and> x < 2 * b + sz \<longrightarrow> mem (slob_zero flags b sz st') x = 0"
proof -
  let ?u = "SLOB_UNITS sz" and ?m = "memset0 (mem st') (2 * b) sz"
  have out: "?m x = mem st' x" if "x div 2 \<notin> {b..<b + ?u}" for x
    using that sz by (auto simp: memset0_def SLOB_UNITS_eq)
  have lv: "{b..<b + ?u} \<subseteq> live_set (live(b \<mapsto> ?u))" using live_setI [of "live(b \<mapsto> ?u)" b ?u] by auto
  have dj: "{b..<b + ?u} \<inter> live_set live = {}" using post by (simp add: alloc_post_def)
  have "slob_ok (st'\<lparr>mem := ?m\<rparr>) (live(b \<mapsto> ?u))"
  proof (rule slob_ok_mem)
    show "slob_ok st' (live(b \<mapsto> ?u))" using post by (simp add: alloc_post_def)
    show "\<forall>x. x div 2 \<notin> live_set (live(b \<mapsto> ?u)) \<longrightarrow> ?m x = mem st' x" using out lv by blast
  qed
  moreover have "\<forall>x. x div 2 \<in> live_set live \<longrightarrow> ?m x = mem st' x" using out dj by blast
  ultimately show "alloc_post st live ?u al b (slob_zero flags b sz st')"
    using post by (simp add: alloc_post_def slob_zero_def)
  show "flags AND GFP_ZERO \<noteq> 0 \<Longrightarrow> \<forall>x. 2 * b \<le> x \<and> x < 2 * b + sz \<longrightarrow> mem (slob_zero flags b sz st') x = 0"
    by (simp add: slob_zero_def memset0_def)
qed

lemma slob_alloc_fresh:
  assumes p: "slob_pages st FB live" and s: "slob_lists st A" and l: "A (Node l) = Some xs"
    and al: "valid_align al" and sz: "1 \<le> sz" "sz \<le> 4096" and nf: "new_frames (frames st) sp 0"
  obtains b st' where
    "slob_page_alloc (slob_new_page_setup (st\<lparr>frames := (frames st)(sp \<mapsto> 0)\<rparr>) (2048 * sp) l) sp sz al = Some (Some b, st')"
    "alloc_post st live (SLOB_UNITS sz) al b st'" "mem_used st' = mem_used st" "mem_claimed st' = mem_claimed st"
    "sp \<notin> slab_set st" "slab_set st' = insert sp (slab_set st)"
proof -
  define st2 where "st2 = slob_new_page_setup (st\<lparr>frames := (frames st)(sp \<mapsto> 0)\<rparr>) (2048 * sp) l"
  note n = slob_new_page_setup_spec [OF p s l nf, folded st2_def]
  have sz': "sz < 2 ^ 32 - 1" using sz by simp
  have "2048 * sp + 6144 \<le> 2 ^ 31" using slob_pages_free_page(4) [OF n(2,3)] .
  then have "fits (int (SLOB_UNITS sz)) al (2048 * sp, 2048)"
    using sz sz' adelta_page [OF al] by (simp add: fits_def slack_def SLOB_UNITS_eq)
  then have "\<exists>c \<in> set ((FB(sp := [(2048 * sp, 2048)])) sp). fits (int (SLOB_UNITS sz)) al c" by simp
  from slob_page_alloc_global [OF n(2,3) al sz(1) sz' this] obtain b st' bs' where
    a: "slob_page_alloc st2 sp sz al = Some (Some b, st')"
      "took st2 st' sp [(2048 * sp, 2048)] bs'"
      "slob_pages st' (FB(sp := [(2048 * sp, 2048)], sp := bs')) (live(b \<mapsto> SLOB_UNITS sz))"
      "{b..<b + SLOB_UNITS sz} \<inter> live_set live = {}" "al \<noteq> 0 \<longrightarrow> int (2 * b) mod al = 0"
      "\<forall>x. x div 2 \<in> live_set live \<longrightarrow> mem st' x = mem st2 x"
    by (metis fun_upd_same)
  have "slob_lists st' ((A(Node l \<mapsto> Node (page_list sp) # xs))(Node l \<mapsto>
      if bs' = [] then [] @ xs else [] @ Node (page_list sp) # xs))"
    by (rule slob_lists_took [OF n(1) _ a(2)]) simp
  with a(3) have "slob_ok st' (live(b \<mapsto> SLOB_UNITS sz))" unfolding slob_ok_def by blast
  then have "alloc_post st live (SLOB_UNITS sz) al b st'" using a(4-6) n(4) by (simp add: alloc_post_def)
  moreover have "mem_used st' = mem_used st" "mem_claimed st' = mem_claimed st" "slab_set st' = insert sp (slab_set st)"
    using took_extra [OF a(2)] n(5,6,8) by auto
  ultimately show thesis using that a(1) n(7) unfolding st2_def by blast
qed

text \<open>
  The three outcomes of \<open>slob_alloc\<close>: room on a listed page, a fresh page, no page. The first two
  differ in the accounting: only the first adds to \<open>mem_used\<close>, only the second to \<open>mem_claimed\<close>.
\<close>

lemma slob_alloc_cases:
  assumes env: "page_allocator env" and ok: "slob_ok st live" and al: "valid_align al"
    and sz: "1 \<le> sz" "sz \<le> 4096"
  obtains
    (listed) b st' where "slob_alloc env st sz flags al node = Inr (Some b, slob_zero flags b sz st')"
      "alloc_post st live (SLOB_UNITS sz) al b st'"
      "mem_used st' = s32 (mem_used st + int sz)" "mem_claimed st' = mem_claimed st" "slab_set st' = slab_set st"
  | (fresh) b st' where "slob_alloc env st sz flags al node = Inr (Some b, slob_zero flags b sz st')"
      "alloc_post st live (SLOB_UNITS sz) al b st'" "\<exists>addr st1. slob_new_pages env st (flags AND NOT GFP_ZERO) 0 node = (Some addr, st1)"
      "mem_used st' = mem_used st" "mem_claimed st' = s32 (mem_claimed st + 4096)"
      "\<exists>sp. sp \<notin> slab_set st \<and> slab_set st' = insert sp (slab_set st)"
  | (none) "slob_alloc env st sz flags al node = Inr (None, st)"
      "slob_new_pages env st (flags AND NOT GFP_ZERO) 0 node = (None, st)"
proof -
  let ?l = "slob_list_of sz" and ?fl = "flags AND NOT GFP_ZERO"
  obtain A FB where s: "slob_lists st A" and p: "slob_pages st FB live"
    using ok unfolding slob_ok_def by blast
  obtain xs where l: "A (Node ?l) = Some xs" using slob_list_of_head s unfolding slob_lists_def by blast
  have f: "fam (lists st) A" using s by (simp add: slob_lists_def)
  have hd: "nxt (lists st) (Node ?l) = hd (xs @ [Node ?l])" using is_list_head_next [OF famD [OF f l]] .
  have sz': "sz < 2 ^ 32 - 1" using sz by simp
  from slob_alloc_loop_spec [OF p s al sz(1) sz', of ?l "[]" xs env node] l hd
  consider "slob_alloc_loop env ?l sz al node (nxt (lists st) (Node ?l)) st = Some (None, st)"
    | b st' where "slob_alloc_loop env ?l sz al node (nxt (lists st) (Node ?l)) st = Some (Some b, st')"
      "alloc_post st live (SLOB_UNITS sz) al b st'" "mem_used st' = s32 (mem_used st + int sz)"
      "mem_claimed st' = mem_claimed st" "slab_set st' = slab_set st"
    by auto
  then show thesis
  proof cases
    case (2 b st')
    then show thesis by (intro listed [of b st']) (simp_all add: slob_alloc_def Let_def)
  next
    case 1
    show thesis
    proof (cases "slob_new_pages env st ?fl 0 node")
      case (Pair r st1)
      show thesis
      proof (cases r)
        case None
        with Pair slob_new_pages_none have "st1 = st" by blast
        with None Pair 1 show thesis by (intro none) (auto simp: slob_alloc_def Let_def)
      next
        case (Some addr)
        from slob_new_pages_some [OF env] Pair Some obtain pg where
          pg: "addr = pg * PAGE_SIZE" "new_frames (frames st) pg 0" "st1 = st\<lparr>frames := (frames st)(pg \<mapsto> 0)\<rparr>"
          by blast
        from slob_alloc_fresh [OF p s l al sz pg(2)] obtain b st' where
          a: "slob_page_alloc (slob_new_page_setup (st\<lparr>frames := (frames st)(pg \<mapsto> 0)\<rparr>) (2048 * pg) ?l) pg sz al =
               Some (Some b, st')"
            "alloc_post st live (SLOB_UNITS sz) al b st'" "mem_used st' = mem_used st" "mem_claimed st' = mem_claimed st"
            "pg \<notin> slab_set st" "slab_set st' = insert pg (slab_set st)" .
        have addr: "addr div 2 = 2048 * pg" "slob_page_of addr = pg"
          using pg(1) by (simp_all add: PAGE_SIZE_def slob_page_of_def)
        define st3 where "st3 = st'\<lparr>mem_claimed := s32 (mem_claimed st' + int PAGE_SIZE)\<rparr>"
        have "slob_alloc env st sz flags al node = Inr (Some b, slob_zero flags b sz st3)"
          using 1 Pair Some a(1) addr pg(3) by (simp add: slob_alloc_def Let_def st3_def)
        moreover have "alloc_post st live (SLOB_UNITS sz) al b st3"
          using a(2) slob_ok_frame [of st' _ st3] by (auto simp: alloc_post_def st3_def)
        moreover have "mem_used st3 = mem_used st" "mem_claimed st3 = s32 (mem_claimed st + 4096)"
          "slab_set st3 = insert pg (slab_set st)"
          using a(3,4,6) by (auto simp: st3_def PAGE_SIZE_def slab_set_def)
        ultimately show thesis using Pair Some a(5) by (intro fresh [of b st3]) auto
      qed
    qed
  qed
qed

section \<open>\<open>slob_free\<close>\<close>

lemma live_disjointD:
  "live_disjoint live \<Longrightarrow> live b = Some u \<Longrightarrow> live c = Some n \<Longrightarrow> c \<noteq> b \<Longrightarrow> x \<in> {c..<c + n} \<Longrightarrow> x \<notin> {b..<b + u}"
  unfolding live_disjoint_def by blast

lemma live_remove_iff:
  assumes "live_disjoint live" "live b = Some u"
  shows "(\<exists>c n. (live(b := None)) c = Some n \<and> P c \<and> x \<in> {c..<c + n}) \<longleftrightarrow>
    (\<exists>c n. live c = Some n \<and> P c \<and> x \<in> {c..<c + n}) \<and> \<not> (P b \<and> x \<in> {b..<b + u})"
  (is "?l \<longleftrightarrow> ?r")
proof
  assume ?l
  then obtain c n where c: "c \<noteq> b" "live c = Some n" "P c" "x \<in> {c..<c + n}" by (auto split: if_splits)
  then show ?r using live_disjointD [OF assms c(2,1,4)] by blast
next
  assume ?r
  then obtain c n where c: "live c = Some n" "P c" "x \<in> {c..<c + n}" "\<not> (P b \<and> x \<in> {b..<b + u})" by blast
  have "c \<noteq> b" using c assms(2) by auto
  then have "(live(b := None)) c = Some n" using c(1) by simp
  with c(2,3) show ?l by blast
qed

lemma live_units_remove:
  assumes "live_disjoint live" "live b = Some u"
  shows "live_units (live(b := None)) sp = live_units live sp - (if b div 2048 = sp then {b..<b + u} else {})"
  unfolding live_units_def using live_remove_iff [OF assms, of "\<lambda>c. c div 2048 = sp"]
  by (auto simp del: fun_upd_apply)

lemma live_set_remove:
  assumes "live_disjoint live" "live b = Some u"
  shows "live_set (live(b := None)) = live_set live - {b..<b + u}"
  unfolding live_set_def using live_remove_iff [OF assms, of "\<lambda>c. True"]
  by (auto simp del: fun_upd_apply)

lemma live_disjoint_remove:
  assumes "live_disjoint live" shows "live_disjoint (live(b := None))"
proof -
  have "live c = Some n" if "(live(b := None)) c = Some n" for c n using that by (simp split: if_splits)
  with assms show ?thesis unfolding live_disjoint_def by blast
qed

lemma slob_pages_release:
  assumes p: "slob_pages st FB live" and b: "live b = Some u" and sp: "sp = b div 2048"
    and ok: "page_ok st' sp bs'" "units_of bs' = units_of (FB sp) \<union> {b..<b + u}"
    and pg: "\<forall>x. x \<noteq> sp \<longrightarrow> pages st' x = pages st x" "PageSlab (pages st' sp)" "PageSlobFree (pages st' sp)"
      "frames st' = frames st" and m: "\<forall>x. x div 2 \<notin> units_of (FB sp) \<union> {b..<b + u} \<longrightarrow> mem st' x = mem st x"
  shows "slob_pages st' (FB(sp := bs')) (live(b := None))"
    "\<forall>x. x div 2 \<in> live_set (live(b := None)) \<longrightarrow> mem st' x = mem st x"
proof -
  let ?live = "live(b := None)"
  note lb = live_block [OF p b, folded sp]
  have ld: "live_disjoint live" using p by (simp add: slob_pages_def)
  show "\<forall>x. x div 2 \<in> live_set ?live \<longrightarrow> mem st' x = mem st x"
    unfolding live_set_remove [OF ld b] using m free_live_disjoint [OF p lb(2)] by blast
  have inp: "units_of (FB sp) \<union> {b..<b + u} \<subseteq> page_units sp" using lb(3) page_rep_subset(1) [OF lb(4)] by blast
  have rep: "page_rep st' x ((FB(sp := bs')) x) ?live" if x: "PageSlab (pages st' x)" for x
  proof (cases "x = sp")
    case True
    have "units_of (FB sp) \<union> live_units live sp = page_units sp" "units_of (FB sp) \<inter> live_units live sp = {}"
      using lb(4) by (auto simp: page_rep_def)
    then have "units_of bs' \<union> live_units ?live sp = page_units sp" "units_of bs' \<inter> live_units ?live sp = {}"
      unfolding live_units_remove [OF ld b] ok(2) using sp inp by auto
    with ok(1) pg(3) True show ?thesis by (simp add: page_rep_def page_ok_def)
  next
    case False
    have r: "page_rep st x (FB x) live" using p x False pg(1) by (simp add: slob_pages_def)
    have "units_of (FB x) \<inter> page_units sp = {}"
      using page_rep_subset(1) [OF r] False by (auto simp: page_units_iff)
    with inp have "\<forall>y. y div 2 \<in> units_of (FB x) \<longrightarrow> mem st' y = mem st y" using m by blast
    moreover have "live_units ?live x = live_units live x"
      unfolding live_units_remove [OF ld b] using False sp by simp
    ultimately have "page_rep st' x (FB x) ?live" using False pg(1) by (intro page_rep_frame [OF r]) auto
    then show ?thesis using False by simp
  qed
  have slab: "PageSlab (pages st' x) = PageSlab (pages st x)" for x
    using pg(1,2) lb(2) by (cases "x = sp") auto
  show "slob_pages st' (FB(sp := bs')) ?live"
    unfolding slob_pages_def
  proof (intro conjI allI impI)
    fix x assume x: "PageSlab (pages st' x)"
    show "page_rep st' x ((FB(sp := bs')) x) ?live" using rep [OF x] .
    show "frames st' x = Some 0" "1 \<le> x" "2048 * x + 6144 \<le> 2 ^ 31"
      using x slab p pg(4) by (simp_all add: slob_pages_def)
  next
    fix x assume "PageSlobFree (pages st' x)"
    then show "PageSlab (pages st' x)" using p pg(1,2) slab by (cases "x = sp") (auto simp: slob_pages_def)
  next
    fix c n assume "?live c = Some n"
    then show "PageSlab (pages st' (c div 2048))" using p slab by (auto simp: slob_pages_def split: if_splits)
  qed (rule live_disjoint_remove [OF ld])
qed

text \<open>The last block of a page: the page goes back to the page allocator.\<close>

lemma last_block:
  assumes p: "slob_pages st FB live" and b: "live b = Some u"
    and full: "sum_units (FB (b div 2048)) + u = 2048"
  shows "live_units live (b div 2048) = {b..<b + u}"
proof -
  let ?sp = "b div 2048"
  note lb = live_block [OF p b]
  have sub: "{b..<b + u} \<subseteq> live_units live ?sp" using b unfolding live_units_def by blast
  have eq: "units_of (FB ?sp) \<union> live_units live ?sp = page_units ?sp"
    and dj: "units_of (FB ?sp) \<inter> live_units live ?sp = {}" and pf: "page_fl (mem st) (2048 * ?sp) (FB ?sp)"
    using lb(4) by (auto simp: page_rep_def)
  have fu: "finite (units_of (FB ?sp))" "card (units_of (FB ?sp)) = sum_units (FB ?sp)"
    using card_units_of pf unfolding page_fl_def by blast+
  have fl: "finite (live_units live ?sp)" using eq by (metis finite_Un finite_atLeastLessThan page_units_def)
  have "card (units_of (FB ?sp)) + card (live_units live ?sp) = 2048"
    using card_Un_disjoint [OF fu(1) fl dj] eq by (simp add: page_units_def)
  then have "card (live_units live ?sp) = card {b..<b + u}" using fu(2) full by simp
  with card_subset_eq [OF fl sub] show ?thesis by simp
qed

lemma slob_pages_return:
  assumes p: "slob_pages st FB live" and b: "live b = Some u" and sp: "sp = b div 2048"
    and full: "sum_units (FB sp) + u = 2048"
    and pg: "\<forall>x. x \<noteq> sp \<longrightarrow> pages st' x = pages st x" "\<not> PageSlab (pages st' sp)" "\<not> PageSlobFree (pages st' sp)"
      "\<forall>x. x \<noteq> sp \<longrightarrow> frames st' x = frames st x" and m: "mem st' = mem st"
  shows "slob_pages st' FB (live(b := None))"
proof -
  let ?live = "live(b := None)"
  have ld: "live_disjoint live" using p by (simp add: slob_pages_def)
  have lu: "live_units live sp = {b..<b + u}" using last_block [OF p b] full sp by simp
  have rep: "page_rep st' x (FB x) ?live" if x: "PageSlab (pages st' x)" for x
  proof -
    have ne: "x \<noteq> sp" using x pg(2) by auto
    have r: "page_rep st x (FB x) live" using p x ne pg(1) by (simp add: slob_pages_def)
    have "live_units ?live x = live_units live x"
      unfolding live_units_remove [OF ld b] using ne sp by simp
    then show ?thesis using ne pg(1) m by (intro page_rep_frame [OF r]) auto
  qed
  show ?thesis
    unfolding slob_pages_def
  proof (intro conjI allI impI)
    fix x assume x: "PageSlab (pages st' x)"
    show "page_rep st' x (FB x) ?live" using rep [OF x] .
    have "x \<noteq> sp" using x pg(2) by auto
    with x p pg(1,4) show "frames st' x = Some 0" "1 \<le> x" "2048 * x + 6144 \<le> 2 ^ 31"
      by (simp_all add: slob_pages_def)
  next
    fix x assume "PageSlobFree (pages st' x)"
    then show "PageSlab (pages st' x)" using p pg(1,3) by (cases "x = sp") (auto simp: slob_pages_def)
  next
    fix c n assume "?live c = Some n"
    then have c: "c \<noteq> b" "live c = Some n" by (auto split: if_splits)
    have "c div 2048 \<noteq> sp"
    proof
      assume "c div 2048 = sp"
      then have "{c..<c + n} \<subseteq> {b..<b + u}" unfolding lu [symmetric] using c(2) unfolding live_units_def by blast
      moreover have "{b..<b + u} \<inter> {c..<c + n} = {}" "1 \<le> n" using ld b c unfolding live_disjoint_def by blast+
      ultimately show False by auto
    qed
    then show "PageSlab (pages st' (c div 2048))" using p c(2) pg(1) by (simp add: slob_pages_def)
  qed (rule live_disjoint_remove [OF ld])
qed


definition free_post :: "slob_sys \<Rightarrow> live_map \<Rightarrow> nat \<Rightarrow> slob_sys \<Rightarrow> bool" where
  "free_post st live b st' \<longleftrightarrow>
     slob_ok st' (live(b := None)) \<and>
     (\<forall>x. x div 2 \<in> live_set (live(b := None)) \<longrightarrow> mem st' x = mem st x) \<and>
     (mem_claimed st' = mem_claimed st \<and> slab_set st' = slab_set st \<or>
      mem_claimed st' = s32 (mem_claimed st - 4096) \<and>
      (\<exists>sp \<in> slab_set st. slab_set st' = slab_set st - {sp}))"

lemma slob_free_return:
  assumes p: "slob_pages st FB live" and s: "slob_lists st A" and b: "live b = Some u" and sp: "sp = b div 2048"
    and full: "sum_units (FB sp) + u = 2048"
  defines "st1 \<equiv> st\<lparr>mem_claimed := s32 (mem_claimed st - int PAGE_SIZE)\<rparr>"
  defines "st2 \<equiv> (if slob_page_free st1 sp then clear_slob_page_free st1 sp else st1)"
  defines "st3 \<equiv> slob_free_pages (free_slob_page (clear_slob_page st2 sp) sp) (2 * b) 0"
  shows "free_post st live b st3" "mem_used st3 = mem_used st"
proof -
  have spb: "slob_page_of (2 * b) = sp" using sp by (simp add: slob_page_of_def PAGE_SIZE_def)
  have fields: "mem st3 = mem st" "\<forall>x. x \<noteq> sp \<longrightarrow> pages st3 x = pages st x" "\<not> PageSlab (pages st3 sp)"
    "\<not> PageSlobFree (pages st3 sp)" "frames st3 = (frames st)(sp := None)" "mem_used st3 = mem_used st"
    "mem_claimed st3 = s32 (mem_claimed st - 4096)"
    "lists st3 = (if PageSlobFree (pages st sp) then list_del (lists st) (Node (page_list sp)) else lists st)"
    using spb unfolding st3_def st2_def st1_def
    by (simp_all add: slob_free_pages_def free_slob_page_def clear_slob_page_def clear_slob_page_free_def
        slob_page_free_def upd_page_def Let_def slob_page_of_def PAGE_SIZE_def)
  show "mem_used st3 = mem_used st" by (rule fields)
  have pages: "slob_pages st3 FB (live(b := None))"
    using fields by (intro slob_pages_return [OF p b sp full]) auto
  have "\<exists>A'. slob_lists st3 A'"
  proof (cases "PageSlobFree (pages st sp)")
    case True
    then obtain hp zs where "A hp = Some zs" "Node (page_list sp) \<in> set zs"
      using s unfolding slob_lists_def on_list_def by blast
    then obtain xs ys where l: "A hp = Some (xs @ Node (page_list sp) # ys)" by (metis split_list)
    have f: "fam (lists st) A" using s by (simp add: slob_lists_def)
    have "fam (lists st3) (A(hp \<mapsto> xs @ ys))" using fam_list_del [OF f l] fields(8) True by simp
    moreover have mem_free: "PageSlobFree (pages st x)" if "Node (page_list x) \<in> set (xs @ ys)" for x
      using s l that unfolding slob_lists_def on_list_def by fastforce
    moreover have notin: "Node (page_list sp) \<notin> set (xs @ ys)" using fam_distinct [OF f l] by auto
    moreover have "\<exists>sp. y = Node (page_list sp)" if "y \<in> set (xs @ ys)" for y
      using s l that unfolding slob_lists_def by fastforce
    ultimately have "slob_lists st3 (A(hp \<mapsto> xs @ ys))"
    proof (intro slob_lists_set [OF s l])
      show "\<forall>x. PageSlobFree (pages st3 x) \<longleftrightarrow> Node (page_list x) \<in> set (xs @ ys) \<or>
         (PageSlobFree (pages st x) \<and> Node (page_list x) \<notin> set (xs @ Node (page_list sp) # ys))"
      proof
        fix x show "PageSlobFree (pages st3 x) \<longleftrightarrow> Node (page_list x) \<in> set (xs @ ys) \<or>
           (PageSlobFree (pages st x) \<and> Node (page_list x) \<notin> set (xs @ Node (page_list sp) # ys))"
          using fields(2,4) mem_free [of x] notin by (cases "x = sp") auto
      qed
    qed auto
    then show ?thesis by blast
  next
    case False
    have "PageSlobFree (pages st3 x) = PageSlobFree (pages st x)" for x
      using fields(2,4) False by (cases "x = sp") auto
    then have "slob_lists st3 A" using s fields(8) False by (simp add: slob_lists_def)
    then show ?thesis by blast
  qed
  with pages have ok: "slob_ok st3 (live(b := None))" unfolding slob_ok_def by blast
  have "sp \<in> slab_set st" using live_block(2) [OF p b] sp by (simp add: slab_set_def)
  moreover have "slab_set st3 = slab_set st - {sp}"
  proof -
    have "PageSlab (pages st3 x) \<longleftrightarrow> x \<noteq> sp \<and> PageSlab (pages st x)" for x
      using fields(2,3) by (cases "x = sp") auto
    then show ?thesis by (auto simp: slab_set_def)
  qed
  ultimately show "free_post st live b st3" using ok fields(1,7) unfolding free_post_def by auto
qed

lemma slob_free_first:
  assumes p: "slob_pages st FB live" and s: "slob_lists st A" and b: "live b = Some u" and sp: "sp = b div 2048"
    and full: "\<not> PageSlobFree (pages st sp)" and l: "A (Node l) = Some xs"
  defines "st1 \<equiv> upd_page st sp (\<lambda>p. p\<lparr>units := int u, free := b\<rparr>)"
  defines "st2 \<equiv> st1\<lparr>mem := set_slob (mem st1) b (int u) (page_mask (2 * (b + SLOB_UNITS PAGE_SIZE)) div 2)\<rparr>"
  defines "st3 \<equiv> set_slob_page_free st2 sp l"
  shows "free_post st live b st3" "mem_used st3 = mem_used st"
proof -
  let ?B = "2048 * sp"
  note lb = live_block [OF p b, folded sp]
  have FB: "FB sp = []" using lb(4) full by (simp add: page_rep_def)
  have in_page: "?B \<le> b" "b + u \<le> ?B + 2048"
  proof -
    have "b \<in> page_units sp" "b + u - 1 \<in> page_units sp" using lb(1,3) by auto
    then show "?B \<le> b" "b + u \<le> ?B + 2048" using lb(1) by (auto simp: page_units_def)
  qed
  have base: "slob_base b = ?B" using slob_base_in [of ?B b] in_page lb(1) by simp
  have nx: "page_mask (2 * (b + SLOB_UNITS PAGE_SIZE)) div 2 = ?B + 2048"
    using slob_base_in [of "?B + 2048" "b + 2048"] in_page lb(1) by (simp add: slob_base_def)
  have fields: "mem st3 = set_slob (mem st) b (int u) (?B + 2048)"
    "pages st3 = (pages st)(sp := (pages st sp)\<lparr>units := int u, free := b, PageSlobFree := True\<rparr>)"
    "lists st3 = list_add (lists st) (Node (page_list sp)) (Node l)"
    "frames st3 = frames st" "mem_used st3 = mem_used st" "mem_claimed st3 = mem_claimed st"
    unfolding st3_def st2_def st1_def nx by (simp_all add: upd_page_def set_slob_page_free_def)
  show "mem_used st3 = mem_used st" by (rule fields)
  have u: "u \<le> 2048" using in_page by simp
  have pok: "page_ok st3 sp [(b, u)]"
    using block_at_set_slob [of u b "?B + 2048" "mem st"] base lb(1) in_page u
    by (simp add: page_ok_def page_fl_def fields)
  have slab: "PageSlab (pages st3 sp)" using lb(2) by (simp add: fields)
  have out: "\<forall>x. x div 2 \<notin> units_of (FB sp) \<union> {b..<b + u} \<longrightarrow> mem st3 x = mem st x"
    unfolding fields(1) FB using set_slob_frame [OF lb(1) u] by simp
  note rel = slob_pages_release [OF p b sp pok _ _ slab _ fields(4) out]
  have f: "fam (lists st) A" and dom: "dom A = slob_heads" using s by (auto simp: slob_lists_def)
  let ?n = "Node (page_list sp)"
  have An: "A ?n = None" using dom by (auto simp: slob_heads_def dom_def)
  have nin: "?n \<notin> nodes A UNIV"
    using full s An unfolding slob_lists_def on_list_def nodes_def by (auto split: option.splits)
  have nl: "?n \<noteq> Node l" using An l by auto
  have "fam (lists st3) (A(?n := None, Node l \<mapsto> ?n # xs))"
    unfolding fields(3) using looseI_absent [OF nin] nl by (intro fam_list_add [OF f l]) auto
  then have fm: "fam (lists st3) (A(Node l \<mapsto> ?n # xs))" using An by (simp add: fun_upd_idem)
  have "PageSlobFree (pages st x)" if "Node (page_list x) \<in> set xs" for x
    using s l that unfolding slob_lists_def on_list_def by blast
  then have "slob_lists st3 (A(Node l \<mapsto> ?n # xs))"
    using s l fm by (intro slob_lists_set [OF s l]) (auto simp: fields slob_lists_def)
  with rel have "slob_ok st3 (live(b := None))" unfolding slob_ok_def FB by (auto simp: fields)
  moreover have "slab_set st3 = slab_set st" by (auto simp: slab_set_def fields)
  ultimately show "free_post st live b st3"
    using rel(2) unfolding free_post_def FB by (auto simp: fields)
qed

lemma slob_free_partial:
  assumes p: "slob_pages st FB live" and s: "slob_lists st A" and b: "live b = Some u" and sp: "sp = b div 2048"
    and fr: "PageSlobFree (pages st sp)"
  obtains st' where "slob_free_insert st sp b (int u) = Some st'" "free_post st live b st'"
    "mem_used st' = mem_used st"
proof -
  note lb = live_block [OF p b, folded sp]
  note fp = slob_pages_free_page [OF p fr]
  have in_page: "2048 * sp \<le> b" "b + u \<le> 2048 * sp + 2048"
  proof -
    have "b \<in> page_units sp" "b + u - 1 \<in> page_units sp" using lb(1,3) by auto
    then show "2048 * sp \<le> b" "b + u \<le> 2048 * sp + 2048" using lb(1) by (auto simp: page_units_def)
  qed
  have "{b..<b + u} \<subseteq> live_set live" using live_setI [of live b u] b by blast
  then have dj: "{b..<b + u} \<inter> units_of (FB sp) = {}" using free_live_disjoint [OF p fp(1)] by blast
  from slob_free_insert_spec [OF fp(3) lb(1) in_page dj] obtain st' bs' where
    a: "slob_free_insert st sp b (int u) = Some st'" "page_ok st' sp bs'"
      "units_of bs' = units_of (FB sp) \<union> {b..<b + u}" "page_frame st st' sp (units_of (FB sp) \<union> {b..<b + u})" .
  have more: "mem_used st' = mem_used st" "mem_claimed st' = mem_claimed st" "frames st' = frames st"
    using a(4) sys_more_eq [of st' st] by (auto simp: page_frame_def)
  have pg: "\<forall>x. x \<noteq> sp \<longrightarrow> pages st' x = pages st x" "PageSlab (pages st' sp)" "PageSlobFree (pages st' sp)"
    "\<forall>x. x div 2 \<notin> units_of (FB sp) \<union> {b..<b + u} \<longrightarrow> mem st' x = mem st x"
    using a(4) fp(1) fr by (auto simp: page_frame_def)
  note rel = slob_pages_release [OF p b sp a(2,3) pg(1-3) more(3) pg(4)]
  have "PageSlobFree (pages st' x) = PageSlobFree (pages st x)"
    "PageSlab (pages st' x) = PageSlab (pages st x)" for x
    using pg fr fp(1) by (cases "x = sp"; simp)+
  then have "slob_lists st' A" "slab_set st' = slab_set st"
    using s a(4) by (simp_all add: slob_lists_def page_frame_def slab_set_def)
  with rel more(2) have "free_post st live b st'" unfolding free_post_def slob_ok_def by blast
  with a(1) more(1) show thesis using that by blast
qed

lemma slob_free_spec:
  assumes ok: "slob_ok st live" and b: "live b = Some (SLOB_UNITS sz)" and sz: "1 \<le> sz" "sz \<le> 4096"
  obtains st' where "slob_free st (2 * b) (int sz) = Inr st'" "free_post st live b st'"
    "mem_used st' = s32 (mem_used st - int sz)"
proof -
  let ?u = "SLOB_UNITS sz"
  obtain A FB where s: "slob_lists st A" and p: "slob_pages st FB live"
    using ok unfolding slob_ok_def by blast
  define sp where "sp = b div 2048"
  define st0 where "st0 = st\<lparr>mem_used := s32 (mem_used st - int sz)\<rparr>"
  have s0: "slob_lists st0 A" and p0: "slob_pages st0 FB live"
    using slob_lists_cong [OF s, of st0] slob_pages_cong [OF p, of st0] by (simp_all add: st0_def)
  have post0: "free_post st live b st'" if "free_post st0 live b st'" for st'
    using that by (simp add: free_post_def st0_def slab_set_def)
  note lb = live_block [OF p0 b, folded sp_def]
  have "1 \<le> sp" using p0 lb(2) by (simp add: slob_pages_def)
  then have nz: "\<not> ZERO_OR_NULL_PTR (2 * b)" by (simp add: ZERO_OR_NULL_PTR_def ZERO_SIZE_PTR_def sp_def)
  have uu: "?u \<le> 2048" using sz by (simp add: SLOB_UNITS_eq)
  have spo: "slob_page_of (2 * b) = sp" by (simp add: sp_def slob_page_of_def PAGE_SIZE_def)
  have us: "s16 (int (SLOB_UNITS (nat (u32 (int sz))))) = int ?u" using sz uu by (simp add: u32_id s16_id)
  have un: "units (pages st sp) = int (sum_units (FB sp))" "sum_units (FB sp) \<le> 2048"
    using lb(4) page_fl_sum by (auto simp: page_rep_def st0_def)
  have cond: "u32 (units (pages st0 sp) + int ?u) = int (SLOB_UNITS PAGE_SIZE) \<longleftrightarrow> sum_units (FB sp) + ?u = 2048"
    using un uu by (simp add: u32_id st0_def flip: of_nat_add)
  have code: "slob_free st (2 * b) (int sz) =
     (if sum_units (FB sp) + ?u = 2048
      then (let st = st0\<lparr>mem_claimed := s32 (mem_claimed st0 - int PAGE_SIZE)\<rparr>;
                st = (if slob_page_free st sp then clear_slob_page_free st sp else st);
                st = clear_slob_page st sp;
                st = free_slob_page st sp
            in Inr (slob_free_pages st (2 * b) 0))
      else if \<not> slob_page_free st0 sp
      then (let st = upd_page st0 sp (\<lambda>p. p\<lparr>units := int ?u, free := b\<rparr>);
                st = st\<lparr>mem := set_slob (mem st) b (int ?u) (page_mask (2 * (b + SLOB_UNITS PAGE_SIZE)) div 2)\<rparr>
            in Inr (set_slob_page_free st sp (slob_list_of (nat (int sz)))))
      else run_of_loop (slob_free_insert st0 sp b (int ?u)))"
    unfolding slob_free_def Let_def us spo st0_def [symmetric] cond using nz sz by simp
  consider (return) "sum_units (FB sp) + ?u = 2048"
    | (first) "sum_units (FB sp) + ?u \<noteq> 2048" "\<not> PageSlobFree (pages st0 sp)"
    | (partial) "sum_units (FB sp) + ?u \<noteq> 2048" "PageSlobFree (pages st0 sp)" by blast
  then show thesis
  proof cases
    case return
    show thesis
      using slob_free_return [OF p0 s0 b sp_def return] return
      by (intro that [OF _ post0]) (auto simp: code Let_def st0_def)
  next
    case first
    have "dom A = slob_heads" using s by (simp add: slob_lists_def)
    then obtain xs where l: "A (Node (slob_list_of sz)) = Some xs" using slob_list_of_head by blast
    show thesis
      using slob_free_first [OF p0 s0 b sp_def first(2) l] first
      by (intro that [OF _ post0]) (auto simp: code Let_def st0_def slob_page_free_def)
  next
    case partial
    from slob_free_partial [OF p0 s0 b sp_def partial(2)] obtain st' where
      a: "slob_free_insert st0 sp b (int ?u) = Some st'" "free_post st0 live b st'"
        "mem_used st' = mem_used st0" by blast
    show thesis
      using a(1,3) partial by (intro that [OF _ post0 [OF a(2)]]) (simp_all add: code st0_def slob_page_free_def)
  qed
qed

end
