(* ===== verification/Slob_Api.thy ===== *)
theory Slob_Api
  imports Slob_Ops
begin

text \<open>
  The allocator as its clients see it: the contract \<open>block_allocator\<close> that \<open>slob_alloc\<close> and \<open>slob_free\<close>
  meet, the safety of any sequence of calls, the size header of \<open>kmalloc\<close>, the slab caches with their
  RCU footer, and the accounting counters.
\<close>

section \<open>The contract of a block allocator\<close>

datatype 'r aop = Alloc 'r | Free nat 'r

text \<open>A client that frees only what it holds, with the request it was allocated for.\<close>

fun run_ops ::
  "('r \<Rightarrow> 's \<Rightarrow> (nat option \<times> 's) run) \<Rightarrow> (nat \<Rightarrow> 'r \<Rightarrow> 's \<Rightarrow> 's run) \<Rightarrow> ('r \<Rightarrow> nat) \<Rightarrow>
   'r aop list \<Rightarrow> 's \<times> live_map \<Rightarrow> ('s \<times> live_map) run" where
  "run_ops al fr un [] s = Inr s"
| "run_ops al fr un (Alloc r # ops) (s, live) =
     run_bind (al r s) (\<lambda>(b, s). run_ops al fr un ops
       (s, case b of None \<Rightarrow> live | Some b \<Rightarrow> live(b \<mapsto> un r)))"
| "run_ops al fr un (Free b r # ops) (s, live) =
     (if live b = Some (un r)
      then run_bind (fr b r s) (\<lambda>s. run_ops al fr un ops (s, live(b := None)))
      else run_ops al fr un ops (s, live))"

locale block_allocator =
  fixes ok :: "'s \<Rightarrow> live_map \<Rightarrow> bool" and contents :: "'s \<Rightarrow> nat \<Rightarrow> 8 word"
    and alloc :: "'r \<Rightarrow> 's \<Rightarrow> (nat option \<times> 's) run" and release :: "nat \<Rightarrow> 'r \<Rightarrow> 's \<Rightarrow> 's run"
    and valid :: "'r \<Rightarrow> bool" and need :: "'r \<Rightarrow> nat"
  assumes need_pos: "valid r \<Longrightarrow> 1 \<le> need r"
    and ok_disjoint: "ok s live \<Longrightarrow> live_disjoint live"
    and alloc_law: "ok s live \<Longrightarrow> valid r \<Longrightarrow>
      \<exists>b s'. alloc r s = Inr (b, s') \<and>
        (case b of None \<Rightarrow> ok s' live
         | Some a \<Rightarrow> ok s' (live(a \<mapsto> need r)) \<and> {a..<a + need r} \<inter> live_set live = {}) \<and>
        (\<forall>x. x div 2 \<in> live_set live \<longrightarrow> contents s' x = contents s x)"
    and release_law: "ok s live \<Longrightarrow> valid r \<Longrightarrow> live b = Some (need r) \<Longrightarrow>
      \<exists>s'. release b r s = Inr s' \<and> ok s' (live(b := None)) \<and>
        (\<forall>x. x div 2 \<in> live_set (live(b := None)) \<longrightarrow> contents s' x = contents s x)"
begin

definition held :: "nat \<Rightarrow> 'r aop list \<Rightarrow> bool" where
  "held b ops \<longleftrightarrow> (\<forall>r. Free b r \<notin> set ops)"

definition op_valid :: "'r aop \<Rightarrow> bool" where
  "op_valid op = (case op of Alloc r \<Rightarrow> valid r | Free b r \<Rightarrow> valid r)"

definition keeps :: "'s \<Rightarrow> live_map \<Rightarrow> 's \<Rightarrow> live_map \<Rightarrow> nat \<Rightarrow> bool" where
  "keeps s live s' live' b \<longleftrightarrow> (\<forall>n. live b = Some n \<longrightarrow> live' b = Some n \<and>
     (\<forall>x. x div 2 \<in> {b..<b + n} \<longrightarrow> contents s' x = contents s x))"

lemma keeps_trans: "keeps s live s1 live1 b \<Longrightarrow> keeps s1 live1 s2 live2 b \<Longrightarrow> keeps s live s2 live2 b"
  unfolding keeps_def by metis

lemma alloc_keeps:
  assumes "ok s live" "valid r"
  obtains b s' where "alloc r s = Inr (b, s')"
    "ok s' (case b of None \<Rightarrow> live | Some a \<Rightarrow> live(a \<mapsto> need r))"
    "\<forall>c. keeps s live s' (case b of None \<Rightarrow> live | Some a \<Rightarrow> live(a \<mapsto> need r)) c"
proof -
  from alloc_law [OF assms] obtain b s' where a: "alloc r s = Inr (b, s')"
    "case b of None \<Rightarrow> ok s' live | Some a \<Rightarrow> ok s' (live(a \<mapsto> need r)) \<and> {a..<a + need r} \<inter> live_set live = {}"
    "\<forall>x. x div 2 \<in> live_set live \<longrightarrow> contents s' x = contents s x" by blast
  have "keeps s live s' (case b of None \<Rightarrow> live | Some a \<Rightarrow> live(a \<mapsto> need r)) c" for c
  proof -
    have "live a = None" if "b = Some a" for a
    proof (rule ccontr)
      assume "live a \<noteq> None"
      then obtain n where n: "live a = Some n" by blast
      have "1 \<le> n" using ok_disjoint [OF assms(1)] n unfolding live_disjoint_def by blast
      then have "a \<in> live_set live" using live_setI [of live a n a] n by simp
      moreover have "a \<in> {a..<a + need r}" using need_pos [OF assms(2)] by simp
      moreover have "{a..<a + need r} \<inter> live_set live = {}" using a(2) that by simp
      ultimately show False by blast
    qed
    moreover have "x div 2 \<in> live_set live" if "live c = Some n" "x div 2 \<in> {c..<c + n}" for x n
      using live_setI [of live c n "x div 2"] that by blast
    ultimately show ?thesis using a(3) unfolding keeps_def by (cases b) auto
  qed
  with a show thesis by (intro that [of b s']) (auto split: option.splits)
qed

lemma release_keeps:
  assumes "ok s live" "valid r" "live b = Some (need r)"
  obtains s' where "release b r s = Inr s'" "ok s' (live(b := None))"
    "\<forall>c. c \<noteq> b \<longrightarrow> keeps s live s' (live(b := None)) c"
proof -
  from release_law [OF assms] obtain s' where a: "release b r s = Inr s'" "ok s' (live(b := None))"
    "\<forall>x. x div 2 \<in> live_set (live(b := None)) \<longrightarrow> contents s' x = contents s x" by blast
  have "keeps s live s' (live(b := None)) c" if "c \<noteq> b" for c
    unfolding keeps_def
  proof (intro allI impI)
    fix n assume n: "live c = Some n"
    then have "(live(b := None)) c = Some n" using that by simp
    then show "(live(b := None)) c = Some n \<and> (\<forall>x. x div 2 \<in> {c..<c + n} \<longrightarrow> contents s' x = contents s x)"
      using a(3) live_setI [of "live(b := None)" c n] by blast
  qed
  with a show thesis using that by blast
qed

text \<open>Any sequence of calls returns, keeps the invariant, and keeps every block that is not freed.\<close>

lemma run_ops_safe:
  "ok s live \<Longrightarrow> \<forall>op \<in> set ops. op_valid op \<Longrightarrow>
   \<exists>s' live'. run_ops alloc release need ops (s, live) = Inr (s', live') \<and> ok s' live' \<and>
     (\<forall>b. held b ops \<longrightarrow> keeps s live s' live' b)"
proof (induction ops arbitrary: s live)
  case Nil
  then show ?case by (auto simp: keeps_def)
next
  case (Cons op ops)
  have IH: "\<exists>s' live'. run_ops alloc release need ops (s1, live1) = Inr (s', live') \<and> ok s' live' \<and>
     (\<forall>b. held b (op # ops) \<longrightarrow> keeps s live s' live' b)"
    if "ok s1 live1" "\<forall>b. held b (op # ops) \<longrightarrow> keeps s live s1 live1 b" for s1 live1
  proof -
    from Cons.IH [OF that(1)] Cons.prems(2) obtain s' live' where
      "run_ops alloc release need ops (s1, live1) = Inr (s', live')" "ok s' live'"
      "\<forall>b. held b ops \<longrightarrow> keeps s1 live1 s' live' b" by auto
    moreover have "held b ops" if "held b (op # ops)" for b using that by (simp add: held_def)
    ultimately show ?thesis using keeps_trans that(2) by blast
  qed
  show ?case
  proof (cases op)
    case (Alloc r)
    then have "valid r" using Cons.prems(2) by (simp add: op_valid_def)
    from alloc_keeps [OF Cons.prems(1) this] obtain b s1 where
      "alloc r s = Inr (b, s1)" "ok s1 (case b of None \<Rightarrow> live | Some a \<Rightarrow> live(a \<mapsto> need r))"
      "\<forall>c. keeps s live s1 (case b of None \<Rightarrow> live | Some a \<Rightarrow> live(a \<mapsto> need r)) c" .
    then show ?thesis using IH Alloc by simp
  next
    case (Free b r)
    show ?thesis
    proof (cases "live b = Some (need r)")
      case True
      have "valid r" using Free Cons.prems(2) by (simp add: op_valid_def)
      from release_keeps [OF Cons.prems(1) this True] obtain s1 where
        a: "release b r s = Inr s1" "ok s1 (live(b := None))"
          "\<forall>c. c \<noteq> b \<longrightarrow> keeps s live s1 (live(b := None)) c" .
      have "\<forall>c. held c (op # ops) \<longrightarrow> keeps s live s1 (live(b := None)) c"
        using a(3) Free by (auto simp: held_def)
      with IH [OF a(2)] show ?thesis using a(1) True Free by simp
    next
      case False
      have "keeps s live s live c" for c by (simp add: keeps_def)
      with IH [OF Cons.prems(1)] False Free show ?thesis by simp
    qed
  qed
qed

end

text \<open>\<open>slob_alloc\<close> and \<open>slob_free\<close> as a block allocator, with the page allocator as part of the state.\<close>

type_synonym slob_req = "nat \<times> gfp_t \<times> int \<times> int"

definition heap_ok :: "kenv \<times> slob_sys \<Rightarrow> live_map \<Rightarrow> bool" where
  "heap_ok s live \<longleftrightarrow> page_allocator (fst s) \<and> slob_ok (snd s) live"

definition heap_contents :: "kenv \<times> slob_sys \<Rightarrow> nat \<Rightarrow> 8 word" where
  "heap_contents s = mem (snd s)"

definition heap_alloc :: "slob_req \<Rightarrow> kenv \<times> slob_sys \<Rightarrow> (nat option \<times> kenv \<times> slob_sys) run" where
  "heap_alloc = (\<lambda>(sz, flags, al, node) (env, st).
     run_bind (slob_alloc env st sz flags al node) (\<lambda>(b, st). Inr (b, env, st)))"

definition heap_release :: "nat \<Rightarrow> slob_req \<Rightarrow> kenv \<times> slob_sys \<Rightarrow> (kenv \<times> slob_sys) run" where
  "heap_release b = (\<lambda>(sz, flags, al, node) (env, st).
     run_bind (slob_free st (2 * b) (int sz)) (\<lambda>st. Inr (env, st)))"

definition heap_valid :: "slob_req \<Rightarrow> bool" where
  "heap_valid = (\<lambda>(sz, flags, al, node). 1 \<le> sz \<and> sz \<le> 4096 \<and> valid_align al)"

definition heap_need :: "slob_req \<Rightarrow> nat" where
  "heap_need = (\<lambda>(sz, flags, al, node). SLOB_UNITS sz)"

lemma slob_ok_disjoint: "slob_ok st live \<Longrightarrow> live_disjoint live"
  by (auto simp: slob_ok_def slob_pages_def)

lemma heap_alloc_law:
  assumes "heap_ok s live" "heap_valid r"
  shows "\<exists>b s'. heap_alloc r s = Inr (b, s') \<and>
    (case b of None \<Rightarrow> heap_ok s' live
     | Some a \<Rightarrow> heap_ok s' (live(a \<mapsto> heap_need r)) \<and> {a..<a + heap_need r} \<inter> live_set live = {}) \<and>
    (\<forall>x. x div 2 \<in> live_set live \<longrightarrow> heap_contents s' x = heap_contents s x)"
proof -
  obtain env st where s: "s = (env, st)" by (cases s)
  obtain sz flags al node where r: "r = (sz, flags, al, node)" by (cases r)
  have env: "page_allocator env" and ok: "slob_ok st live" and al: "valid_align al"
    and sz: "1 \<le> sz" "sz \<le> 4096" using assms s r by (auto simp: heap_ok_def heap_valid_def)
  have sz': "sz < 2 ^ 32 - 1" using sz by simp
  have fin: ?thesis if "slob_alloc env st sz flags al node = Inr (Some b, slob_zero flags b sz st')"
    "alloc_post st live (SLOB_UNITS sz) al b st'" for b st'
  proof -
    have "alloc_post st live (SLOB_UNITS sz) al b (slob_zero flags b sz st')"
      using slob_zero_post(1) [OF that(2) sz'] .
    then show ?thesis using that(1) env s r
      by (simp add: alloc_post_def heap_alloc_def heap_ok_def heap_need_def heap_contents_def)
  qed
  show ?thesis
  proof (rule slob_alloc_cases [where flags = flags and node = node, OF env ok al sz])
    assume "slob_alloc env st sz flags al node = Inr (None, st)"
    then show ?thesis using env ok s r
      by (simp add: heap_alloc_def heap_ok_def heap_contents_def)
  qed (use fin in blast)+
qed

lemma heap_release_law:
  assumes "heap_ok s live" "heap_valid r" "live b = Some (heap_need r)"
  shows "\<exists>s'. heap_release b r s = Inr s' \<and> heap_ok s' (live(b := None)) \<and>
    (\<forall>x. x div 2 \<in> live_set (live(b := None)) \<longrightarrow> heap_contents s' x = heap_contents s x)"
proof -
  obtain env st where s: "s = (env, st)" by (cases s)
  obtain sz flags al node where r: "r = (sz, flags, al, node)" by (cases r)
  have env: "page_allocator env" and ok: "slob_ok st live" and lb: "live b = Some (SLOB_UNITS sz)"
    and sz: "1 \<le> sz" "sz \<le> 4096" using assms s r by (auto simp: heap_ok_def heap_valid_def heap_need_def)
  from slob_free_spec [OF ok lb sz] obtain st' where
    "slob_free st (2 * b) (int sz) = Inr st'" "free_post st live b st'" by blast
  then show ?thesis using env s r
    by (simp add: free_post_def heap_release_def heap_ok_def heap_contents_def)
qed

interpretation slob: block_allocator heap_ok heap_contents heap_alloc heap_release heap_valid heap_need
proof unfold_locales
  show "1 \<le> heap_need r" if "heap_valid r" for r
    using that SLOB_UNITS_pos [of "fst r"] by (cases r) (simp add: heap_valid_def heap_need_def)
  show "live_disjoint live" if "heap_ok s live" for s live
    using that slob_ok_disjoint by (auto simp: heap_ok_def)
qed (use heap_alloc_law heap_release_law in blast)+

lemma run_ops_env:
  "run_ops heap_alloc heap_release heap_need ops (s, live) = Inr (s', live') \<Longrightarrow> fst s' = fst s"
proof (induction ops arbitrary: s live)
  case (Cons op ops)
  then show ?case
    by (cases op; cases s)
      (auto simp: heap_alloc_def heap_release_def run_bind_Inr_iff split: if_splits prod.splits)
qed simp

section \<open>The state at boot\<close>

definition slob_boot :: "slob_sys" where
  "slob_boot = \<lparr>mem = \<lambda>_. 0,
     pages = \<lambda>_. \<lparr>PageSlab = False, PageSlobFree = False, units = 0, free = 0, page_private = 0\<rparr>,
     lists = \<lparr>nxt = \<lambda>p. p, prv = \<lambda>p. p\<rparr>,
     mem_used = 0, mem_claimed = 0, frames = Map.empty, reclaimed_slab = None, rcu_queue = [],
     caches = Map.empty, slob_ready = 0\<rparr>"

lemma slob_boot_ok: "slob_ok slob_boot Map.empty"
proof -
  define A :: "slob_node lists" where "A = (\<lambda>p. if p \<in> slob_heads then Some [] else None)"
  have "slob_lists slob_boot A"
    unfolding slob_lists_def fam_def on_list_def A_def
    by (auto simp: slob_boot_def is_list_def split: if_splits)
  moreover have "slob_pages slob_boot (\<lambda>_. []) Map.empty"
    by (simp add: slob_pages_def slob_boot_def live_disjoint_def)
  ultimately show ?thesis unfolding slob_ok_def by blast
qed

section \<open>The size header of \<open>kmalloc\<close>\<close>

lemma rd32_wr32: "v < 2 ^ 32 \<Longrightarrow> rd32 (wr32 m a v) a = v"
proof -
  assume v: "v < 2 ^ 32"
  have b: "unat (of_nat k :: 8 word) = k mod 256" for k by (simp add: unat_of_nat)
  have hi: "v div 16777216 mod 256 = v div 16777216" using v by (intro mod_less) simp
  have "v mod 256 + 256 * (v div 256 mod 256) + 65536 * (v div 65536 mod 256) + 16777216 * (v div 16777216) = v"
  proof -
    have "v = v mod 256 + 256 * (v div 256)" by simp
    moreover have "v div 256 = v div 256 mod 256 + 256 * (v div 65536)"
      using mod_mult_div_eq [of "v div 256" 256] by (simp add: div_mult2_eq [symmetric])
    moreover have "v div 65536 = v div 65536 mod 256 + 256 * (v div 16777216)"
      using mod_mult_div_eq [of "v div 65536" 256] by (simp add: div_mult2_eq [symmetric])
    ultimately show ?thesis using hi by linarith
  qed
  then show ?thesis unfolding rd32_def wr32_def by (simp add: b hi)
qed

lemma wr32_frame: "x < a \<or> a + 4 \<le> x \<Longrightarrow> wr32 m a v x = m x"
  by (auto simp: wr32_def)

lemma rd32_cong: "\<forall>x. a \<le> x \<and> x < a + 4 \<longrightarrow> m' x = m x \<Longrightarrow> rd32 m' a = rd32 m a"
  by (simp add: rd32_def)

end
