(* ===== verification/Slob_Kmalloc.thy ===== *)
theory Slob_Kmalloc
  imports Slob_Api
begin

text \<open>
  \<open>kmalloc\<close>, \<open>kfree\<close> and \<open>ksize\<close>, the slab caches with deferred freeing, and the two counters. The map
  \<open>K\<close> records what \<open>kmalloc\<close> has handed out below the page size: pointer to requested size. Its
  invariant ties every entry to a live block and to the size stored in front of the pointer.
\<close>

section \<open>Orders of page blocks\<close>

lemma order_loop_spec:
  "n div 2 ^ (order_loop n k - k + 1) = 0 \<and> k \<le> order_loop n k \<and>
   (\<forall>j < order_loop n k - k. n div 2 ^ (j + 1) \<noteq> 0)"
proof (induction n k rule: order_loop.induct)
  case (1 n k)
  show ?case
  proof (cases "n div 2 = 0")
    case True
    then show ?thesis by (subst (1 2 3) order_loop.simps) simp
  next
    case False
    let ?r = "order_loop (n div 2) (k + 1)"
    have r: "order_loop n k = ?r" using False by (subst order_loop.simps) (simp add: Let_def)
    have IH: "n div 2 div 2 ^ (?r - (k + 1) + 1) = 0" "k + 1 \<le> ?r"
      "\<forall>j < ?r - (k + 1). n div 2 div 2 ^ (j + 1) \<noteq> 0"
      using "1.IH" [OF refl False] by auto
    have e: "?r - k = Suc (?r - (k + 1))" using IH(2) by simp
    have "n div 2 ^ (?r - k + 1) = 0"
      using IH(1) unfolding e by (simp add: div_mult2_eq [symmetric])
    moreover have "n div 2 ^ (j + 1) \<noteq> 0" if "j < ?r - k" for j
    proof (cases j)
      case 0
      then show ?thesis using False by simp
    next
      case (Suc i)
      then have "n div 2 div 2 ^ (i + 1) \<noteq> 0" using IH(3) that e by simp
      then show ?thesis using Suc by (simp add: div_mult2_eq [symmetric])
    qed
    ultimately show ?thesis using r IH(2) by simp
  qed
qed

lemma get_order_spec:
  assumes "1 \<le> sz" "sz \<le> 2 ^ 32"
  shows "sz \<le> 4096 * 2 ^ get_order sz" "get_order sz \<noteq> 0 \<longrightarrow> 4096 * 2 ^ (get_order sz - 1) < sz"
proof -
  define n where "n = (sz - 1) div 2 ^ 11"
  have g: "get_order sz = order_loop n 0"
    using assms by (simp add: get_order_def n_def u32_id of_nat_diff nat_diff_distrib)
  have z: "n div 2 ^ (get_order sz + 1) = 0" and nz: "\<forall>j < get_order sz. n div 2 ^ (j + 1) \<noteq> 0"
    using order_loop_spec [of n 0] unfolding g by auto
  have dd: "n div 2 ^ (j + 1) = (sz - 1) div (4096 * 2 ^ j)" for j
    unfolding n_def div_mult2_eq [symmetric] by (simp add: algebra_simps)
  from z show "sz \<le> 4096 * 2 ^ get_order sz" unfolding dd using assms(1) by (auto simp: div_eq_0_iff)
  show "get_order sz \<noteq> 0 \<longrightarrow> 4096 * 2 ^ (get_order sz - 1) < sz"
  proof
    assume "get_order sz \<noteq> 0"
    then have "n div 2 ^ (get_order sz - 1 + 1) \<noteq> 0"
      using nz [rule_format, of "get_order sz - 1"] by linarith
    then show "4096 * 2 ^ (get_order sz - 1) < sz" unfolding dd using assms(1) by (auto simp: div_eq_0_iff)
  qed
qed

section \<open>The \<open>kmalloc\<close> heap\<close>

definition kmalloc_ok :: "slob_sys \<Rightarrow> live_map \<Rightarrow> (nat \<rightharpoonup> nat) \<Rightarrow> bool" where
  "kmalloc_ok st live K \<longleftrightarrow>
     slob_ok st live \<and>
     (\<forall>p sz. K p = Some sz \<longrightarrow> 4 \<le> p \<and> p mod 4 = 0 \<and> 1 \<le> sz \<and> sz < 4092 \<and>
        live ((p - 4) div 2) = Some (SLOB_UNITS (sz + 4)) \<and> rd32 (mem st) (p - 4) = sz)"

lemma kmalloc_okD:
  assumes "kmalloc_ok st live K" "K p = Some sz"
  shows "4 \<le> p" "p mod 4 = 0" "1 \<le> sz" "sz < 4092" "live ((p - 4) div 2) = Some (SLOB_UNITS (sz + 4))"
    "rd32 (mem st) (p - 4) = sz" "2 * ((p - 4) div 2) = p - 4"
proof -
  show K: "4 \<le> p" "p mod 4 = 0" "1 \<le> sz" "sz < 4092" "live ((p - 4) div 2) = Some (SLOB_UNITS (sz + 4))"
    "rd32 (mem st) (p - 4) = sz"
    using assms unfolding kmalloc_ok_def by blast+
  have "even p" using K(2) by presburger
  then show "2 * ((p - 4) div 2) = p - 4" by simp
qed

lemma kmalloc_align_4 [simp]: "kmalloc_align = 4"
  by (simp add: kmalloc_align_def ARCH_KMALLOC_MINALIGN_def ARCH_SLAB_MINALIGN_def)

lemma valid_align_4: "valid_align 4"
  unfolding valid_align_def by (intro disjI2 exI [of _ 2]) simp

lemma live_header:
  assumes "live b = Some (SLOB_UNITS (sz + 4))" "sz < 4092" "2 * b \<le> x" "x < 2 * b + 4 + sz"
  shows "x div 2 \<in> live_set live"
proof -
  have "x div 2 \<in> {b..<b + SLOB_UNITS (sz + 4)}" using assms(2-4) by (auto simp: SLOB_UNITS_eq)
  then show ?thesis using live_setI assms(1) by blast
qed

lemma kmalloc_ok_frame:
  assumes "kmalloc_ok st live K" "slob_ok st' live'"
    and "\<forall>p sz. K' p = Some sz \<longrightarrow> K p = Some sz \<and> live' ((p - 4) div 2) = live ((p - 4) div 2)"
    and "\<forall>x. x div 2 \<in> live_set live \<inter> live_set live' \<longrightarrow> mem st' x = mem st x"
  shows "kmalloc_ok st' live' K'"
  unfolding kmalloc_ok_def
proof (intro conjI allI impI)
  fix p sz assume K': "K' p = Some sz"
  let ?b = "(p - 4) div 2"
  have Kp: "K p = Some sz" and eq: "live' ?b = live ?b" using assms(3) K' by auto
  have K: "4 \<le> p" "p mod 4 = 0" "1 \<le> sz" "sz < 4092" "live ?b = Some (SLOB_UNITS (sz + 4))"
    "rd32 (mem st) (p - 4) = sz" "live' ?b = Some (SLOB_UNITS (sz + 4))"
    using kmalloc_okD [OF assms(1) Kp] eq by auto
  then show "4 \<le> p" "p mod 4 = 0" "1 \<le> sz" "sz < 4092" "live' ?b = Some (SLOB_UNITS (sz + 4))" by auto
  have pb: "2 * ?b = p - 4" using kmalloc_okD(7) [OF assms(1) Kp] .
  have "mem st' x = mem st x" if "p - 4 \<le> x" "x < p - 4 + 4" for x
    using live_header [of live ?b sz x] live_header [of live' ?b sz x] K that pb assms(4) by simp
  then show "rd32 (mem st') (p - 4) = sz" using K(6) rd32_cong [of "p - 4" "mem st'" "mem st"] by simp
qed (rule assms(2))

lemma kmalloc_node_small:
  assumes env: "page_allocator env" and ok: "kmalloc_ok st live K" and sz: "1 \<le> sz" "sz < 4092"
  shows "\<exists>r st'. kmalloc_node env st sz flags node = Inr (r, st') \<and>
    (case r of
       None \<Rightarrow> st' = st
     | Some p \<Rightarrow> K p = None \<and> kmalloc_ok st' (live((p - 4) div 2 \<mapsto> SLOB_UNITS (sz + 4))) (K(p \<mapsto> sz)) \<and>
         {(p - 4) div 2..<(p - 4) div 2 + SLOB_UNITS (sz + 4)} \<inter> live_set live = {}) \<and>
    (\<forall>x. x div 2 \<in> live_set live \<longrightarrow> mem st' x = mem st x)"
proof -
  let ?u = "SLOB_UNITS (sz + 4)"
  have sok: "slob_ok st live" using ok by (simp add: kmalloc_ok_def)
  have szb: "1 \<le> sz + 4" "sz + 4 \<le> 4096" "sz + 4 < 2 ^ 32 - 1" using sz by auto
  have code: "kmalloc_node env st sz flags node =
     run_bind (slob_alloc env st (sz + 4) flags 4 node)
       (\<lambda>(m, st). case m of None \<Rightarrow> Inr (None, st)
          | Some m \<Rightarrow> Inr (Some (2 * m + 4), st\<lparr>mem := wr32 (mem st) (2 * m) sz\<rparr>))"
  proof -
    have n4: "nat (4 :: int) = 4" by simp
    show ?thesis
      unfolding kmalloc_node_def Let_def kmalloc_align_4 n4 using sz by (simp add: PAGE_SIZE_def)
  qed
  have fin: ?thesis if a: "slob_alloc env st (sz + 4) flags 4 node = Inr (Some b, slob_zero flags b (sz + 4) st1)"
    "alloc_post st live ?u 4 b st1" for b st1
  proof -
    define st2 where "st2 = slob_zero flags b (sz + 4) st1"
    define st3 where "st3 = st2\<lparr>mem := wr32 (mem st2) (2 * b) sz\<rparr>"
    have post: "slob_ok st2 (live(b \<mapsto> ?u))" "{b..<b + ?u} \<inter> live_set live = {}" "int (2 * b) mod 4 = 0"
      "\<forall>x. x div 2 \<in> live_set live \<longrightarrow> mem st2 x = mem st x"
      using slob_zero_post(1) [OF a(2) szb(3), of flags] by (simp_all add: alloc_post_def st2_def)
    have u2: "2 \<le> ?u" using szb(3) by (simp add: SLOB_UNITS_eq)
    have out: "wr32 (mem st2) (2 * b) sz x = mem st2 x" if "x div 2 \<notin> {b..<b + ?u}" for x
      using that u2 by (auto intro!: wr32_frame)
    have lv: "{b..<b + ?u} \<subseteq> live_set (live(b \<mapsto> ?u))" using live_setI [of "live(b \<mapsto> ?u)" b ?u] by auto
    have ok3: "slob_ok st3 (live(b \<mapsto> ?u))"
      unfolding st3_def
    proof (rule slob_ok_mem [OF post(1)])
      show "\<forall>x. x div 2 \<notin> live_set (live(b \<mapsto> ?u)) \<longrightarrow> wr32 (mem st2) (2 * b) sz x = mem st2 x"
        using out lv by blast
    qed
    have fr: "\<forall>x. x div 2 \<in> live_set live \<longrightarrow> mem st3 x = mem st x"
    proof (intro allI impI)
      fix x assume x: "x div 2 \<in> live_set live"
      then have "x div 2 \<notin> {b..<b + ?u}" using post(2) by blast
      with x show "mem st3 x = mem st x" using out [of x] post(4) by (simp add: st3_def)
    qed
    have lb: "live b = None"
    proof -
      obtain FB where "slob_pages st FB live" using sok by (auto simp: slob_ok_def)
      moreover have "b \<in> {b..<b + ?u}" using u2 by simp
      then have "b \<notin> live_set live" using post(2) by blast
      ultimately show ?thesis by (rule not_live)
    qed
    have Kb: "K p = Some s \<Longrightarrow> (p - 4) div 2 \<noteq> b" for p s
      using kmalloc_okD(5) [OF ok, of p s] lb by auto
    have K3: "kmalloc_ok st3 (live(b \<mapsto> ?u)) K"
      using ok ok3 fr Kb by (intro kmalloc_ok_frame [OF ok ok3]) auto
    have hdr: "rd32 (mem st3) (2 * b) = sz" unfolding st3_def using sz by (simp add: rd32_wr32)
    have "(2 * b + 4) mod 4 = 0" using post(3) by presburger
    with K3 hdr sz have "kmalloc_ok st3 (live(b \<mapsto> ?u)) (K(2 * b + 4 \<mapsto> sz))"
      unfolding kmalloc_ok_def by auto
    moreover have "K (2 * b + 4) = None" using Kb [of "2 * b + 4"] by fastforce
    ultimately show ?thesis using a(1) fr post(2) by (simp add: code st2_def st3_def)
  qed
  show ?thesis
  proof (rule slob_alloc_cases [where flags = flags and node = node, OF env sok valid_align_4 szb(1,2)])
    assume "slob_alloc env st (sz + 4) flags 4 node = Inr (None, st)"
    then show ?thesis by (simp add: code)
  qed (use fin in blast)+
qed

lemma kmalloc_page:
  assumes ok: "kmalloc_ok st live K" and K: "K p = Some sz"
  shows "is_slob_page st (slob_page_of p)" "slob_page_of p = (p - 4) div 2 div 2048" "16 < p"
proof -
  let ?b = "(p - 4) div 2"
  note k = kmalloc_okD [OF ok K]
  obtain FB where pg: "slob_pages st FB live" using ok by (auto simp: kmalloc_ok_def slob_ok_def)
  note lb = live_block [OF pg k(5)]
  have "p div 2 \<in> {?b..<?b + SLOB_UNITS (sz + 4)}"
    using k(1,3,4,7) by (auto simp: SLOB_UNITS_eq)
  then have "p div 2 div 2048 = ?b div 2048" using lb(3) page_units_iff by blast
  then show e: "slob_page_of p = ?b div 2048" by (simp add: slob_page_of_def PAGE_SIZE_def div_mult2_eq [symmetric])
  with lb(2) show "is_slob_page st (slob_page_of p)" by (simp add: is_slob_page_def)
  have "1 \<le> ?b div 2048" using pg lb(2) by (simp add: slob_pages_def)
  then show "16 < p" by simp
qed

lemma kfree_small:
  assumes ok: "kmalloc_ok st live K" and K: "K p = Some sz"
  shows "\<exists>st'. kfree st p = Inr st' \<and> kmalloc_ok st' (live((p - 4) div 2 := None)) (K(p := None)) \<and>
    (\<forall>x. x div 2 \<in> live_set (live((p - 4) div 2 := None)) \<longrightarrow> mem st' x = mem st x)"
proof -
  let ?b = "(p - 4) div 2" and ?live = "live((p - 4) div 2 := None)"
  note k = kmalloc_okD [OF ok K] and kp = kmalloc_page [OF ok K]
  have sok: "slob_ok st live" using ok by (simp add: kmalloc_ok_def)
  from slob_free_spec [OF sok k(5)] k(3,4) obtain st' where
    f: "slob_free st (2 * ?b) (int (sz + 4)) = Inr st'" "free_post st live ?b st'" by auto
  have "kfree st p = Inr st'"
    using kp k(4,6,7) f(1)
    by (simp add: kfree_def ZERO_OR_NULL_PTR_def ZERO_SIZE_PTR_def Let_def s32_id)
  moreover have "kmalloc_ok st' ?live (K(p := None))"
  proof (rule kmalloc_ok_frame [OF ok])
    show "slob_ok st' ?live" using f(2) by (simp add: free_post_def)
    show "\<forall>q s. (K(p := None)) q = Some s \<longrightarrow> K q = Some s \<and> ?live ((q - 4) div 2) = live ((q - 4) div 2)"
    proof (intro allI impI)
      fix q s assume "(K(p := None)) q = Some s"
      then have q: "q \<noteq> p" "K q = Some s" by (auto split: if_splits)
      have "(q - 4) div 2 \<noteq> ?b"
        using kmalloc_okD(1,7) [OF ok q(2)] k(1,7) q(1) by linarith
      with q show "K q = Some s \<and> ?live ((q - 4) div 2) = live ((q - 4) div 2)" by simp
    qed
    show "\<forall>x. x div 2 \<in> live_set live \<inter> live_set ?live \<longrightarrow> mem st' x = mem st x"
      using f(2) unfolding free_post_def by blast
  qed
  ultimately show ?thesis using f(2) unfolding free_post_def by blast
qed

lemma ksize_small:
  assumes ok: "kmalloc_ok st live K" and K: "K p = Some sz"
  shows "ksize st p = Inr (2 * ((sz + 1) div 2))"
  using kmalloc_page [OF ok K] kmalloc_okD [OF ok K]
  by (simp add: ksize_def ZERO_SIZE_PTR_def Let_def SLOB_UNITS_eq SLOB_UNIT_def)

section \<open>Blocks of whole pages\<close>

lemma slob_ok_frames:
  assumes ok: "slob_ok st live" and pg: "\<not> PageSlab (pages st pg)"
    and st': "mem st' = mem st" "lists st' = lists st" "\<forall>x. x \<noteq> pg \<longrightarrow> frames st' x = frames st x"
      "\<forall>x. x \<noteq> pg \<longrightarrow> pages st' x = pages st x" "\<not> PageSlab (pages st' pg)" "\<not> PageSlobFree (pages st' pg)"
  shows "slob_ok st' live"
proof -
  obtain A FB where s: "slob_lists st A" and p: "slob_pages st FB live"
    using ok unfolding slob_ok_def by blast
  have eq: "PageSlab (pages st' x) = PageSlab (pages st x)" "PageSlobFree (pages st' x) = PageSlobFree (pages st x)" for x
    using st'(4-6) pg p by (cases "x = pg"; auto simp: slob_pages_def)+
  have ne: "x \<noteq> pg" if "PageSlab (pages st x)" for x using that pg by auto
  have "slob_lists st' A" using s st'(2) eq(2) by (simp add: slob_lists_def)
  moreover have "slob_pages st' FB live"
    using p st' eq ne unfolding slob_pages_def page_rep_def by simp
  ultimately show ?thesis unfolding slob_ok_def by blast
qed

lemma new_frames_not_slab:
  assumes "slob_ok st live" "new_frames (frames st) pg order"
  shows "\<not> PageSlab (pages st pg)" "\<not> PageSlobFree (pages st pg)"
proof -
  obtain FB where p: "slob_pages st FB live" using assms(1) by (auto simp: slob_ok_def)
  have "frames st pg \<noteq> Some 0"
  proof
    assume "frames st pg = Some 0"
    then have "{pg..<pg + 2 ^ 0} \<inter> {pg..<pg + 2 ^ order} = {}" using assms(2) unfolding new_frames_def by blast
    then show False by simp
  qed
  then show "\<not> PageSlab (pages st pg)" using p by (auto simp: slob_pages_def)
  then show "\<not> PageSlobFree (pages st pg)" using p by (auto simp: slob_pages_def)
qed

text \<open>A request of at least a page minus the header: whole pages, with the size kept in the page.\<close>

lemma kmalloc_node_large:
  assumes env: "page_allocator env" and ok: "slob_ok st live" and sz: "4092 \<le> sz"
    and a: "kmalloc_node env st sz flags node = Inr (Some p, st')"
  obtains pg where "p = 4096 * pg" "frames st' = (frames st)(pg \<mapsto> get_order sz)" "frames st pg = None"
    "slob_ok st' live" "\<not> PageSlab (pages st' pg)" "page_private (pages st' pg) = sz" "1 \<le> pg" "mem st' = mem st"
    "\<not> PageSlobFree (pages st' pg)"
proof -
  let ?fl = "if get_order sz \<noteq> 0 then flags OR GFP_COMP else flags"
  have "\<not> sz < PAGE_SIZE - nat kmalloc_align" using sz by (simp add: PAGE_SIZE_def)
  with a obtain st1 where n: "slob_new_pages env st ?fl (get_order sz) node = (Some p, st1)"
    and st': "st' = upd_page st1 (slob_page_of p) (\<lambda>q. q\<lparr>page_private := sz\<rparr>)"
    by (auto simp: kmalloc_node_def Let_def split: prod.splits option.splits)
  from slob_new_pages_some [OF env n] obtain pg where pg: "p = pg * PAGE_SIZE"
    "new_frames (frames st) pg (get_order sz)" "st1 = st\<lparr>frames := (frames st)(pg \<mapsto> get_order sz)\<rparr>" .
  have sp: "slob_page_of p = pg" using pg(1) by (simp add: slob_page_of_def PAGE_SIZE_def)
  note ns = new_frames_not_slab [OF ok pg(2)]
  have "frames st pg = None"
  proof (rule ccontr)
    assume "frames st pg \<noteq> None"
    then obtain k where "frames st pg = Some k" by blast
    then have "{pg..<pg + 2 ^ k} \<inter> {pg..<pg + 2 ^ get_order sz} = {}" using pg(2) unfolding new_frames_def by blast
    moreover have "pg \<in> {pg..<pg + 2 ^ k}" "pg \<in> {pg..<pg + 2 ^ get_order sz}" by simp_all
    ultimately show False by blast
  qed
  moreover have "slob_ok st' live"
    using ns by (intro slob_ok_frames [OF ok ns(1)]) (simp_all add: st' sp pg(3) upd_page_def)
  moreover have "page_private (pages st' pg) = sz" "\<not> PageSlab (pages st' pg)" "\<not> PageSlobFree (pages st' pg)"
    unfolding st' sp using ns by (simp_all add: pg(3) upd_page_def)
  moreover have "frames st' = (frames st)(pg \<mapsto> get_order sz)" "mem st' = mem st"
    by (simp_all add: st' pg(3) upd_page_def)
  ultimately show thesis
    using pg(1,2) by (intro that [of pg]) (simp_all add: PAGE_SIZE_def new_frames_def)
qed

lemma kfree_large:
  assumes ok: "slob_ok st live" and pg: "1 \<le> pg" "\<not> PageSlab (pages st pg)" "\<not> PageSlobFree (pages st pg)"
  shows "kfree st (4096 * pg) = Inr (st\<lparr>frames := (frames st)(pg := None)\<rparr>)"
    "slob_ok (st\<lparr>frames := (frames st)(pg := None)\<rparr>) live"
proof -
  show "kfree st (4096 * pg) = Inr (st\<lparr>frames := (frames st)(pg := None)\<rparr>)"
    using pg by (simp add: kfree_def ZERO_OR_NULL_PTR_def ZERO_SIZE_PTR_def slob_page_of_def PAGE_SIZE_def is_slob_page_def)
  show "slob_ok (st\<lparr>frames := (frames st)(pg := None)\<rparr>) live"
    using pg(2,3) by (intro slob_ok_frames [OF ok pg(2)]) simp_all
qed

section \<open>Deferred freeing\<close>

text \<open>
  A block of a \<open>SLAB_DESTROY_BY_RCU\<close> cache carries its size in its last four bytes while it waits for
  the callback. \<open>pending\<close> describes the queue by the blocks and sizes that wait.
\<close>

definition rcu_head_of :: "nat \<times> nat \<Rightarrow> nat" where
  "rcu_head_of q = 2 * fst q + (snd q - sizeof_slob_rcu)"

definition waits :: "slob_sys \<Rightarrow> live_map \<Rightarrow> nat \<times> nat \<Rightarrow> bool" where
  "waits st live q \<longleftrightarrow> 12 \<le> snd q \<and> snd q < 4096 \<and> live (fst q) = Some (SLOB_UNITS (snd q)) \<and>
     rd32 (mem st) (rcu_head_of q + 8) = snd q"

definition pending :: "slob_sys \<Rightarrow> live_map \<Rightarrow> (nat \<times> nat) list \<Rightarrow> bool" where
  "pending st live qs \<longleftrightarrow> distinct (map fst qs) \<and> (\<forall>q \<in> set qs. waits st live q)"

lemma rcu_footer_in_block:
  assumes "12 \<le> sz" "sz < 4096" "rcu_head_of (b, sz) + 8 \<le> x" "x < rcu_head_of (b, sz) + 12"
  shows "x div 2 \<in> {b..<b + SLOB_UNITS sz}"
  using assms by (auto simp: rcu_head_of_def sizeof_slob_rcu_def SLOB_UNITS_eq)

lemma waits_frame:
  assumes w: "waits st live q" and l: "live' (fst q) = live (fst q)"
    and m: "\<forall>x. x div 2 \<in> {fst q..<fst q + SLOB_UNITS (snd q)} \<longrightarrow> mem st' x = mem st x"
  shows "waits st' live' q"
proof -
  have "rd32 (mem st') (rcu_head_of q + 8) = rd32 (mem st) (rcu_head_of q + 8)"
    using w m rcu_footer_in_block [of "snd q" "fst q"] by (intro rd32_cong) (auto simp: waits_def)
  with w l show ?thesis by (simp add: waits_def)
qed

lemma kmem_rcu_free_waits:
  assumes "waits st live q"
  shows "kmem_rcu_free st (rcu_head_of q) = slob_free st (2 * fst q) (int (snd q))"
proof -
  have r: "rd32 (mem st) (rcu_head_of q + 8) = snd q" and sz: "12 \<le> snd q" "snd q < 4096"
    using assms by (auto simp: waits_def)
  have "rcu_head_of q - (snd q - sizeof_slob_rcu) = 2 * fst q" by (simp add: rcu_head_of_def)
  then show ?thesis
    unfolding kmem_rcu_free_def Let_def r using sz
    by (simp add: kmem_cache_free_now_def PAGE_SIZE_def s32_id u32_id)
qed

lemma rcu_run_pending:
  "slob_ok st live \<Longrightarrow> pending st live qs \<Longrightarrow>
   \<exists>st'. rcu_run (map rcu_head_of qs) st = Inr st' \<and>
     slob_ok st' (live |` (- fst ` set qs)) \<and>
     (\<forall>x. x div 2 \<in> live_set (live |` (- fst ` set qs)) \<longrightarrow> mem st' x = mem st x)"
proof (induction qs arbitrary: st live)
  case Nil
  then show ?case by simp
next
  case (Cons q qs)
  let ?b = "fst q" and ?live = "live(fst q := None)"
  have w: "waits st live q" and d: "?b \<notin> fst ` set qs"
    using Cons.prems(2) by (auto simp: pending_def)
  have lb: "live ?b = Some (SLOB_UNITS (snd q))" and sz: "1 \<le> snd q" "snd q \<le> 4096"
    using w by (auto simp: waits_def)
  from slob_free_spec [OF Cons.prems(1) lb sz] obtain st1 where
    f: "slob_free st (2 * ?b) (int (snd q)) = Inr st1" "free_post st live ?b st1" by blast
  have ok1: "slob_ok st1 ?live" and m1: "\<forall>x. x div 2 \<in> live_set ?live \<longrightarrow> mem st1 x = mem st x"
    using f(2) by (auto simp: free_post_def)
  have "waits st1 ?live r" if r: "r \<in> set qs" for r
  proof (rule waits_frame)
    show wr: "waits st live r" using Cons.prems(2) r by (simp add: pending_def)
    have ne: "fst r \<noteq> ?b" using d r by (metis imageI)
    then show "?live (fst r) = live (fst r)" by simp
    with wr have "?live (fst r) = Some (SLOB_UNITS (snd r))" by (simp add: waits_def)
    then show "\<forall>x. x div 2 \<in> {fst r..<fst r + SLOB_UNITS (snd r)} \<longrightarrow> mem st1 x = mem st x"
      using m1 live_setI [of ?live "fst r"] by blast
  qed
  with Cons.prems(2) have "pending st1 ?live qs" by (simp add: pending_def)
  from Cons.IH [OF ok1 this] obtain st' where
    a: "rcu_run (map rcu_head_of qs) st1 = Inr st'" "slob_ok st' (?live |` (- fst ` set qs))"
      "\<forall>x. x div 2 \<in> live_set (?live |` (- fst ` set qs)) \<longrightarrow> mem st' x = mem st1 x" by blast
  have eq: "?live |` (- fst ` set qs) = live |` (- fst ` set (q # qs))"
    by (auto simp: restrict_map_def)
  have "x \<in> live_set ?live" if "x \<in> live_set (?live |` (- fst ` set qs))" for x
    using that by (auto simp: live_set_def restrict_map_def split: if_splits)
  then have "\<forall>x. x div 2 \<in> live_set (?live |` (- fst ` set qs)) \<longrightarrow> mem st' x = mem st x"
    using a(3) m1 by auto
  moreover have "rcu_run (map rcu_head_of (q # qs)) st = Inr st'"
    using a(1) f(1) kmem_rcu_free_waits [OF w] by simp
  ultimately show ?case using a(2) unfolding eq by blast
qed

section \<open>Accounting\<close>

lemma finite_slab_set: "slob_ok st live \<Longrightarrow> finite (slab_set st)"
proof -
  assume "slob_ok st live"
  then have "slab_set st \<subseteq> {..2 ^ 31}" by (auto simp: slob_ok_def slob_pages_def slab_set_def)
  then show ?thesis using finite_subset by blast
qed

definition claimed_ok :: "slob_sys \<Rightarrow> bool" where
  "claimed_ok st \<longleftrightarrow> mem_claimed st = s32 (int (PAGE_SIZE * card (slab_set st)))"

lemma s32_add: "s32 (s32 a + b) = s32 (a + b)" "s32 (s32 a - b) = s32 (a - b)" "s32 (b + s32 a) = s32 (b + a)"
  by (simp_all add: s32_def mod_simps algebra_simps)

lemma slob_zero_fields [simp]:
  "mem_claimed (slob_zero flags b sz st) = mem_claimed st" "mem_used (slob_zero flags b sz st) = mem_used st"
  "slab_set (slob_zero flags b sz st) = slab_set st"
  by (simp_all add: slob_zero_def slab_set_def)

lemma claimed_ok_free:
  assumes ok: "slob_ok st live" and c: "claimed_ok st" and f: "free_post st live b st'"
  shows "claimed_ok st'"
proof -
  note fin = finite_slab_set [OF ok]
  from f consider "mem_claimed st' = mem_claimed st" "slab_set st' = slab_set st"
    | sp where "mem_claimed st' = s32 (mem_claimed st - 4096)" "sp \<in> slab_set st" "slab_set st' = slab_set st - {sp}"
    unfolding free_post_def by blast
  then show ?thesis
  proof cases
    case 1
    with c show ?thesis by (simp add: claimed_ok_def)
  next
    case 2
    obtain n where "card (slab_set st) = Suc n" "card (slab_set st') = n"
      using 2(2,3) fin card_Suc_Diff1 [OF fin 2(2)] by (metis)
    with c 2(1) show ?thesis by (simp add: claimed_ok_def s32_add PAGE_SIZE_def algebra_simps)
  qed
qed

lemma claimed_ok_alloc:
  assumes env: "page_allocator env" and ok: "slob_ok st live" and al: "valid_align al"
    and sz: "1 \<le> sz" "sz \<le> 4096" and c: "claimed_ok st"
    and a: "slob_alloc env st sz flags al node = Inr (r, st')"
  shows "claimed_ok st'"
proof (rule slob_alloc_cases [where flags = flags and node = node, OF env ok al sz])
  fix b st1 assume "slob_alloc env st sz flags al node = Inr (Some b, slob_zero flags b sz st1)"
    "mem_claimed st1 = mem_claimed st" "slab_set st1 = slab_set st"
  with a c show ?thesis by (auto simp: claimed_ok_def)
next
  fix b st1 assume r: "slob_alloc env st sz flags al node = Inr (Some b, slob_zero flags b sz st1)"
    "mem_claimed st1 = s32 (mem_claimed st + 4096)" "\<exists>sp. sp \<notin> slab_set st \<and> slab_set st1 = insert sp (slab_set st)"
  then have "card (slab_set st1) = Suc (card (slab_set st))" using finite_slab_set [OF ok] by auto
  with r a c show ?thesis by (auto simp: claimed_ok_def s32_add PAGE_SIZE_def algebra_simps)
next
  assume "slob_alloc env st sz flags al node = Inr (None, st)"
  with a c show ?thesis by simp
qed

end
