(* ===== verification/Slob_Thms.thy ===== *)
theory Slob_Thms
  imports Slob_Kmalloc
begin

text \<open>
  The correctness properties of the SLOB allocator (\<open>project4/slob.c\<close>), with instances on concrete
  heaps: the heap at boot with a page allocator that has one page to give, and a page that is full of
  two blocks, the first of which carries a \<open>kmalloc\<close> header.
\<close>

section \<open>Concrete heaps\<close>

definition single_env :: kenv where
  "single_env = \<lparr>CONFIG_NUMA = False,
     alloc_pages = (\<lambda>fr flags order. if order = 0 \<and> fr = Map.empty then Some 1 else None),
     alloc_pages_exact_node = (\<lambda>fr node flags order. None),
     page_to_nid = (\<lambda>_. 0)\<rparr>"

lemma single_env_ok: "page_allocator single_env"
  by (auto simp: page_allocator_def single_env_def new_frames_def split: if_splits)

definition full_page :: "bmem \<Rightarrow> slob_sys" where
  "full_page m = slob_boot\<lparr>mem := m,
     pages := (pages slob_boot)(1 := \<lparr>PageSlab = True, PageSlobFree = False, units = 0, free = 0, page_private = 0\<rparr>),
     mem_claimed := 4096, frames := [1 \<mapsto> 0]\<rparr>"

definition full_live :: "nat \<Rightarrow> live_map" where
  "full_live k = [2048 \<mapsto> k, 2048 + k \<mapsto> 2048 - k]"

lemma full_live_cases:
  "full_live k b = Some n \<Longrightarrow> b = 2048 \<and> n = k \<or> b = 2048 + k \<and> n = 2048 - k"
  by (auto simp: full_live_def split: if_splits)

lemma full_live_simps: "1 \<le> k \<Longrightarrow> full_live k 2048 = Some k" "full_live k (2048 + k) = Some (2048 - k)"
  by (auto simp: full_live_def)

lemma full_live_units:
  assumes "1 \<le> k" "k < 2048"
  shows "live_units (full_live k) (Suc 0) = {2048..<4096}"
proof (rule set_eqI)
  fix x
  have "x \<in> live_units (full_live k) (Suc 0)" if "x \<in> {2048..<4096}"
  proof (cases "x < 2048 + k")
    case True
    with that assms show ?thesis
      using live_unitsI [of "full_live k" 2048 k x] full_live_simps(1) [of k] by simp
  next
    case False
    have "(2048 + k) div 2048 = Suc 0" using assms by simp
    with False that assms show ?thesis
      using live_unitsI [of "full_live k" "2048 + k" "2048 - k" x] full_live_simps(2) [of k] by simp
  qed
  moreover have "x \<in> {2048..<4096}" if x: "x \<in> live_units (full_live k) (Suc 0)"
  proof -
    obtain b n where "full_live k b = Some n" "x \<in> {b..<b + n}" using x unfolding live_units_def by blast
    then show ?thesis using full_live_cases [of k b n] assms by auto
  qed
  ultimately show "x \<in> live_units (full_live k) (Suc 0) \<longleftrightarrow> x \<in> {2048..<4096}" by blast
qed

lemma full_page_ok:
  assumes k: "1 \<le> k" "k < 2048"
  shows "slob_ok (full_page m) (full_live k)"
proof -
  define A :: "slob_node lists" where "A = (\<lambda>p. if p \<in> slob_heads then Some [] else None)"
  have "slob_lists (full_page m) A"
    unfolding slob_lists_def fam_def on_list_def A_def
    by (auto simp: full_page_def slob_boot_def is_list_def split: if_splits)
  moreover have "slob_pages (full_page m) (\<lambda>_. []) (full_live k)"
  proof -
    have "live_disjoint (full_live k)" unfolding live_disjoint_def using k by (auto dest!: full_live_cases)
    moreover have "full_live k b = Some n \<Longrightarrow> b div 2048 = Suc 0" for b n using k by (auto dest!: full_live_cases)
    ultimately show ?thesis
      unfolding slob_pages_def
      by (auto simp: full_page_def slob_boot_def page_rep_def page_fl_def full_live_units [OF k] page_units_def)
  qed
  ultimately show ?thesis unfolding slob_ok_def by blast
qed

lemma full_page_kmalloc_ok:
  "kmalloc_ok (full_page (wr32 (\<lambda>_. 0) 4096 1996)) (full_live 1000) [4100 \<mapsto> 1996]"
  unfolding kmalloc_ok_def using full_page_ok [of 1000]
  by (auto simp: full_live_simps full_page_def SLOB_UNITS_eq rd32_wr32)

section \<open>Allocation and freeing\<close>

text \<open>
  C1. \<open>slob_alloc\<close> meets its contract from every heap that satisfies the invariant: it returns without
  reaching its \<open>BUG_ON\<close>; it fails only when the page allocator fails, and then changes nothing;
  otherwise the new block is aligned, overlaps no live block, is zeroed when asked for, the invariant
  holds with the block added, and every byte of every live block is as before.
\<close>

theorem slob_alloc_correct:
  assumes env: "page_allocator env" and ok: "slob_ok st live" and al: "valid_align al"
    and sz: "1 \<le> sz" "sz \<le> 4096"
  shows "\<exists>r st'. slob_alloc env st sz flags al node = Inr (r, st') \<and>
    (case r of
       None \<Rightarrow> st' = st \<and> slob_new_pages env st (flags AND NOT GFP_ZERO) 0 node = (None, st)
     | Some b \<Rightarrow> slob_ok st' (live(b \<mapsto> SLOB_UNITS sz)) \<and>
         {b..<b + SLOB_UNITS sz} \<inter> live_set live = {} \<and>
         (al \<noteq> 0 \<longrightarrow> int (2 * b) mod al = 0) \<and>
         (flags AND GFP_ZERO \<noteq> 0 \<longrightarrow> (\<forall>x. 2 * b \<le> x \<and> x < 2 * b + sz \<longrightarrow> mem st' x = 0))) \<and>
    (\<forall>x. x div 2 \<in> live_set live \<longrightarrow> mem st' x = mem st x)"
proof -
  have sz': "sz < 2 ^ 32 - 1" using sz by simp
  have fin: ?thesis if "slob_alloc env st sz flags al node = Inr (Some b, slob_zero flags b sz st1)"
    "alloc_post st live (SLOB_UNITS sz) al b st1" for b st1
    using slob_zero_post [OF that(2) sz', of flags] that(1) by (simp add: alloc_post_def)
  show ?thesis
  proof (rule slob_alloc_cases [where flags = flags and node = node, OF env ok al sz])
    assume "slob_alloc env st sz flags al node = Inr (None, st)"
      "slob_new_pages env st (flags AND NOT GFP_ZERO) 0 node = (None, st)"
    then show ?thesis by simp
  qed (use fin in blast)+
qed

theorem slob_alloc_correct_witness:
  "page_allocator single_env \<and> slob_ok slob_boot Map.empty \<and>
   (\<exists>r st'. slob_alloc single_env slob_boot 100 0 4 (-1) = Inr (r, st'))"
  using slob_alloc_correct [OF single_env_ok slob_boot_ok valid_align_4, of 100 0 "-1"]
    single_env_ok slob_boot_ok by auto

text \<open>
  C2. \<open>slob_free\<close> of a live block with the size it was allocated for returns, whichever of its three
  branches it takes (the page goes back to the page allocator, the page becomes partially free, the
  block is merged into the free list): the invariant holds with the block removed, the other live
  blocks keep their bytes, and \<open>mem_used\<close> goes down by the size.
\<close>

theorem slob_free_correct:
  assumes ok: "slob_ok st live" and b: "live b = Some (SLOB_UNITS sz)" and sz: "1 \<le> sz" "sz \<le> 4096"
  shows "\<exists>st'. slob_free st (2 * b) (int sz) = Inr st' \<and> slob_ok st' (live(b := None)) \<and>
    (\<forall>x. x div 2 \<in> live_set (live(b := None)) \<longrightarrow> mem st' x = mem st x) \<and>
    mem_used st' = s32 (mem_used st - int sz)"
  using slob_free_spec [OF ok b sz] unfolding free_post_def by metis

theorem slob_free_correct_witness:
  "slob_ok (full_page (\<lambda>_. 0)) (full_live 1000) \<and>
   (\<exists>st'. slob_free (full_page (\<lambda>_. 0)) 4096 2000 = Inr st' \<and> slob_ok st' ((full_live 1000)(2048 := None)))"
  using slob_free_correct [OF full_page_ok, of 1000 2048 2000 "\<lambda>_. 0"] full_page_ok [of 1000]
  by (auto simp: full_live_simps SLOB_UNITS_eq)

text \<open>
  C3. Any sequence of allocations and frees, by a client that frees only blocks it holds, runs to its
  end without a \<open>BUG_ON\<close> and without divergence, keeps the invariant, and leaves every block that is
  not freed in the sequence allocated and with its contents.
\<close>

theorem slob_trace_safe:
  assumes "page_allocator env" "slob_ok st live"
    and "\<forall>op \<in> set ops. case op of Alloc r \<Rightarrow> heap_valid r | Free b r \<Rightarrow> heap_valid r"
  shows "\<exists>st' live'. run_ops heap_alloc heap_release heap_need ops ((env, st), live) = Inr ((env, st'), live') \<and>
    slob_ok st' live' \<and>
    (\<forall>b n. live b = Some n \<longrightarrow> (\<forall>r. Free b r \<notin> set ops) \<longrightarrow>
       live' b = Some n \<and> (\<forall>x. x div 2 \<in> {b..<b + n} \<longrightarrow> mem st' x = mem st x))"
proof -
  have "heap_ok (env, st) live" using assms(1,2) by (simp add: heap_ok_def)
  moreover have "\<forall>op \<in> set ops. slob.op_valid op" using assms(3) by (simp add: slob.op_valid_def)
  ultimately obtain s' live' where
    r: "run_ops heap_alloc heap_release heap_need ops ((env, st), live) = Inr (s', live')" "heap_ok s' live'"
      "\<forall>b. slob.held b ops \<longrightarrow> slob.keeps (env, st) live s' live' b"
    using slob.run_ops_safe by blast
  have "fst s' = env" using run_ops_env [OF r(1)] by simp
  then obtain st' where "s' = (env, st')" by (cases s') auto
  with r show ?thesis
    by (auto simp: heap_ok_def slob.held_def slob.keeps_def heap_contents_def)
qed

theorem slob_trace_safe_witness:
  "page_allocator single_env \<and> slob_ok (full_page (\<lambda>_. 0)) (full_live 1000) \<and>
   (\<exists>st' live'. run_ops heap_alloc heap_release heap_need
      [Free 2048 (2000, 0, 4, -1), Alloc (60, 0, 4, -1), Alloc (4096, 0, 0, -1)]
      ((single_env, full_page (\<lambda>_. 0)), full_live 1000) = Inr ((single_env, st'), live') \<and>
      slob_ok st' live' \<and> live' 3048 = Some 1048)"
proof -
  have "full_live 1000 3048 = Some 1048" using full_live_simps(2) [of 1000] by simp
  then show ?thesis
    using slob_trace_safe [OF single_env_ok full_page_ok [of 1000 "\<lambda>_. 0"],
        of "[Free 2048 (2000, 0, 4, -1), Alloc (60, 0, 4, -1), Alloc (4096, 0, 0, -1)]"]
      single_env_ok full_page_ok [of 1000 "\<lambda>_. 0"] valid_align_4
    by (fastforce simp: heap_valid_def valid_align_def [of 0])
qed

section \<open>One page\<close>

text \<open>
  C4. \<open>slob_page_alloc\<close> is best fit: on a page with the free blocks \<open>bs\<close> it reports failure, with the
  state unchanged, exactly when no free block can hold the aligned request, and otherwise takes the
  request out of a fitting block that leaves the least room; the free units of the page lose exactly
  the units handed out, and the page leaves its list when none is left.
\<close>

theorem slob_page_alloc_best_fit:
  assumes ok: "page_ok st sp bs" and top: "2048 * sp + 6144 \<le> 2 ^ 31" and al: "valid_align al"
    and sz: "1 \<le> sz" "sz < 2 ^ 32 - 1"
  defines "u \<equiv> SLOB_UNITS sz"
  shows "(\<forall>b \<in> set bs. \<not> fits (int u) al b) \<and> slob_page_alloc st sp sz al = Some (None, st) \<or>
    (\<exists>c n d st' bs'. (c, n) \<in> set bs \<and> slob_page_alloc st sp sz al = Some (Some (c + d), st') \<and>
       int d = adelta al c \<and> d + u \<le> n \<and>
       (\<forall>b \<in> set bs. fits (int u) al b \<longrightarrow> slack (int u) al (c, n) \<le> slack (int u) al b) \<and>
       page_fl (mem st') (2048 * sp) bs' \<and> units_of bs' = units_of bs - {c + d..<c + d + u} \<and>
       units (pages st' sp) = int (sum_units bs) - int u \<and>
       PageSlobFree (pages st' sp) = (bs' \<noteq> [] \<and> PageSlobFree (pages st sp)) \<and>
       lists st' = (if bs' = [] then list_del (lists st) (Node (page_list sp)) else lists st))"
proof (cases "\<forall>b \<in> set bs. \<not> fits (int u) al b")
  case True
  then show ?thesis using slob_page_alloc_none [OF ok sz(2)] unfolding u_def by blast
next
  case False
  then obtain b0 where b0: "b0 \<in> set bs" "fits (int u) al b0" by blast
  from slob_page_alloc_some [OF ok top al sz b0 [unfolded u_def]] obtain xs c n ys d st' where
    a: "bs = xs @ (c, n) # ys" "int d = adelta al c" "d + u \<le> n"
      "slob_page_alloc st sp sz al = Some (Some (c + d), st')"
      "\<forall>b \<in> set bs. fits (int u) al b \<longrightarrow> slack (int u) al (c, n) \<le> slack (int u) al b"
      "took st st' sp bs (carved xs c n d u ys)" unfolding u_def by metis
  have "fl (mem st) (2048 * sp + 2048) (xs @ (c, n) # ys)" using ok a(1) by (simp add: page_ok_def page_fl_def)
  note cv = units_of_carved_diff(1) [OF this a(3), folded a(1)]
  have "int (sum_units (carved xs c n d u ys)) = int (sum_units bs) - int u"
    using sum_units_carved [OF a(3), of xs c ys] a(1) by simp
  then show ?thesis
    using a cv by (intro disjI2 exI [of _ c] exI [of _ n] exI [of _ d] exI [of _ st'] exI [of _ "carved xs c n d u ys"])
      (simp add: took_def)
qed

definition free_page :: slob_sys where
  "free_page = slob_new_page_setup (slob_boot\<lparr>frames := [1 \<mapsto> 0]\<rparr>) 2048 free_slob_small"

lemma free_page_ok: "page_ok free_page 1 [(2048, 2048)]"
proof -
  obtain A FB where "slob_lists slob_boot A" "slob_pages slob_boot FB Map.empty"
    using slob_boot_ok unfolding slob_ok_def by blast
  moreover have "\<exists>xs. A (Node free_slob_small) = Some xs"
    using \<open>slob_lists slob_boot A\<close> by (auto simp: slob_lists_def slob_heads_def dom_def)
  moreover have "new_frames (frames slob_boot) 1 0" by (simp add: new_frames_def slob_boot_def)
  moreover have "slob_boot\<lparr>frames := (frames slob_boot)(1 \<mapsto> 0)\<rparr> = slob_boot\<lparr>frames := [1 \<mapsto> 0]\<rparr>"
    by (simp add: slob_boot_def)
  ultimately show ?thesis
    using slob_new_page_setup_spec(2,3) slob_pages_free_page(3) unfolding free_page_def
    by (metis fun_upd_same mult.right_neutral)
qed

theorem slob_page_alloc_best_fit_witness:
  "page_ok free_page 1 [(2048, 2048)] \<and>
   (\<exists>p st' bs'. slob_page_alloc free_page 1 100 4 = Some (Some p, st') \<and> page_fl (mem st') 2048 bs' \<and>
      units_of bs' = {2048..<4096} - {p..<p + 50})"
proof -
  have "fits 50 4 (2048, 2048)" by (simp add: fits_def slack_def adelta_page [OF valid_align_4, of 1, simplified])
  then show ?thesis
    using slob_page_alloc_best_fit [OF free_page_ok _ valid_align_4, of 100] free_page_ok
    by (auto simp: SLOB_UNITS_eq)
qed

text \<open>
  C5. Freeing undoes allocating: when a page keeps some room after \<open>slob_page_alloc\<close>, reinserting the block
  restores the free list exactly, block by block, because the reinsertion coalesces with both
  neighbours.
\<close>

theorem slob_page_alloc_free_roundtrip:
  assumes ok: "page_ok st sp bs" and top: "2048 * sp + 6144 \<le> 2 ^ 31" and al: "valid_align al"
    and sz: "1 \<le> sz" "SLOB_UNITS sz < sum_units bs" "sz < 2 ^ 32 - 1"
    and a: "slob_page_alloc st sp sz al = Some (Some b, st')"
  shows "\<exists>st''. slob_free_insert st' sp b (int (SLOB_UNITS sz)) = Some st'' \<and> page_ok st'' sp bs \<and>
    units (pages st'' sp) = units (pages st sp) \<and> lists st'' = lists st"
proof -
  let ?u = "SLOB_UNITS sz"
  have "\<exists>b0 \<in> set bs. fits (int ?u) al b0"
    using a slob_page_alloc_none [OF ok sz(3), of al] by (metis option.inject option.distinct(1) prod.inject)
  then obtain b0 where b0: "b0 \<in> set bs" "fits (int ?u) al b0" by blast
  from slob_page_alloc_some [OF ok top al sz(1,3) b0] a obtain xs c n ys d where
    c: "bs = xs @ (c, n) # ys" "d + ?u \<le> n" "b = c + d" "took st st' sp bs (carved xs c n d ?u ys)"
    by (metis option.inject prod.inject)
  let ?bs = "carved xs c n d ?u ys"
  have pf: "page_fl (mem st) (2048 * sp) (xs @ (c, n) # ys)" using ok c(1) by (simp add: page_ok_def)
  then have sg: "fl (mem st) (2048 * sp + 2048) (xs @ (c, n) # ys)" by (simp add: page_fl_def)
  note cv = units_of_carved_diff [OF sg c(2), folded c(1) c(3)]
  have sum: "sum_units ?bs + ?u = sum_units bs" using sum_units_carved [OF c(2), of xs c ys] c(1) by simp
  have ok': "page_ok st' sp ?bs" using c(4) sum sz(2) by (auto simp: took_def page_ok_def)
  have blk: "2048 * sp \<le> b" "b + ?u \<le> 2048 * sp + 2048"
    using page_fl_block(3,4) [OF pf, of c n] c(2,3) by auto
  from slob_free_insert_spec [OF ok' SLOB_UNITS_pos [OF sz(1,3)] blk] cv obtain st'' bs'' where
    f: "slob_free_insert st' sp b (int ?u) = Some st''" "page_ok st'' sp bs''"
      "units_of bs'' = units_of ?bs \<union> {b..<b + ?u}" "page_frame st' st'' sp (units_of ?bs \<union> {b..<b + ?u})"
    by blast
  have "units_of bs'' = units_of bs" using f(3) cv by blast
  then have "bs'' = bs"
    using seg_canonical f(2) sg c(1) unfolding page_ok_def page_fl_def by blast
  moreover have "lists st'' = lists st" using f(4) c(4) sum sz(2) by (auto simp: page_frame_def took_def)
  ultimately show ?thesis using f(1,2) ok by (auto simp: page_ok_def)
qed

theorem slob_page_alloc_free_roundtrip_witness:
  "\<exists>b st' st''. slob_page_alloc free_page 1 100 4 = Some (Some b, st') \<and>
     slob_free_insert st' 1 b 50 = Some st'' \<and> page_ok st'' 1 [(2048, 2048)]"
proof -
  have f: "fits (int (SLOB_UNITS 100)) 4 (2048, 2048)"
    by (simp add: SLOB_UNITS_eq fits_def slack_def adelta_page [OF valid_align_4, of 1, simplified])
  have "\<exists>b st'. slob_page_alloc free_page 1 100 4 = Some (Some b, st')"
    by (rule slob_page_alloc_some [OF free_page_ok _ valid_align_4 _ _ _ f]) auto
  then obtain b st' where a: "slob_page_alloc free_page 1 100 4 = Some (Some b, st')" by blast
  then show ?thesis
    using slob_page_alloc_free_roundtrip [OF free_page_ok _ valid_align_4 _ _ _ a]
    by (auto simp: SLOB_UNITS_eq)
qed

section \<open>\<open>kmalloc\<close> and \<open>kfree\<close>\<close>

text \<open>
  C6. \<open>kmalloc\<close> of 1 to 4091 bytes either fails and changes nothing or hands out a block that overlaps
  no live block; \<open>ksize\<close> of the new pointer is the request rounded up to a unit, and \<open>kfree\<close> of it
  releases exactly that block: the heap invariant holds again for what was live before, and the bytes
  of every other block are never touched.
\<close>

theorem kmalloc_kfree_roundtrip:
  assumes env: "page_allocator env" and ok: "kmalloc_ok st live K" and sz: "1 \<le> sz" "sz < 4092"
  shows "\<exists>r st'. kmalloc_node env st sz flags node = Inr (r, st') \<and>
    (\<forall>x. x div 2 \<in> live_set live \<longrightarrow> mem st' x = mem st x) \<and>
    (case r of
       None \<Rightarrow> st' = st
     | Some p \<Rightarrow> {(p - 4) div 2..<(p - 4) div 2 + SLOB_UNITS (sz + 4)} \<inter> live_set live = {} \<and>
         kmalloc_ok st' (live((p - 4) div 2 \<mapsto> SLOB_UNITS (sz + 4))) (K(p \<mapsto> sz)) \<and>
         ksize st' p = Inr (2 * ((sz + 1) div 2)) \<and>
         (\<exists>st''. kfree st' p = Inr st'' \<and> kmalloc_ok st'' live K \<and>
            (\<forall>x. x div 2 \<in> live_set live \<longrightarrow> mem st'' x = mem st x)))"
proof -
  from kmalloc_node_small [OF env ok sz, of flags node] obtain r st' where
    k: "kmalloc_node env st sz flags node = Inr (r, st')"
      "case r of None \<Rightarrow> st' = st
        | Some p \<Rightarrow> K p = None \<and> kmalloc_ok st' (live((p - 4) div 2 \<mapsto> SLOB_UNITS (sz + 4))) (K(p \<mapsto> sz)) \<and>
            {(p - 4) div 2..<(p - 4) div 2 + SLOB_UNITS (sz + 4)} \<inter> live_set live = {}"
      "\<forall>x. x div 2 \<in> live_set live \<longrightarrow> mem st' x = mem st x" by blast
  show ?thesis
  proof (cases r)
    case None
    with k show ?thesis by simp
  next
    case (Some p)
    let ?b = "(p - 4) div 2"
    have kp: "K p = None" "kmalloc_ok st' (live(?b \<mapsto> SLOB_UNITS (sz + 4))) (K(p \<mapsto> sz))"
      "{?b..<?b + SLOB_UNITS (sz + 4)} \<inter> live_set live = {}" using k(2) Some by auto
    obtain FB where "slob_pages st FB live" using ok by (auto simp: kmalloc_ok_def slob_ok_def)
    moreover have "?b \<in> {?b..<?b + SLOB_UNITS (sz + 4)}" using SLOB_UNITS_pos [of "sz + 4"] sz by simp
    ultimately have lb: "live ?b = None" using kp(3) not_live by blast
    then have l: "(live(?b \<mapsto> SLOB_UNITS (sz + 4)))(?b := None) = live" "(K(p \<mapsto> sz))(p := None) = K"
      using kp(1) by auto
    from kfree_small [OF kp(2), of p sz] obtain st'' where
      f: "kfree st' p = Inr st''" "kmalloc_ok st'' live K" "\<forall>x. x div 2 \<in> live_set live \<longrightarrow> mem st'' x = mem st' x"
      unfolding l by auto
    have "ksize st' p = Inr (2 * ((sz + 1) div 2))" using ksize_small [OF kp(2), of p sz] by simp
    with f k(1,3) kp Some show ?thesis by auto
  qed
qed

theorem kmalloc_kfree_roundtrip_witness:
  "page_allocator single_env \<and> kmalloc_ok slob_boot Map.empty Map.empty \<and>
   (\<exists>r st'. kmalloc_node single_env slob_boot 100 0 (-1) = Inr (r, st'))"
proof -
  have ok: "kmalloc_ok slob_boot Map.empty Map.empty" using slob_boot_ok by (simp add: kmalloc_ok_def)
  show ?thesis
    using kmalloc_kfree_roundtrip [OF single_env_ok ok, of 100 0 "-1"] ok single_env_ok by auto
qed

text \<open>
  C7. \<open>kfree\<close> at any later time: in every heap where \<open>kmalloc\<close> handed out \<open>p\<close> for \<open>sz\<close> bytes and the
  client left the header alone, \<open>ksize\<close> answers for that size and \<open>kfree\<close> returns with exactly that
  block released.
\<close>

theorem kfree_releases:
  assumes ok: "kmalloc_ok st live K" and K: "K p = Some sz"
  shows "ksize st p = Inr (2 * ((sz + 1) div 2)) \<and>
    (\<exists>st'. kfree st p = Inr st' \<and> kmalloc_ok st' (live((p - 4) div 2 := None)) (K(p := None)) \<and>
      (\<forall>x. x div 2 \<in> live_set (live((p - 4) div 2 := None)) \<longrightarrow> mem st' x = mem st x))"
  using ksize_small [OF ok K] kfree_small [OF ok K] by blast

theorem kfree_releases_witness:
  "kmalloc_ok (full_page (wr32 (\<lambda>_. 0) 4096 1996)) (full_live 1000) [4100 \<mapsto> 1996] \<and>
   ksize (full_page (wr32 (\<lambda>_. 0) 4096 1996)) 4100 = Inr 1996 \<and>
   (\<exists>st'. kfree (full_page (wr32 (\<lambda>_. 0) 4096 1996)) 4100 = Inr st')"
  using kfree_releases [OF full_page_kmalloc_ok, of 4100 1996] full_page_kmalloc_ok by auto

text \<open>
  C8. Requests of 4092 bytes and more are whole pages: when \<open>kmalloc\<close> succeeds, the pages it got are the
  smallest power of two that holds the request, none of them is a SLOB page, \<open>ksize\<close> is the exact
  request, and \<open>kfree\<close> gives the pages back; the SLOB heap is not touched.
\<close>

theorem kmalloc_large:
  assumes env: "page_allocator env" and ok: "slob_ok st live" and sz: "4092 \<le> sz" "sz \<le> 2 ^ 32"
    and a: "kmalloc_node env st sz flags node = Inr (Some p, st')"
  shows "slob_ok st' live \<and> mem st' = mem st \<and> frames st' = (frames st)(p div 4096 \<mapsto> get_order sz) \<and>
    sz \<le> 4096 * 2 ^ get_order sz \<and> (get_order sz \<noteq> 0 \<longrightarrow> 4096 * 2 ^ (get_order sz - 1) < sz) \<and>
    ksize st' p = Inr sz \<and>
    (\<exists>st''. kfree st' p = Inr st'' \<and> frames st'' = frames st \<and> slob_ok st'' live)"
proof -
  from kmalloc_node_large [OF env ok sz(1) a] obtain pg where
    pg: "p = 4096 * pg" "frames st' = (frames st)(pg \<mapsto> get_order sz)" "frames st pg = None"
      "slob_ok st' live" "\<not> PageSlab (pages st' pg)" "page_private (pages st' pg) = sz" "1 \<le> pg" "mem st' = mem st"
      "\<not> PageSlobFree (pages st' pg)" .
  have "ksize st' p = Inr sz"
    using pg by (simp add: ksize_def ZERO_SIZE_PTR_def slob_page_of_def PAGE_SIZE_def is_slob_page_def)
  moreover have "(frames st')(pg := None) = frames st" using pg(2,3) by auto
  ultimately show ?thesis
    using pg get_order_spec [of sz] sz kfree_large [OF pg(4,7,5,9)] by simp
qed

theorem kmalloc_large_witness:
  "\<exists>p st'. kmalloc_node single_env slob_boot 4096 0 (-1) = Inr (Some p, st') \<and> ksize st' p = Inr 4096"
proof -
  have g: "get_order 4096 = 0"
    by (simp add: get_order_def u32_id order_loop.simps [of "Suc 0"] order_loop.simps [of 1])
  have "\<exists>p st'. kmalloc_node single_env slob_boot 4096 0 (-1) = Inr (Some p, st')"
    by (simp add: kmalloc_node_def PAGE_SIZE_def Let_def g slob_new_pages_def single_env_def slob_boot_def)
  then obtain p st' where a: "kmalloc_node single_env slob_boot 4096 0 (-1) = Inr (Some p, st')" by blast
  from kmalloc_large [OF single_env_ok slob_boot_ok _ _ a] show ?thesis using a by auto
qed

section \<open>Slab caches with deferred freeing\<close>

text \<open>
  C9. Freeing an object of a \<open>SLAB_DESTROY_BY_RCU\<close> cache does not release it: the block stays live with
  its size in its footer, it is appended to the queue of callbacks, and nothing outside the block is
  written.
\<close>

theorem kmem_cache_free_defers:
  assumes ok: "slob_ok st live" and p: "pending st live qs" "rcu_queue st = map rcu_head_of qs"
    and c: "c_flags c AND SLAB_DESTROY_BY_RCU \<noteq> 0" "12 \<le> c_size c" "c_size c < 4096"
    and b: "live b = Some (SLOB_UNITS (c_size c))" "b \<notin> fst ` set qs"
  shows "\<exists>st'. kmem_cache_free st c (2 * b) = Inr st' \<and> slob_ok st' live \<and>
    pending st' live (qs @ [(b, c_size c)]) \<and> rcu_queue st' = map rcu_head_of (qs @ [(b, c_size c)]) \<and>
    (\<forall>x. x div 2 \<notin> {b..<b + SLOB_UNITS (c_size c)} \<longrightarrow> mem st' x = mem st x)"
proof -
  let ?sz = "c_size c" and ?h = "rcu_head_of (b, c_size c)"
  define m' where "m' = wr32 (mem st) (?h + 8) ?sz"
  define st' where "st' = st\<lparr>mem := m', rcu_queue := rcu_queue st @ [?h]\<rparr>"
  have run: "kmem_cache_free st c (2 * b) = Inr st'"
    using c(1) by (simp add: kmem_cache_free_def Let_def st'_def m'_def rcu_head_of_def)
  have out: "m' x = mem st x" if "x div 2 \<notin> {b..<b + SLOB_UNITS ?sz}" for x
  proof -
    have "\<not> (?h + 8 \<le> x \<and> x < ?h + 12)" using rcu_footer_in_block [OF c(2,3)] that by blast
    then show ?thesis unfolding m'_def by (intro wr32_frame) auto
  qed
  have lv: "{b..<b + SLOB_UNITS ?sz} \<subseteq> live_set live" using live_setI [of live b] b(1) by blast
  have "slob_ok (st\<lparr>mem := m'\<rparr>) live" using out lv by (intro slob_ok_mem [OF ok]) blast
  then have "slob_ok st' live" by (rule slob_ok_frame) (simp_all add: st'_def)
  moreover have "waits st' live q" if q: "q \<in> set qs" for q
  proof (rule waits_frame)
    show w: "waits st live q" using p(1) q by (simp add: pending_def)
    have "fst q \<noteq> b" using b(2) q by auto
    then have "{b..<b + SLOB_UNITS ?sz} \<inter> {fst q..<fst q + SLOB_UNITS (snd q)} = {}"
      using slob_ok_disjoint [OF ok] b(1) w unfolding live_disjoint_def waits_def by metis
    then show "\<forall>x. x div 2 \<in> {fst q..<fst q + SLOB_UNITS (snd q)} \<longrightarrow> mem st' x = mem st x"
      using out by (auto simp: st'_def)
  qed simp
  moreover have "waits st' live (b, ?sz)"
    using b(1) c(2,3) by (simp add: waits_def st'_def m'_def rd32_wr32)
  ultimately show ?thesis using run p b(2) out by (auto simp: pending_def st'_def)
qed

definition rcu_cache :: kmem_cache where
  "rcu_cache = \<lparr>c_size = 4076, c_align = 4, c_flags = SLAB_DESTROY_BY_RCU, c_name = ''rcu'', c_ctor = None\<rparr>"

theorem kmem_cache_free_defers_witness:
  "\<exists>st'. kmem_cache_free (full_page (\<lambda>_. 0)) rcu_cache 4116 = Inr st' \<and> slob_ok st' (full_live 10) \<and>
     rcu_queue st' = [8180]"
proof -
  have l: "full_live 10 2058 = Some 2038" using full_live_simps(2) [of 10] by simp
  have p: "pending (full_page (\<lambda>_. 0)) (full_live 10) []" "rcu_queue (full_page (\<lambda>_. 0)) = map rcu_head_of []"
    by (simp_all add: pending_def full_page_def slob_boot_def)
  from kmem_cache_free_defers [OF full_page_ok p, of rcu_cache 2058] l show ?thesis
    by (auto simp: rcu_cache_def SLAB_DESTROY_BY_RCU_def SLOB_UNITS_eq rcu_head_of_def sizeof_slob_rcu_def)
qed

lemma live_set_mono: "(\<And>b n. l b = Some n \<Longrightarrow> l' b = Some n) \<Longrightarrow> live_set l \<subseteq> live_set l'"
  unfolding live_set_def by blast

text \<open>
  C10. Destroying such a cache first runs every queued callback and then frees the cache descriptor:
  afterwards exactly the queued blocks and the descriptor are no longer live, and all other blocks
  keep their bytes.
\<close>

theorem kmem_cache_destroy_releases:
  assumes ok: "slob_ok st live" and p: "pending st live qs" "rcu_queue st = map rcu_head_of qs"
    and c: "c_flags c AND SLAB_DESTROY_BY_RCU \<noteq> 0"
    and a: "live a = Some (SLOB_UNITS sizeof_kmem_cache)" "a \<notin> fst ` set qs"
  shows "\<exists>st'. kmem_cache_destroy st (2 * a) c = Inr st' \<and>
    slob_ok st' (live |` (- insert a (fst ` set qs))) \<and>
    (\<forall>x. x div 2 \<in> live_set (live |` (- insert a (fst ` set qs))) \<longrightarrow> mem st' x = mem st x)"
proof -
  let ?st = "st\<lparr>rcu_queue := []\<rparr>" and ?live = "live |` (- fst ` set qs)"
  have ok1: "slob_ok ?st live" by (rule slob_ok_frame [OF ok]) simp_all
  have p1: "pending ?st live qs" using p(1) by (simp add: pending_def waits_def)
  from rcu_run_pending [OF ok1 p1] obtain st1 where
    r: "rcu_run (map rcu_head_of qs) ?st = Inr st1" "slob_ok st1 ?live"
      "\<forall>x. x div 2 \<in> live_set ?live \<longrightarrow> mem st1 x = mem st x" by auto
  have "?live a = Some (SLOB_UNITS sizeof_kmem_cache)" using a by simp
  from slob_free_spec [OF r(2) this] obtain st' where
    f: "slob_free st1 (2 * a) (int sizeof_kmem_cache) = Inr st'" "free_post st1 ?live a st'"
    by (auto simp: sizeof_kmem_cache_def)
  have eq: "?live(a := None) = live |` (- insert a (fst ` set qs))" by (auto simp: restrict_map_def)
  have "live_set (?live(a := None)) \<subseteq> live_set ?live"
    by (rule live_set_mono) (metis fun_upd_apply option.distinct(1))
  then have "\<forall>x. x div 2 \<in> live_set (?live(a := None)) \<longrightarrow> mem st' x = mem st x"
    using f(2) r(3) unfolding free_post_def by (metis subsetD)
  moreover have "kmem_cache_destroy st (2 * a) c = Inr st'"
    using c r(1) f(1) p(2) by (simp add: kmem_cache_destroy_def rcu_barrier_def)
  ultimately show ?thesis using f(2) unfolding free_post_def eq by blast
qed

theorem kmem_cache_destroy_releases_witness:
  "\<exists>st'. kmem_cache_destroy ((full_page (wr32 (\<lambda>_. 0) 8188 4076))\<lparr>rcu_queue := [8180]\<rparr>) 4096 rcu_cache = Inr st' \<and>
     slob_ok st' (full_live 10 |` (- {2048, 2058}))"
proof -
  let ?st = "(full_page (wr32 (\<lambda>_. 0) 8188 4076))\<lparr>rcu_queue := [8180]\<rparr>" and ?qs = "[(2058, 4076)]"
  have l: "full_live 10 2058 = Some 2038" "full_live 10 2048 = Some 10"
    using full_live_simps [of 10] by simp_all
  have ok: "slob_ok ?st (full_live 10)"
    by (rule slob_ok_frame [OF full_page_ok [of 10 "wr32 (\<lambda>_. 0) 8188 4076"]]) simp_all
  have p: "pending ?st (full_live 10) ?qs" "rcu_queue ?st = map rcu_head_of ?qs"
    by (simp_all add: pending_def waits_def rcu_head_of_def sizeof_slob_rcu_def full_page_def l SLOB_UNITS_eq rd32_wr32)
  from kmem_cache_destroy_releases [OF ok p, of rcu_cache 2048] l show ?thesis
    by (auto simp: rcu_cache_def SLAB_DESTROY_BY_RCU_def SLOB_UNITS_eq sizeof_kmem_cache_def)
qed

section \<open>The counters of the system calls\<close>

text \<open>
  C11. \<open>mem_claimed\<close> is exact: as long as it equals the bytes of the pages the allocator holds (as a 32-bit
  \<open>int\<close>), it does so after every \<open>slob_alloc\<close> and every \<open>slob_free\<close>, and \<open>sys_get_slob_amt_claimed\<close>
  reports it.
\<close>

theorem slob_claimed_exact:
  assumes env: "page_allocator env" and ok: "slob_ok st live" and c: "claimed_ok st"
    and al: "valid_align al" and sz: "1 \<le> sz" "sz \<le> 4096"
  shows "(\<forall>r st'. slob_alloc env st sz flags al node = Inr (r, st') \<longrightarrow>
       sys_get_slob_amt_claimed st' = s32 (int (PAGE_SIZE * card {sp. is_slob_page st' sp}))) \<and>
    (\<forall>b st'. live b = Some (SLOB_UNITS sz) \<longrightarrow> slob_free st (2 * b) (int sz) = Inr st' \<longrightarrow>
       sys_get_slob_amt_claimed st' = s32 (int (PAGE_SIZE * card {sp. is_slob_page st' sp})))"
proof -
  have eq: "claimed_ok s \<longleftrightarrow> sys_get_slob_amt_claimed s = s32 (int (PAGE_SIZE * card {sp. is_slob_page s sp}))" for s
    by (simp add: claimed_ok_def sys_get_slob_amt_claimed_def slab_set_def is_slob_page_def)
  have "claimed_ok st'" if "slob_alloc env st sz flags al node = Inr (r, st')" for r st'
    using claimed_ok_alloc [OF env ok al sz c that] .
  moreover have "claimed_ok st'" if b: "live b = Some (SLOB_UNITS sz)" "slob_free st (2 * b) (int sz) = Inr st'" for b st'
    using slob_free_spec [OF ok b(1) sz] b(2) claimed_ok_free [OF ok c] by (metis sum.inject(2))
  ultimately show ?thesis unfolding eq by blast
qed

theorem slob_claimed_exact_witness:
  "claimed_ok slob_boot \<and>
   (\<exists>r st'. slob_alloc single_env slob_boot 100 0 4 (-1) = Inr (r, st') \<and>
      sys_get_slob_amt_claimed st' = s32 (int (PAGE_SIZE * card {sp. is_slob_page st' sp})))"
proof -
  have c: "claimed_ok slob_boot" by (simp add: claimed_ok_def slob_boot_def slab_set_def s32_id)
  obtain b s' where "heap_alloc (100, 0, 4, -1) (single_env, slob_boot) = Inr (b, s')"
    using heap_alloc_law [of "(single_env, slob_boot)" Map.empty "(100, 0, 4, -1)"] single_env_ok slob_boot_ok valid_align_4
    by (auto simp: heap_ok_def heap_valid_def)
  then obtain r st' where "slob_alloc single_env slob_boot 100 0 4 (-1) = Inr (r, st')"
    by (auto simp: heap_alloc_def run_bind_Inr_iff)
  with slob_claimed_exact [OF single_env_ok slob_boot_ok c valid_align_4, of 100 0 "-1"] c show ?thesis by auto
qed

text \<open>
  C12. \<open>mem_used\<close> is not: an allocation that takes a fresh page does not add to it, but freeing the block
  subtracts its size. Starting with an empty list and a page to claim, one \<open>slob_alloc\<close> followed by
  \<open>slob_free\<close> of the block leaves \<open>mem_used\<close> lower by the size than it was, so that
  \<open>sys_get_slob_amt_free\<close> over-reports from then on.
\<close>

theorem slob_mem_used_drifts:
  assumes env: "page_allocator env" and ok: "slob_ok st live" and al: "valid_align al"
    and sz: "1 \<le> sz" "sz \<le> 4096"
    and empty: "nxt (lists st) (Node (slob_list_of sz)) = Node (slob_list_of sz)"
    and page: "slob_new_pages env st (flags AND NOT GFP_ZERO) 0 node = (Some addr, st0)"
  shows "\<exists>b st1 st2. slob_alloc env st sz flags al node = Inr (Some b, st1) \<and> mem_used st1 = mem_used st \<and>
    slob_free st1 (2 * b) (int sz) = Inr st2 \<and> mem_used st2 = s32 (mem_used st - int sz)"
proof -
  have sz': "sz < 2 ^ 32 - 1" using sz by simp
  have loop: "slob_alloc_loop env (slob_list_of sz) sz al node (Node (slob_list_of sz)) st = Some (None, st)"
    by (simp add: slob_alloc_loop.simps)
  obtain A FB where s: "slob_lists st A" and p: "slob_pages st FB live"
    using ok unfolding slob_ok_def by blast
  obtain xs where l: "A (Node (slob_list_of sz)) = Some xs"
    using slob_list_of_head s unfolding slob_lists_def by blast
  from slob_new_pages_some [OF env page] obtain pg where
    pg: "addr = pg * PAGE_SIZE" "new_frames (frames st) pg 0" "st0 = st\<lparr>frames := (frames st)(pg \<mapsto> 0)\<rparr>" .
  have addr: "addr div 2 = 2048 * pg" "slob_page_of addr = pg"
    using pg(1) by (simp_all add: PAGE_SIZE_def slob_page_of_def)
  from slob_alloc_fresh [OF p s l al sz pg(2)] obtain b st' where
    a: "slob_page_alloc (slob_new_page_setup st0 (2048 * pg) (slob_list_of sz)) pg sz al = Some (Some b, st')"
      "alloc_post st live (SLOB_UNITS sz) al b st'" "mem_used st' = mem_used st" unfolding pg(3) by metis
  define st3 where "st3 = st'\<lparr>mem_claimed := s32 (mem_claimed st' + int PAGE_SIZE)\<rparr>"
  have run: "slob_alloc env st sz flags al node = Inr (Some b, slob_zero flags b sz st3)"
    using loop empty page a(1) addr by (simp add: slob_alloc_def Let_def st3_def)
  have post: "alloc_post st live (SLOB_UNITS sz) al b st3"
    using a(2) slob_ok_frame [of st' _ st3] by (auto simp: alloc_post_def st3_def)
  have "slob_ok (slob_zero flags b sz st3) (live(b \<mapsto> SLOB_UNITS sz))"
    using slob_zero_post(1) [OF post sz', of flags] by (simp add: alloc_post_def)
  from slob_free_spec [OF this _ sz, of b] obtain st2 where
    "slob_free (slob_zero flags b sz st3) (2 * b) (int sz) = Inr st2"
    "mem_used st2 = s32 (mem_used (slob_zero flags b sz st3) - int sz)" by auto
  then show ?thesis using run a(3) by (auto simp: st3_def)
qed

theorem slob_mem_used_drifts_witness:
  "mem_used slob_boot = 0 \<and>
   (\<exists>b st1 st2. slob_alloc single_env slob_boot 100 0 4 (-1) = Inr (Some b, st1) \<and>
      slob_free st1 (2 * b) 100 = Inr st2 \<and> mem_used st2 = - 100)"
proof -
  have p: "slob_new_pages single_env slob_boot (0 AND NOT GFP_ZERO) 0 (-1) =
      (Some 4096, slob_boot\<lparr>frames := (frames slob_boot)(1 \<mapsto> 0)\<rparr>)"
    by (simp add: slob_new_pages_def single_env_def slob_boot_def PAGE_SIZE_def)
  from slob_mem_used_drifts [OF single_env_ok slob_boot_ok valid_align_4 _ _ _ p, of 100] show ?thesis
    by (auto simp: slob_boot_def s32_id)
qed

end
