(* ===== verification/Plist.thy ===== *)
theory Plist
  imports Klist
begin

text \<open>
  Priority-sorted lists (\<open>lib/plist.c\<close>, \<open>include/linux/plist.h\<close>). Every node is on the circular list of
  its head, sorted by priority; the first node of each priority is also on a second circular list
  without a head, which \<open>plist_add\<close> walks. A node has two list heads, \<open>NodeL a\<close> and \<open>PrioL a\<close>.
\<close>

datatype ('h, 'a) pnode = PHead 'h | NodeL 'a | PrioL 'a

record ('h, 'a) plists =
  pl :: "('h, 'a) pnode lheap"
  pl_prio :: "'a \<Rightarrow> int"

definition plist_head_init :: "('h, 'a) plists \<Rightarrow> 'h \<Rightarrow> ('h, 'a) plists" where
  "plist_head_init st head = st\<lparr>pl := INIT_LIST_HEAD (pl st) (Node (PHead head))\<rparr>"

definition plist_node_init :: "('h, 'a) plists \<Rightarrow> 'a \<Rightarrow> int \<Rightarrow> ('h, 'a) plists" where
  "plist_node_init st node prio =
     (let st = st\<lparr>pl_prio := (pl_prio st)(node := prio)\<rparr>;
          st = st\<lparr>pl := INIT_LIST_HEAD (pl st) (Node (PrioL node))\<rparr>
      in st\<lparr>pl := INIT_LIST_HEAD (pl st) (Node (NodeL node))\<rparr>)"

definition plist_head_empty :: "('h, 'a) plists \<Rightarrow> 'h \<Rightarrow> bool" where
  "plist_head_empty st head \<longleftrightarrow> list_empty (pl st) (Node (PHead head))"

definition plist_node_empty :: "('h, 'a) plists \<Rightarrow> 'a \<Rightarrow> bool" where
  "plist_node_empty st node \<longleftrightarrow> list_empty (pl st) (Node (NodeL node))"

text \<open>\<open>list_entry\<close> of a pointer that is not a node's list head has no meaning: \<open>None\<close>.\<close>

definition node_entry :: "('h, 'a) pnode lptr \<Rightarrow> 'a option" where
  "node_entry p = (case p of Node (NodeL a) \<Rightarrow> Some a | _ \<Rightarrow> None)"

definition prio_entry :: "('h, 'a) pnode lptr \<Rightarrow> 'a option" where
  "prio_entry p = (case p of Node (PrioL a) \<Rightarrow> Some a | _ \<Rightarrow> None)"

definition plist_first :: "('h, 'a) plists \<Rightarrow> 'h \<Rightarrow> 'a option" where
  "plist_first st head = node_entry (nxt (pl st) (Node (PHead head)))"

text \<open>The loop of \<open>plist_add\<close>: the result is \<open>node_next\<close> (\<open>None\<close> for the head), \<open>iter\<close> and \<open>prev\<close>.\<close>

partial_function (option) plist_add_loop ::
  "('h, 'a) plists \<Rightarrow> 'a \<Rightarrow> 'a \<Rightarrow> 'a \<Rightarrow> 'a option \<Rightarrow> ('a option \<times> 'a \<times> 'a option) option" where
  "plist_add_loop st node first iter prev =
     (if pl_prio st node < pl_prio st iter then Some (Some iter, iter, prev)
      else case prio_entry (nxt (pl st) (Node (PrioL iter))) of
             None \<Rightarrow> None
           | Some next \<Rightarrow>
               if next = first then Some (None, next, Some iter)
               else plist_add_loop st node first next (Some iter))"

definition plist_add :: "('h, 'a) plists \<Rightarrow> 'a \<Rightarrow> 'h \<Rightarrow> ('h, 'a) plists option" where
  "plist_add st node head =
     (if plist_head_empty st head
      then Some (st\<lparr>pl := list_add_tail (pl st) (Node (NodeL node)) (Node (PHead head))\<rparr>)
      else case plist_first st head of
        None \<Rightarrow> None
      | Some first \<Rightarrow>
          (case plist_add_loop st node first first None of
             None \<Rightarrow> None
           | Some (node_next, iter, prev) \<Rightarrow>
               (let st = (if prev = None \<or> pl_prio st (the prev) \<noteq> pl_prio st node
                          then st\<lparr>pl := list_add_tail (pl st) (Node (PrioL node)) (Node (PrioL iter))\<rparr>
                          else st);
                    nn = (case node_next of None \<Rightarrow> Node (PHead head) | Some i \<Rightarrow> Node (NodeL i))
                in Some (st\<lparr>pl := list_add_tail (pl st) (Node (NodeL node)) nn\<rparr>))))"

definition plist_del :: "('h, 'a) plists \<Rightarrow> 'a \<Rightarrow> 'h \<Rightarrow> ('h, 'a) plists" where
  "plist_del st node head =
     (let st = (if \<not> list_empty (pl st) (Node (PrioL node))
                then let next = nxt (pl st) (Node (NodeL node));
                         st = (if next \<noteq> Node (PHead head)
                               then case node_entry next of
                                      None \<Rightarrow> st
                                    | Some n \<Rightarrow>
                                        if list_empty (pl st) (Node (PrioL n))
                                        then st\<lparr>pl := list_add (pl st) (Node (PrioL n)) (Node (PrioL node))\<rparr>
                                        else st
                               else st)
                     in st\<lparr>pl := list_del_init (pl st) (Node (PrioL node))\<rparr>
                else st)
      in st\<lparr>pl := list_del_init (pl st) (Node (NodeL node))\<rparr>)"

section \<open>The first node of every priority\<close>

fun heads :: "('a \<Rightarrow> int) \<Rightarrow> 'a list \<Rightarrow> 'a list" where
  "heads f [] = []"
| "heads f [x] = [x]"
| "heads f (x # y # ys) = (if f x = f y then heads f (x # ys) else x # heads f (y # ys))"

lemma heads_Nil_iff [simp]: "heads f xs = [] \<longleftrightarrow> xs = []"
  by (induction f xs rule: heads.induct) auto

lemma hd_heads [simp]: "xs \<noteq> [] \<Longrightarrow> hd (heads f xs) = hd xs"
  by (induction f xs rule: heads.induct) auto

lemma set_heads_subset: "set (heads f xs) \<subseteq> set xs"
  by (induction f xs rule: heads.induct) auto

lemma heads_cong: "(\<And>x. x \<in> set xs \<Longrightarrow> f x = g x) \<Longrightarrow> heads f xs = heads g xs"
  by (induction g xs rule: heads.induct) auto

lemma heads_append:
  "ls \<noteq> [] \<Longrightarrow> rs \<noteq> [] \<Longrightarrow> sorted (map f (ls @ rs)) \<Longrightarrow> f (last ls) < f (hd rs) \<Longrightarrow>
   heads f (ls @ rs) = heads f ls @ heads f rs"
proof (induction f ls rule: heads.induct)
  case (2 f x)
  then show ?case by (cases rs) auto
next
  case (3 f x y ys)
  show ?case
  proof (cases "f x = f y")
    case True
    have "f (last (x # ys)) < f (hd rs)" using 3(6) True by (cases ys) auto
    moreover have "sorted (map f ((x # ys) @ rs))" using 3(5) by auto
    ultimately show ?thesis using 3(1) [OF True] 3(4) True by simp
  next
    case False
    then show ?thesis using 3 by simp
  qed
qed simp

lemma heads_last: "xs \<noteq> [] \<Longrightarrow> sorted (map f xs) \<Longrightarrow> f (last (heads f xs)) = f (last xs)"
proof (induction f xs rule: heads.induct)
  case (3 f x y ys)
  show ?case
  proof (cases "f x = f y")
    case True
    have "sorted (map f (x # ys))" using 3(4) by auto
    with 3(1) [OF True] True show ?thesis by (cases ys) auto
  next
    case False
    with 3 show ?thesis by simp
  qed
qed simp_all

lemma heads_snoc_same:
  "ls \<noteq> [] \<Longrightarrow> sorted (map f (ls @ n # rs)) \<Longrightarrow> f (last ls) = f n \<Longrightarrow> heads f (ls @ n # rs) = heads f (ls @ rs)"
proof (induction f ls rule: heads.induct)
  case (2 f x)
  then show ?case by simp
next
  case (3 f x y ys)
  show ?case
  proof (cases "f x = f y")
    case True
    have "sorted (map f ((x # ys) @ n # rs))" using 3(4) by auto
    moreover have "f (last (x # ys)) = f n" using 3(5) True by (cases ys) auto
    ultimately show ?thesis using 3(1) [OF True] True by simp
  next
    case False
    with 3 show ?thesis by simp
  qed
qed simp

lemma heads_distinct: "distinct xs \<Longrightarrow> distinct (heads f xs)"
proof (induction f xs rule: heads.induct)
  case (3 f x y ys)
  then show ?case using set_heads_subset [of f "y # ys"] by auto
qed simp_all

lemma heads_Cons_same: "y = hd ys \<Longrightarrow> ys \<noteq> [] \<Longrightarrow> f x = f y \<Longrightarrow> heads f (x # ys) = x # tl (heads f ys)"
proof (induction f ys rule: heads.induct)
  case (3 f y' z zs)
  then show ?case by auto
qed simp_all

lemma heads_strict: "sorted (map f xs) \<Longrightarrow> sorted_wrt (\<lambda>a b. f a < f b) (heads f xs)"
proof (induction f xs rule: heads.induct)
  case (3 f x y ys)
  show ?case
  proof (cases "f x = f y")
    case True
    with 3 show ?thesis by simp
  next
    case False
    have "f x < f b" if "b \<in> set (heads f (y # ys))" for b
      using that set_heads_subset [of f "y # ys"] 3(3) False by fastforce
    with 3 False show ?thesis by simp
  qed
qed simp_all

section \<open>The representation\<close>

text \<open>
  \<open>P h\<close> are the nodes on the list of head \<open>h\<close> and \<open>own\<close> tells which head a node is on. \<open>plA\<close> says which
  list every list head in the heap carries: a head the nodes of its list, the first node of a list
  the circle of first nodes, a node that is on no list (or not first of its priority) nothing.
\<close>

abbreviation hptr :: "'h \<Rightarrow> ('h, 'a) pnode lptr" where "hptr h \<equiv> Node (PHead h)"
abbreviation nptr :: "'a \<Rightarrow> ('h, 'a) pnode lptr" where "nptr a \<equiv> Node (NodeL a)"
abbreviation rptr :: "'a \<Rightarrow> ('h, 'a) pnode lptr" where "rptr a \<equiv> Node (PrioL a)"

definition plA :: "('a \<Rightarrow> int) \<Rightarrow> ('h \<Rightarrow> 'a list) \<Rightarrow> ('a \<rightharpoonup> 'h) \<Rightarrow> ('h, 'a) pnode lists" where
  "plA f P own p = (case p of
       Node (PHead h) \<Rightarrow> Some (map nptr (P h))
     | Node (NodeL a) \<Rightarrow> (if own a = None then Some [] else None)
     | Node (PrioL a) \<Rightarrow> (case own a of
           None \<Rightarrow> Some []
         | Some h \<Rightarrow> if a = hd (P h) then Some (map rptr (tl (heads f (P h))))
                    else if a \<in> set (heads f (P h)) then None else Some [])
     | _ \<Rightarrow> None)"

definition plist_ok :: "('h, 'a) plists \<Rightarrow> ('h \<Rightarrow> 'a list) \<Rightarrow> ('a \<rightharpoonup> 'h) \<Rightarrow> bool" where
  "plist_ok st P own \<longleftrightarrow>
     fam (pl st) (plA (pl_prio st) P own) \<and> (\<forall>a h. own a = Some h \<longleftrightarrow> a \<in> set (P h)) \<and>
     (\<forall>h. sorted (map (pl_prio st) (P h)))"

text \<open>\<open>plA\<close> with the circle of head \<open>h\<close> taken out.\<close>

definition base :: "('a \<Rightarrow> int) \<Rightarrow> ('h \<Rightarrow> 'a list) \<Rightarrow> ('a \<rightharpoonup> 'h) \<Rightarrow> 'h \<Rightarrow> ('h, 'a) pnode lists" where
  "base f P own h p = (case p of
       Node (PrioL a) \<Rightarrow>
         (if own a = Some h then if a \<in> set (heads f (P h)) then None else Some [] else plA f P own p)
     | _ \<Rightarrow> plA f P own p)"

lemma plA_simps [simp]:
  "plA f P own (hptr h) = Some (map nptr (P h))"
  "plA f P own (nptr a) = (if own a = None then Some [] else None)"
  "plA f P own LIST_POISON1 = None" "plA f P own LIST_POISON2 = None"
  by (simp_all add: plA_def)

lemma plA_prio:
  "plA f P own (rptr a) = (case own a of
     None \<Rightarrow> Some []
   | Some h \<Rightarrow> if a = hd (P h) then Some (map rptr (tl (heads f (P h))))
              else if a \<in> set (heads f (P h)) then None else Some [])"
  by (simp add: plA_def)

lemma base_simps [simp]:
  "base f P own h (hptr k) = Some (map nptr (P k))"
  "base f P own h (nptr a) = (if own a = None then Some [] else None)"
  "base f P own h LIST_POISON1 = None" "base f P own h LIST_POISON2 = None"
  "base f P own h (rptr a) =
     (if own a = Some h then if a \<in> set (heads f (P h)) then None else Some [] else plA f P own (rptr a))"
  by (simp_all add: base_def)

lemma heads_hd_tl: "xs \<noteq> [] \<Longrightarrow> heads f xs = hd xs # tl (heads f xs)"
  using hd_heads [of xs f] by (cases "heads f xs") auto

lemma pnode_ptr_cases:
  obtains (head) k where "p = hptr k" | (node) a where "p = nptr a" | (prio) a where "p = rptr a"
  | (poison) "p = LIST_POISON1 \<or> p = LIST_POISON2"
proof (cases p)
  case (Node x)
  then show thesis using that by (cases x) auto
qed (use that in auto)

lemma circle_other: "p \<notin> set cs \<Longrightarrow> circle B cs p = B p"
  by (cases cs) auto

lemma plA_circle:
  assumes own: "\<forall>a. own a = Some h \<longleftrightarrow> a \<in> set (P h)"
  shows "plA f P own = circle (base f P own h) (map rptr (heads f (P h)))"
proof (cases "P h = []")
  case True
  then have "own a \<noteq> Some h" for a using own by simp
  then have "plA f P own p = base f P own h p" for p by (cases p rule: pnode_ptr_cases) auto
  with True show ?thesis by auto
next
  case False
  have "plA f P own p = ((base f P own h)(rptr (hd (P h)) \<mapsto> map rptr (tl (heads f (P h))))) p" for p
  proof (cases p rule: pnode_ptr_cases)
    case (prio a)
    have hd: "own (hd (P h)) = Some h" using own False by simp
    show ?thesis
    proof (cases "own a = Some h")
      case True
      then show ?thesis using prio by (simp add: plA_prio)
    next
      case False
      then have "a \<noteq> hd (P h)" using hd by auto
      then show ?thesis using prio False by simp
    qed
  qed auto
  then show ?thesis using heads_hd_tl [OF False, of f] by (metis circle_simps(2) list.simps(9) ext)
qed

lemma base_circle_None:
  assumes "\<forall>a. own a = Some h \<longleftrightarrow> a \<in> set (P h)"
  shows "\<forall>c \<in> set (map rptr (heads f (P h))). base f P own h c = None"
  using assms set_heads_subset [of f "P h"] by auto

section \<open>Initialising and testing\<close>

lemma plist_head_empty_iff:
  assumes "plist_ok st P own"
  shows "plist_head_empty st h \<longleftrightarrow> P h = []"
proof -
  have f: "fam (pl st) (plA (pl_prio st) P own)" using assms by (simp add: plist_ok_def)
  show ?thesis using fam_empty [OF f, of "hptr h"] by (simp add: plist_head_empty_def)
qed

lemma plist_first_eq:
  assumes "plist_ok st P own" "P h \<noteq> []"
  shows "plist_first st h = Some (hd (P h))"
proof -
  have f: "fam (pl st) (plA (pl_prio st) P own)" using assms by (simp add: plist_ok_def)
  have "is_list (pl st) (hptr h) (map nptr (P h))" using famD [OF f, of "hptr h"] by simp
  from is_list_head_next [OF this] assms(2) show ?thesis
    by (cases "P h") (auto simp: plist_first_def node_entry_def)
qed

lemma plist_first_none:
  assumes "plist_ok st P own" "P h = []"
  shows "plist_first st h = None"
proof -
  have f: "fam (pl st) (plA (pl_prio st) P own)" using assms by (simp add: plist_ok_def)
  have "is_list (pl st) (hptr h) (map nptr (P h))" using famD [OF f, of "hptr h"] by simp
  from is_list_head_next [OF this] assms(2) show ?thesis by (simp add: plist_first_def node_entry_def)
qed

lemma plist_distinct: "plist_ok st P own \<Longrightarrow> distinct (P h)"
  using fam_distinct [of "pl st" "plA (pl_prio st) P own" "hptr h"]
  by (auto simp: plist_ok_def distinct_map)

lemma plA_cong:
  assumes "\<forall>a h. own a = Some h \<longrightarrow> a \<in> set (P h)" "\<forall>h. \<forall>a \<in> set (P h). f a = g a"
  shows "plA f P own = plA g P own"
proof
  fix p
  have "heads f (P h) = heads g (P h)" for h using assms(2) by (intro heads_cong) auto
  then show "plA f P own p = plA g P own p"
    by (cases p rule: pnode_ptr_cases) (auto simp: plA_prio split: option.splits)
qed

text \<open>Initialising a node that is on no list.\<close>

lemma list_init_self:
  assumes "is_list h p []"
  shows "INIT_LIST_HEAD h p = h"
proof -
  have "nxt h p = p" "prv h p = p" using is_list_head_next [OF assms] is_list_head_prev [OF assms] by simp_all
  then show ?thesis by (simp add: INIT_LIST_HEAD_def set_next_def set_prev_def fun_upd_idem Let_def)
qed

lemma plist_node_init_ok:
  assumes ok: "plist_ok st P own" and n: "own n = None"
  shows "plist_ok (plist_node_init st n prio) P own" "pl (plist_node_init st n prio) = pl st"
    "pl_prio (plist_node_init st n prio) = (pl_prio st)(n := prio)"
proof -
  have f: "fam (pl st) (plA (pl_prio st) P own)" and own: "\<forall>a h. own a = Some h \<longleftrightarrow> a \<in> set (P h)"
    using ok by (auto simp: plist_ok_def)
  have nP: "n \<notin> set (P h)" for h using own n by (metis option.distinct(1))
  have i: "is_list (pl st) (rptr n) []" "is_list (pl st) (nptr n) []"
    using famD [OF f, of "rptr n"] famD [OF f, of "nptr n"] n by (simp_all add: plA_prio)
  show h: "pl (plist_node_init st n prio) = pl st"
    using i by (simp add: plist_node_init_def Let_def list_init_self)
  show pr: "pl_prio (plist_node_init st n prio) = (pl_prio st)(n := prio)"
    by (simp add: plist_node_init_def Let_def)
  have same: "((pl_prio st)(n := prio)) a = pl_prio st a" if "a \<in> set (P h)" for a h using nP that by auto
  have "plA ((pl_prio st)(n := prio)) P own = plA (pl_prio st) P own"
    using own same by (intro plA_cong) auto
  moreover have "map ((pl_prio st)(n := prio)) (P h) = map (pl_prio st) (P h)" for h using same by simp
  ultimately show "plist_ok (plist_node_init st n prio) P own"
    using ok unfolding plist_ok_def h pr by metis
qed

section \<open>\<open>plist_add\<close>\<close>

definition pl_insert :: "('a \<Rightarrow> int) \<Rightarrow> 'a \<Rightarrow> 'a list \<Rightarrow> 'a list" where
  "pl_insert f n xs = takeWhile (\<lambda>x. f x \<le> f n) xs @ n # dropWhile (\<lambda>x. f x \<le> f n) xs"

lemma circle_next:
  assumes l: "is_list h (rptr c) (map rptr cs)" and us: "c # cs = us @ x # vs"
  shows "nxt h (rptr x) = rptr (hd (vs @ [c]))"
proof (cases us)
  case Nil
  then have "x = c" "vs = cs" using us by auto
  then show ?thesis using is_list_head_next [OF l] by (cases cs) auto
next
  case (Cons u ws)
  then have "cs = ws @ x # vs" using us by simp
  then show ?thesis using is_list_next [of h "rptr c" "map rptr ws" "rptr x" "map rptr vs"] l by (cases vs) auto
qed

lemma plist_add_loop_spec:
  assumes l: "is_list (pl st) (rptr c) (map rptr cs)" and d: "distinct (c # cs)"
  shows "c # cs = us @ iter # vs \<Longrightarrow> prev = (if us = [] then None else Some (last us)) \<Longrightarrow>
    plist_add_loop st node c iter prev =
    (let le = (\<lambda>x. pl_prio st x \<le> pl_prio st node);
         ws = us @ takeWhile le (iter # vs); zs = dropWhile le (iter # vs);
         prev' = (if ws = [] then None else Some (last ws))
     in Some (if zs = [] then None else Some (hd zs), if zs = [] then c else hd zs, prev'))"
proof (induction vs arbitrary: us iter prev)
  case Nil
  have "nxt (pl st) (rptr iter) = rptr c" using circle_next [OF l Nil(1)] by simp
  then show ?case using Nil by (subst plist_add_loop.simps) (auto simp: prio_entry_def Let_def)
next
  case (Cons v vs)
  have nx: "nxt (pl st) (rptr iter) = rptr v" using circle_next [OF l Cons.prems(1)] by simp
  have vc: "v \<noteq> c"
  proof
    assume "v = c"
    then have "c # cs = (us @ [iter]) @ c # vs" using Cons.prems(1) by simp
    with d show False by (cases us) auto
  qed
  have "c # cs = (us @ [iter]) @ v # vs" using Cons.prems(1) by simp
  note IH = Cons.IH [OF this, of "Some iter"]
  show ?case
  proof (cases "pl_prio st node < pl_prio st iter")
    case True
    then show ?thesis using Cons.prems(2) by (subst plist_add_loop.simps) (simp add: Let_def)
  next
    case False
    then have "plist_add_loop st node c iter prev = plist_add_loop st node c v (Some iter)"
      using nx vc by (subst plist_add_loop.simps) (simp add: prio_entry_def)
    with IH False show ?thesis by (simp add: Let_def)
  qed
qed

lemma takeWhile_dropWhile_append:
  assumes "\<forall>x \<in> set a. Q x" "\<forall>x \<in> set b. \<not> Q x"
  shows "takeWhile Q (a @ b) = a" "dropWhile Q (a @ b) = b"
proof -
  have "takeWhile Q b = []" "dropWhile Q b = b" using assms(2) by (cases b; simp)+
  with assms(1) show "takeWhile Q (a @ b) = a" "dropWhile Q (a @ b) = b" by simp_all
qed

lemma split_at_prio:
  fixes n :: 'a
  assumes "sorted (map f xs)"
  defines "ls \<equiv> takeWhile (\<lambda>x. f x \<le> f n) xs" and "rs \<equiv> dropWhile (\<lambda>x. f x \<le> f n) xs"
  shows "xs = ls @ rs" "\<forall>x \<in> set ls. f x \<le> f n" "\<forall>x \<in> set rs. f n < f x"
    "sorted (map f ls)" "sorted (map f rs)" "sorted (map f (ls @ n # rs))"
    "heads f xs = heads f ls @ heads f rs"
    "heads f (ls @ n # rs) = (if ls \<noteq> [] \<and> f (last ls) = f n then heads f ls @ heads f rs else heads f ls @ n # heads f rs)"
    "takeWhile (\<lambda>x. f x \<le> f n) (heads f xs) = heads f ls" "dropWhile (\<lambda>x. f x \<le> f n) (heads f xs) = heads f rs"
proof -
  show xs: "xs = ls @ rs" by (simp add: ls_def rs_def)
  show le: "\<forall>x \<in> set ls. f x \<le> f n" unfolding ls_def using set_takeWhileD by fastforce
  have srt: "sorted (map f ls)" "sorted (map f rs)" using assms(1) xs by (auto simp: sorted_append)
  then show "sorted (map f ls)" "sorted (map f rs)" .
  show gt: "\<forall>x \<in> set rs. f n < f x"
  proof (cases rs)
    case (Cons r rs')
    then have "\<not> f r \<le> f n" unfolding rs_def by (metis hd_dropWhile list.discI list.sel(1))
    moreover have "\<forall>x \<in> set rs. f r \<le> f x" using srt(2) Cons by auto
    ultimately show ?thesis by force
  qed simp
  show st: "sorted (map f (ls @ n # rs))" using srt le gt by (fastforce simp: sorted_append)
  have bnd: "f (last ls) < f (hd rs)" if "ls \<noteq> []" "rs \<noteq> []"
  proof -
    have "f (last ls) \<le> f n" "f n < f (hd rs)" using that le gt by auto
    then show ?thesis by linarith
  qed
  show hs: "heads f xs = heads f ls @ heads f rs"
    using xs assms(1) bnd heads_append [of ls rs f] by (cases "ls = []"; cases "rs = []") auto
  have nrs: "heads f (n # rs) = n # heads f rs"
  proof (cases rs)
    case (Cons r rs')
    then have "f n \<noteq> f r" using gt by force
    then show ?thesis using Cons by simp
  qed simp
  show "heads f (ls @ n # rs) = (if ls \<noteq> [] \<and> f (last ls) = f n then heads f ls @ heads f rs else heads f ls @ n # heads f rs)"
  proof (cases "ls \<noteq> [] \<and> f (last ls) = f n")
    case True
    then show ?thesis using heads_snoc_same [of ls f n rs] st hs xs by simp
  next
    case False
    show ?thesis
    proof (cases "ls = []")
      case True
      then show ?thesis using nrs by simp
    next
      case ne: False
      have "f (last ls) < f n" using False ne le by (metis last_in_set order_le_imp_less_or_eq)
      then show ?thesis using heads_append [of ls "n # rs" f] ne False st nrs by simp
    qed
  qed
  have "\<forall>x \<in> set (heads f ls). f x \<le> f n" "\<forall>x \<in> set (heads f rs). \<not> f x \<le> f n"
    using le gt set_heads_subset [of f ls] set_heads_subset [of f rs] unfolding not_le by blast+
  then show "takeWhile (\<lambda>x. f x \<le> f n) (heads f xs) = heads f ls" "dropWhile (\<lambda>x. f x \<le> f n) (heads f xs) = heads f rs"
    unfolding hs by (rule takeWhile_dropWhile_append)+
qed

text \<open>Putting the new node into the circle of first nodes, when it is the first of its priority.\<close>

lemma plist_add_prio_step:
  assumes f: "fam hp (plA f P own)" and own: "\<forall>a h. own a = Some h \<longleftrightarrow> a \<in> set (P h)" and n: "own n = None"
    and hs: "heads f (P h) = us @ vs" and ne: "P h \<noteq> []" and it: "iter = hd (vs @ us)"
  shows "fam (list_add_tail hp (rptr n) (rptr iter)) (circle ((base f P own h)(rptr n := None)) (map rptr (us @ n # vs)))"
proof -
  have ownh: "\<forall>a. own a = Some h \<longleftrightarrow> a \<in> set (P h)" using own by blast
  have "us @ vs \<noteq> []" using ne hs by (metis heads_Nil_iff)
  then have it': "rptr iter = hd (map rptr vs @ map rptr us)" using it by (cases vs; cases us) auto
  have fc: "fam hp (circle (base f P own h) (map rptr us @ map rptr vs))"
    using f unfolding plA_circle [of own h P f, OF ownh] hs by simp
  have B: "\<forall>c \<in> set (map rptr us @ map rptr vs). base f P own h c = None"
    using base_circle_None [of own h P f, OF ownh] unfolding hs by simp
  have "map rptr us @ map rptr vs \<noteq> []" using \<open>us @ vs \<noteq> []\<close> by auto
  from circle_insert [OF fc this B _ it'] n show ?thesis by (simp add: plA_prio)
qed

text \<open>Putting the new node into the sorted list, in front of the first node of lower priority.\<close>

lemma plist_add_node_step:
  assumes f: "fam hp A" and A: "A (hptr h) = Some (map nptr (ls @ rs))" "A (nptr n) = Some []"
  shows "fam (list_add_tail hp (nptr n) (if rs = [] then hptr h else nptr (hd rs)))
    (A(nptr n := None, hptr h \<mapsto> map nptr (ls @ n # rs)))"
proof (cases rs)
  case Nil
  then show ?thesis using fam_list_add_tail [OF f A(1) looseI_single [OF f A(2)]] by simp
next
  case (Cons r rs')
  then have "A (hptr h) = Some (map nptr ls @ nptr r # map nptr rs')" using A(1) by simp
  from fam_list_add_before [OF f this looseI_single [OF f A(2)]] Cons show ?thesis by simp
qed

lemma base_insert:
  assumes own: "\<forall>a k. own a = Some k \<longleftrightarrow> a \<in> set (P k)" and n: "own n = None"
    and hs: "set (heads f ys) - {n} = set (heads f (P h))"
  shows "base f (P(h := ys)) (own(n \<mapsto> h)) h =
    (base f P own h)(rptr n := (if n \<in> set (heads f ys) then None else Some []),
      nptr n := None, hptr h \<mapsto> map nptr ys)"
proof
  fix p
  show "base f (P(h := ys)) (own(n \<mapsto> h)) h p =
    ((base f P own h)(rptr n := (if n \<in> set (heads f ys) then None else Some []),
      nptr n := None, hptr h \<mapsto> map nptr ys)) p"
  proof (cases p rule: pnode_ptr_cases)
    case (prio a)
    show ?thesis
    proof (cases "a = n")
      case False
      have "a \<in> set (heads f ys) \<longleftrightarrow> a \<in> set (heads f (P h))" using hs False by blast
      with prio False show ?thesis by (auto simp: plA_prio split: option.splits)
    qed (simp add: prio)
  qed auto
qed

text \<open>The search loop and the two insertions of \<open>plist_add\<close> in terms of the split of the list at the priority.\<close>

lemma plist_add_run:
  fixes n and h
  assumes ok: "plist_ok st P own"
  defines "ls \<equiv> takeWhile (\<lambda>x. pl_prio st x \<le> pl_prio st n) (P h)" and "rs \<equiv> dropWhile (\<lambda>x. pl_prio st x \<le> pl_prio st n) (P h)"
  defines "hp1 \<equiv> (if P h \<noteq> [] \<and> (ls = [] \<or> pl_prio st (last ls) \<noteq> pl_prio st n)
     then list_add_tail (pl st) (rptr n) (rptr (hd (heads (pl_prio st) rs @ heads (pl_prio st) ls))) else pl st)"
  shows "plist_add st n h = Some (st\<lparr>pl := list_add_tail hp1 (nptr n) (if rs = [] then hptr h else nptr (hd rs))\<rparr>)"
proof (cases "P h = []")
  case True
  then have "ls = []" "rs = []" by (auto simp: ls_def rs_def)
  with True show ?thesis using plist_head_empty_iff [OF ok, of h] by (simp add: plist_add_def hp1_def)
next
  case False
  have f: "fam (pl st) (plA (pl_prio st) P own)" and ownh: "\<forall>a. own a = Some h \<longleftrightarrow> a \<in> set (P h)"
    and srt: "\<forall>k. sorted (map (pl_prio st) (P k))" using ok by (auto simp: plist_ok_def)
  note sp = split_at_prio [OF srt [rule_format, of h], of n, folded ls_def rs_def]
  let ?c = "hd (P h)" and ?cs = "tl (heads (pl_prio st) (P h))"
  have cc: "heads (pl_prio st) (P h) = ?c # ?cs" using heads_hd_tl [OF False] .
  have Ac: "plA (pl_prio st) P own (rptr ?c) = Some (map rptr ?cs)"
  proof -
    have "own ?c = Some h" using ownh hd_in_set [OF False] by blast
    then show ?thesis by (simp add: plA_prio)
  qed
  have il: "is_list (pl st) (rptr ?c) (map rptr ?cs)" using famD [OF f Ac] .
  have dc: "distinct (?c # ?cs)" using heads_distinct [OF plist_distinct [OF ok], of "pl_prio st" h] cc by simp
  have zs: "heads (pl_prio st) rs = [] \<longleftrightarrow> rs = []" "heads (pl_prio st) ls = [] \<longleftrightarrow> ls = []" by simp_all
  have loop: "plist_add_loop st n ?c ?c None =
     Some (if rs = [] then None else Some (hd rs), if rs = [] then ?c else hd rs,
           if ls = [] then None else Some (last (heads (pl_prio st) ls)))"
    using plist_add_loop_spec [OF il dc, of "[]" ?c ?cs None n] unfolding append_Nil cc [symmetric] Let_def sp(9,10) by simp
  have hdi: "hd (heads (pl_prio st) rs @ heads (pl_prio st) ls) = (if rs = [] then ?c else hd rs)"
    using sp(1) False by (cases "rs = []") auto
  have cond: "((if ls = [] then None else Some (last (heads (pl_prio st) ls))) = None \<or>
      pl_prio st (the (if ls = [] then None else Some (last (heads (pl_prio st) ls)))) \<noteq> pl_prio st n) = (ls = [] \<or> pl_prio st (last ls) \<noteq> pl_prio st n)"
    using heads_last [OF _ sp(4)] by auto
  show ?thesis
    using plist_head_empty_iff [OF ok, of h] plist_first_eq [OF ok False] loop cond hdi False
    by (auto simp: plist_add_def hp1_def Let_def)
qed

lemma plist_add_spec:
  assumes ok: "plist_ok st P own" and n: "own n = None"
  shows "\<exists>st'. plist_add st n h = Some st' \<and> pl_prio st' = pl_prio st \<and>
    plist_ok st' (P(h := pl_insert (pl_prio st) n (P h))) (own(n \<mapsto> h))"
proof -
  let ?f = "pl_prio st" and ?xs = "P h"
  have f: "fam (pl st) (plA ?f P own)" and own: "\<forall>a k. own a = Some k \<longleftrightarrow> a \<in> set (P k)"
    and srt: "\<forall>k. sorted (map ?f (P k))" using ok by (auto simp: plist_ok_def)
  define ls where "ls = takeWhile (\<lambda>x. ?f x \<le> ?f n) ?xs"
  define rs where "rs = dropWhile (\<lambda>x. ?f x \<le> ?f n) ?xs"
  note sp = split_at_prio [OF srt [rule_format, of h], of n, folded ls_def rs_def]
  define ys where "ys = ls @ n # rs"
  have ys: "pl_insert ?f n ?xs = ys" by (simp add: pl_insert_def ls_def rs_def ys_def)
  define C where "C = (ls = [] \<or> ?f (last ls) \<noteq> ?f n)"
  define hp1 where "hp1 = (if ?xs \<noteq> [] \<and> C then list_add_tail (pl st) (rptr n) (rptr (hd (heads ?f rs @ heads ?f ls))) else pl st)"
  define hp2 where "hp2 = list_add_tail hp1 (nptr n) (if rs = [] then hptr h else nptr (hd rs))"
  have hs': "heads ?f ys = (if C then heads ?f ls @ n # heads ?f rs else heads ?f ls @ heads ?f rs)"
    using sp(8) unfolding ys_def C_def by auto
  have ownh: "\<forall>a. own a = Some h \<longleftrightarrow> a \<in> set (P h)" using own by blast
  have nx: "n \<notin> set ?xs" using own n by (metis option.distinct(1))
  then have nh: "n \<notin> set (heads ?f ?xs)" using set_heads_subset by fast
  define A1 where "A1 = circle ((base ?f P own h)(rptr n := (if n \<in> set (heads ?f ys) then None else Some []))) (map rptr (heads ?f ys))"
  have e: "(base ?f P own h)(rptr n \<mapsto> []) = base ?f P own h"
    by (rule fun_upd_idem) (use n in \<open>simp add: plA_prio\<close>)
  note pc = plA_circle [of own h P ?f, OF ownh]
  have f1: "fam hp1 A1"
  proof (cases C)
    case True
    show ?thesis
    proof (cases "?xs = []")
      case xs: True
      then have lr: "ls = []" "rs = []" by (auto simp: ls_def rs_def)
      have "A1 = base ?f P own h" unfolding A1_def hs' lr using True e by simp
      moreover have "plA ?f P own = base ?f P own h" using pc unfolding xs by simp
      moreover have "hp1 = pl st" using xs by (simp add: hp1_def)
      ultimately show ?thesis using f by metis
    next
      case False
      from plist_add_prio_step [OF f own n sp(7) False refl] True False
      show ?thesis unfolding A1_def hs' hp1_def by simp
    qed
  next
    case False
    then have "heads ?f ys = heads ?f ?xs" using hs' sp(7) by simp
    then have "A1 = plA ?f P own" unfolding A1_def pc using nh e by simp
    moreover have "hp1 = pl st" using False by (simp add: hp1_def)
    ultimately show ?thesis using f by metis
  qed
  have A1h: "A1 (hptr h) = Some (map nptr (ls @ rs))" "A1 (nptr n) = Some []"
    unfolding A1_def using sp(1) n by (simp_all add: circle_other image_iff)
  have f2: "fam hp2 (A1(nptr n := None, hptr h \<mapsto> map nptr ys))"
    using plist_add_node_step [OF f1 A1h] by (simp add: hp2_def ys_def)
  have set': "set (heads ?f ys) - {n} = set (heads ?f ?xs)" using hs' sp(7) nh by auto
  have own': "\<forall>a. (own(n \<mapsto> h)) a = Some h \<longleftrightarrow> a \<in> set ((P(h := ys)) h)"
    using own sp(1) nx by (auto simp: ys_def)
  have "A1(nptr n := None, hptr h \<mapsto> map nptr ys) = plA ?f (P(h := ys)) (own(n \<mapsto> h))"
    unfolding plA_circle [of "own(n \<mapsto> h)" h "P(h := ys)" ?f, OF own'] base_insert [OF own n set'] A1_def
    by (cases "heads ?f ys") (auto simp: fun_eq_iff)
  with f2 have fam2: "fam hp2 (plA ?f (P(h := ys)) (own(n \<mapsto> h)))" by simp
  have run: "plist_add st n h = Some (st\<lparr>pl := hp2\<rparr>)"
    unfolding hp2_def hp1_def C_def ls_def rs_def by (rule plist_add_run [OF ok])
  have "plist_ok (st\<lparr>pl := hp2\<rparr>) (P(h := ys)) (own(n \<mapsto> h))"
  proof -
    have "n \<notin> set (P k)" for k using own n by (metis option.distinct(1))
    then show ?thesis unfolding plist_ok_def using fam2 own srt sp(1,6) n by (auto simp: ys_def)
  qed
  with run ys show ?thesis by auto
qed

section \<open>Removing a node\<close>

text \<open>\<open>base\<close> with the first nodes of the list of \<open>h\<close> given by the set \<open>H\<close>.\<close>

definition based :: "('a \<Rightarrow> int) \<Rightarrow> ('h \<Rightarrow> 'a list) \<Rightarrow> ('a \<rightharpoonup> 'h) \<Rightarrow> 'h \<Rightarrow> 'a set \<Rightarrow> ('h, 'a) pnode lists" where
  "based f P own h H p = (case p of
       Node (PrioL a) \<Rightarrow> (if own a = Some h then if a \<in> H then None else Some [] else plA f P own p)
     | _ \<Rightarrow> plA f P own p)"

lemma based_simps [simp]:
  "based f P own h H (hptr k) = Some (map nptr (P k))"
  "based f P own h H (nptr a) = (if own a = None then Some [] else None)"
  "based f P own h H LIST_POISON1 = None" "based f P own h H LIST_POISON2 = None"
  "based f P own h H (rptr a) =
     (if own a = Some h then if a \<in> H then None else Some [] else plA f P own (rptr a))"
  by (simp_all add: based_def)

lemma base_based: "base f P own h = based f P own h (set (heads f (P h)))"
  by (rule ext) (simp add: base_def based_def)

lemma based_drop: "own n = Some h \<Longrightarrow> (based f P own h H)(rptr n \<mapsto> []) = based f P own h (H - {n})"
proof
  fix p assume "own n = Some h"
  then show "((based f P own h H)(rptr n \<mapsto> [])) p = based f P own h (H - {n}) p"
    by (cases p rule: pnode_ptr_cases) auto
qed

lemma based_add: "own n = Some h \<Longrightarrow> (based f P own h H)(rptr n := None) = based f P own h (insert n H)"
proof
  fix p assume "own n = Some h"
  then show "((based f P own h H)(rptr n := None)) p = based f P own h (insert n H) p"
    by (cases p rule: pnode_ptr_cases) auto
qed

lemma circle_based_single: "own x = Some h \<Longrightarrow> circle (based f P own h {x}) [rptr x] = based f P own h {}"
  using based_drop [of own x h f P "{x}"] by simp

lemma base_remove:
  assumes "own n = Some h" "n \<notin> set (heads f ys)"
  shows "base f (P(h := ys)) (own(n := None)) h =
    (based f P own h (set (heads f ys)))(hptr h \<mapsto> map nptr ys, nptr n \<mapsto> [])"
proof
  fix p
  show "base f (P(h := ys)) (own(n := None)) h p =
    ((based f P own h (set (heads f ys)))(hptr h \<mapsto> map nptr ys, nptr n \<mapsto> [])) p"
    by (cases p rule: pnode_ptr_cases) (use assms in \<open>auto simp: plA_prio split: option.splits\<close>)
qed

text \<open>What removing a node does to the first nodes of the priorities.\<close>

lemma heads_split:
  assumes "sorted (map f (ls @ rs))" "ls = [] \<or> rs = [] \<or> f (last ls) \<noteq> f (hd rs)"
  shows "heads f (ls @ rs) = heads f ls @ heads f rs"
proof (cases "ls = [] \<or> rs = []")
  case False
  then have "f (last ls) \<le> f (hd rs)" using assms(1) by (auto simp: sorted_append)
  with False assms heads_append show ?thesis by (metis order_le_less)
qed auto

lemma heads_Cons_new: "rs = [] \<or> f n \<noteq> f (hd rs) \<Longrightarrow> heads f (n # rs) = n # heads f rs"
  by (cases rs) auto

lemma heads_remove_cases:
  assumes srt: "sorted (map f (ls @ n # rs))" and d: "distinct (ls @ n # rs)"
  obtains
    (inner) "n \<notin> set (heads f (ls @ n # rs))" "heads f (ls @ rs) = heads f (ls @ n # rs)"
  | (promote) us m vs where "heads f (ls @ n # rs) = us @ n # vs" "heads f (ls @ rs) = us @ m # vs"
      "rs \<noteq> []" "hd rs = m" "m \<notin> set (us @ n # vs)"
  | (drop) us vs where "heads f (ls @ n # rs) = us @ n # vs" "heads f (ls @ rs) = us @ vs"
      "rs = [] \<or> hd rs \<in> set vs"
proof (cases "ls = [] \<or> f (last ls) \<noteq> f n")
  case False
  then have e: "heads f (ls @ n # rs) = heads f (ls @ rs)" using heads_snoc_same [of ls f n rs] srt by simp
  have "n \<notin> set (heads f (ls @ rs))" using d set_heads_subset [of f "ls @ rs"] by auto
  then show thesis using inner unfolding e by blast
next
  case True
  have h1: "heads f (ls @ n # rs) = heads f ls @ heads f (n # rs)" using heads_split [OF srt] True by auto
  have srt': "sorted (map f (ls @ rs))" using srt by (auto simp: sorted_append)
  have lr: "ls = [] \<or> rs = [] \<or> f (last ls) \<noteq> f (hd rs)"
  proof (cases "ls = [] \<or> rs = []")
    case False
    then have "f (last ls) \<le> f n" "f n \<le> f (hd rs)" using srt by (auto simp: sorted_append)
    with True False show ?thesis by auto
  qed auto
  have h2: "heads f (ls @ rs) = heads f ls @ heads f rs" using heads_split [OF srt' lr] .
  show thesis
  proof (cases "rs \<noteq> [] \<and> f n = f (hd rs)")
    case same: True
    then have hn: "heads f (n # rs) = n # tl (heads f rs)" using heads_Cons_same [of "hd rs" rs f n] by simp
    have hr: "heads f rs = hd rs # tl (heads f rs)" using heads_hd_tl [of rs f] same by blast
    have "hd rs \<notin> set (tl (heads f rs))" using heads_distinct [of rs f] d hr
      by (metis distinct.simps(2) distinct_append)
    moreover have "hd rs \<notin> set (heads f ls)" "hd rs \<noteq> n"
      using same d set_heads_subset [of f ls] hd_in_set [of rs] by auto
    ultimately show thesis using promote [of "heads f ls" "tl (heads f rs)" "hd rs"]
      unfolding h1 h2 hn using hr same by auto
  next
    case False
    then have "heads f (n # rs) = n # heads f rs" using heads_Cons_new [of rs f n] by auto
    moreover have "rs = [] \<or> hd rs \<in> set (heads f rs)" using hd_heads [of rs f] hd_in_set [of "heads f rs"] by auto
    ultimately show thesis using drop [of "heads f ls" "heads f rs"] unfolding h1 h2 by simp
  qed
qed

text \<open>The circle of first nodes without the node, and with its successor promoted.\<close>

lemma plist_prio_drop:
  assumes f: "fam hp (circle (based f P own h (set (us @ n # vs))) (map rptr (us @ n # vs)))"
    and own: "\<forall>a \<in> set (us @ n # vs). own a = Some h" and ne: "us @ vs \<noteq> []" and d: "distinct (us @ n # vs)"
  shows "fam (list_del_init hp (rptr n)) (circle (based f P own h (set (us @ vs))) (map rptr (us @ vs)))"
proof -
  have B: "\<forall>c \<in> set (map rptr us @ rptr n # map rptr vs). based f P own h (set (us @ n # vs)) c = None"
    using own by auto
  have "set (us @ n # vs) - {n} = set (us @ vs)" using d by auto
  moreover have "own n = Some h" using own by simp
  ultimately show ?thesis using circle_del [OF _ _ B] f ne based_drop [of own n h f P "set (us @ n # vs)"]
    by simp
qed

lemma plist_prio_promote:
  assumes f: "fam hp (circle (based f P own h (set (us @ n # vs))) (map rptr (us @ n # vs)))"
    and own: "\<forall>a \<in> set (us @ n # m # vs). own a = Some h" and m: "m \<notin> set (us @ n # vs)"
  shows "fam (list_add hp (rptr m) (rptr n)) (circle (based f P own h (set (us @ n # m # vs))) (map rptr (us @ n # m # vs)))"
proof -
  have B: "\<forall>c \<in> set (map rptr us @ rptr n # map rptr vs). based f P own h (set (us @ n # vs)) c = None"
    using own by auto
  have m': "based f P own h (set (us @ n # vs)) (rptr m) = Some []" using own m by simp
  have "insert m (set (us @ n # vs)) = set (us @ n # m # vs)" by auto
  moreover have "own m = Some h" using own by simp
  ultimately show ?thesis using circle_insert_after [OF _ B m'] f based_add [of own m h f P "set (us @ n # vs)"]
    by simp
qed

text \<open>Which of the prio lists are empty.\<close>

lemma circle_list_empty:
  assumes f: "fam hp (circle B cs)" and c: "c \<in> set cs"
  shows "list_empty hp c \<longleftrightarrow> (\<exists>x. cs = [x])"
proof (cases cs)
  case (Cons y ys)
  have f': "fam hp (B(y \<mapsto> ys))" using f Cons by simp
  show ?thesis
  proof (cases "c = y")
    case True
    then show ?thesis using fam_empty [OF f', of y ys] Cons by simp
  next
    case False
    then have "c \<in> set ys" using c Cons by simp
    then show ?thesis using fam_member_not_empty [OF f', of y ys c] Cons by auto
  qed
qed (use c in simp)

definition prio_unlink :: "('h, 'a) plists \<Rightarrow> 'a \<Rightarrow> 'h \<Rightarrow> ('h, 'a) pnode lheap" where
  "prio_unlink st node head =
     (if \<not> list_empty (pl st) (rptr node)
      then list_del_init
             (if nxt (pl st) (nptr node) \<noteq> hptr head
              then case node_entry (nxt (pl st) (nptr node)) of
                     None \<Rightarrow> pl st
                   | Some n \<Rightarrow> if list_empty (pl st) (rptr n) then list_add (pl st) (rptr n) (rptr node) else pl st
              else pl st) (rptr node)
      else pl st)"

lemma plist_del_unlink: "plist_del st n h = st\<lparr>pl := list_del_init (prio_unlink st n h) (nptr n)\<rparr>"
  by (auto simp: plist_del_def prio_unlink_def Let_def split: option.splits)

lemma prio_unlink_spec:
  assumes ok: "plist_ok st P own" and xs: "P h = ls @ n # rs"
  shows "fam (prio_unlink st n h)
    (circle (based (pl_prio st) P own h (set (heads (pl_prio st) (ls @ rs)))) (map rptr (heads (pl_prio st) (ls @ rs))))"
proof -
  let ?f = "pl_prio st"
  have f: "fam (pl st) (plA ?f P own)" and own: "\<forall>a k. own a = Some k \<longleftrightarrow> a \<in> set (P k)"
    and srt: "sorted (map ?f (ls @ n # rs))" using ok xs unfolding plist_ok_def by metis+
  have d: "distinct (ls @ n # rs)" using plist_distinct [OF ok, of h] xs by simp
  have ownh: "\<forall>a. own a = Some h \<longleftrightarrow> a \<in> set (P h)" using own by blast
  have ownx: "own a = Some h" if "a \<in> set (ls @ n # rs)" for a using that ownh xs by metis
  have sub: "own a = Some h" if "a \<in> set (heads ?f (ls @ n # rs))" for a
    using that set_heads_subset [of ?f "ls @ n # rs"] ownx by blast
  have fc: "fam (pl st) (circle (based ?f P own h (set (heads ?f (ls @ n # rs)))) (map rptr (heads ?f (ls @ n # rs))))"
    using f unfolding plA_circle [of own h P ?f, OF ownh] base_based xs .
  have dh: "distinct (heads ?f (ls @ n # rs))" using heads_distinct [OF d] .
  have "is_list (pl st) (hptr h) (map nptr ls @ nptr n # map nptr rs)"
    using famD [OF f, of "hptr h" "map nptr ls @ nptr n # map nptr rs"] xs by simp
  then have nx: "nxt (pl st) (nptr n) = (if rs = [] then hptr h else nptr (hd rs))"
    using is_list_next [of "pl st" "hptr h" "map nptr ls" "nptr n" "map nptr rs"] by (cases rs) auto
  have off: "list_empty (pl st) (rptr a)" if "a \<in> set (ls @ n # rs)" "a \<notin> set (heads ?f (ls @ n # rs))" for a
  proof -
    have "circle (based ?f P own h (set (heads ?f (ls @ n # rs)))) (map rptr (heads ?f (ls @ n # rs))) (rptr a) = Some []"
      using that ownx [OF that(1)] by (subst circle_other) auto
    from fam_empty [OF fc this] show ?thesis by simp
  qed
  show ?thesis
  proof (rule heads_remove_cases [OF srt d])
    assume "n \<notin> set (heads ?f (ls @ n # rs))" and e: "heads ?f (ls @ rs) = heads ?f (ls @ n # rs)"
    then have "list_empty (pl st) (rptr n)" using off [of n] by simp
    then have "prio_unlink st n h = pl st" by (simp add: prio_unlink_def)
    then show ?thesis using fc unfolding e by simp
  next
    fix us m vs
    assume e: "heads ?f (ls @ n # rs) = us @ n # vs" "heads ?f (ls @ rs) = us @ m # vs"
      and m: "rs \<noteq> []" "hd rs = m" "m \<notin> set (us @ n # vs)"
    have mx: "m \<in> set (ls @ n # rs)" using m hd_in_set [of rs] by auto
    show ?thesis
    proof (cases "us @ vs = []")
      case True
      then have "list_empty (pl st) (rptr n)" using circle_list_empty [OF fc, of "rptr n"] e by simp
      then show ?thesis using fc True circle_based_single [of own _ h ?f P] ownx [OF mx] sub [of n] e
        by (simp add: prio_unlink_def)
    next
      case False
      have "\<not> list_empty (pl st) (rptr n)" using circle_list_empty [OF fc, of "rptr n"] e False
        by (auto simp: append_eq_Cons_conv)
      moreover have "list_empty (pl st) (rptr m)" using off [OF mx] m(3) e by simp
      ultimately have u: "prio_unlink st n h = list_del_init (list_add (pl st) (rptr m) (rptr n)) (rptr n)"
        using nx m by (simp add: prio_unlink_def node_entry_def)
      have o: "\<forall>a \<in> set (us @ n # m # vs). own a = Some h" using sub e(1) ownx [OF mx] by auto
      have "distinct (us @ n # m # vs)" using dh e m(3) by auto
      with plist_prio_drop [OF plist_prio_promote [OF fc [unfolded e] o m(3)] o] show ?thesis
        unfolding u e by simp
    qed
  next
    fix us vs
    assume e: "heads ?f (ls @ n # rs) = us @ n # vs" "heads ?f (ls @ rs) = us @ vs" and r: "rs = [] \<or> hd rs \<in> set vs"
    show ?thesis
    proof (cases "us @ vs = []")
      case True
      then have "list_empty (pl st) (rptr n)" using circle_list_empty [OF fc, of "rptr n"] e by simp
      then show ?thesis using fc True circle_based_single [of own n h ?f P] sub [of n] e
        by (simp add: prio_unlink_def)
    next
      case False
      have ne: "\<not> list_empty (pl st) (rptr a)" if "a \<in> set (us @ n # vs)" for a
        using circle_list_empty [OF fc, of "rptr a"] e False that by (auto simp: append_eq_Cons_conv)
      have u: "prio_unlink st n h = list_del_init (pl st) (rptr n)"
        using ne [of n] ne [of "hd rs"] nx r by (auto simp: prio_unlink_def node_entry_def)
      show ?thesis unfolding u e using plist_prio_drop [OF fc [unfolded e]] sub e False dh by simp
    qed
  qed
qed

lemma plist_del_spec:
  assumes ok: "plist_ok st P own" and n: "own n = Some h"
  shows "plist_ok (plist_del st n h) (P(h := remove1 n (P h))) (own(n := None))"
proof -
  let ?f = "pl_prio st"
  have own: "\<forall>a k. own a = Some k \<longleftrightarrow> a \<in> set (P k)" and srt: "\<forall>k. sorted (map ?f (P k))"
    using ok by (auto simp: plist_ok_def)
  have "n \<in> set (P h)" using own n by blast
  then obtain ls rs where xs: "P h = ls @ n # rs" by (meson split_list)
  have d: "distinct (ls @ n # rs)" using plist_distinct [OF ok, of h] xs by simp
  have r: "remove1 n (P h) = ls @ rs" using d xs by (simp add: remove1_append)
  let ?hs = "heads ?f (ls @ rs)"
  let ?A = "circle (based ?f P own h (set ?hs)) (map rptr ?hs)"
  have f: "fam (prio_unlink st n h) ?A" using prio_unlink_spec [OF ok xs] .
  have "?A (hptr h) = Some (map nptr ls @ nptr n # map nptr rs)" using xs by (subst circle_other) auto
  from fam_list_del_init [OF f this]
  have f2: "fam (pl (plist_del st n h)) (?A(hptr h \<mapsto> map nptr (ls @ rs), nptr n \<mapsto> []))"
    by (simp add: plist_del_unlink)
  have nh: "n \<notin> set ?hs" using d set_heads_subset [of ?f "ls @ rs"] by auto
  have own': "\<forall>a. (own(n := None)) a = Some h \<longleftrightarrow> a \<in> set ((P(h := ls @ rs)) h)"
  proof
    fix a
    show "(own(n := None)) a = Some h \<longleftrightarrow> a \<in> set ((P(h := ls @ rs)) h)" using own xs d by (cases "a = n") auto
  qed
  have "plA ?f (P(h := ls @ rs)) (own(n := None)) = ?A(hptr h \<mapsto> map nptr (ls @ rs), nptr n \<mapsto> [])"
    unfolding plA_circle [of "own(n := None)" h "P(h := ls @ rs)" ?f, OF own'] fun_upd_same
      base_remove [of own n h ?f "ls @ rs" P, OF n nh]
    by (cases ?hs) (auto simp: fun_eq_iff)
  with f2 have "fam (pl (plist_del st n h)) (plA ?f (P(h := ls @ rs)) (own(n := None)))" by simp
  moreover have "(own(n := None)) a = Some k \<longleftrightarrow> a \<in> set ((P(h := ls @ rs)) k)" for a k
  proof (cases "k = h")
    case True
    then show ?thesis using own' by blast
  next
    case False
    then have "n \<notin> set (P k)" using own n by (metis option.inject)
    then show ?thesis using own False by (cases "a = n") auto
  qed
  moreover have "sorted (map ?f ((P(h := ls @ rs)) k))" for k
    using srt [rule_format, of h] srt [rule_format, of k] xs by (auto simp: sorted_append)
  ultimately show ?thesis unfolding plist_ok_def r by (simp add: plist_del_unlink)
qed

lemma fam_del_init_single: "fam h A \<Longrightarrow> A n = Some [] \<Longrightarrow> list_del_init h n = h"
proof -
  assume "fam h A" "A n = Some []"
  then have l: "is_list h n []" by (rule famD)
  have "nxt h n = n" "prv h n = n" using is_list_head_next [OF l] is_list_head_prev [OF l] by simp_all
  then show ?thesis
    by (simp add: list_del_init_def list_op_defs list_field_defs fun_upd_idem Let_def)
qed

text \<open>Removing a node that is on no list changes nothing.\<close>

lemma plist_del_absent:
  assumes ok: "plist_ok st P own" and n: "own n = None"
  shows "plist_del st n h = st"
proof -
  have f: "fam (pl st) (plA (pl_prio st) P own)" using ok by (simp add: plist_ok_def)
  have r: "plA (pl_prio st) P own (rptr n) = Some []" using n by (simp add: plA_prio)
  have "prio_unlink st n h = pl st" using fam_empty [OF f r] by (simp add: prio_unlink_def)
  then show ?thesis using fam_del_init_single [OF f, of "nptr n"] n by (simp add: plist_del_unlink)
qed

section \<open>Sequences of insertions and removals\<close>

datatype ('h, 'a) plop = PAdd 'a 'h int | PDel 'a 'h

fun plist_op :: "('h, 'a) plists \<Rightarrow> ('h, 'a) plop \<Rightarrow> ('h, 'a) plists option" where
  "plist_op st (PAdd n h prio) = plist_add (plist_node_init st n prio) n h"
| "plist_op st (PDel n h) = Some (plist_del st n h)"

primrec plist_ops :: "('h, 'a) plists \<Rightarrow> ('h, 'a) plop list \<Rightarrow> ('h, 'a) plists option" where
  "plist_ops st [] = Some st"
| "plist_ops st (u # us) = (case plist_op st u of None \<Rightarrow> None | Some st \<Rightarrow> plist_ops st us)"

text \<open>
  The specification: for every head a list of nodes, for every node a priority. A node goes behind
  the nodes of at least its priority and in front of the others.
\<close>

type_synonym ('h, 'a) plspec = "('h \<Rightarrow> 'a list) \<times> ('a \<Rightarrow> int)"

fun plspec_op :: "('h, 'a) plspec \<Rightarrow> ('h, 'a) plop \<Rightarrow> ('h, 'a) plspec" where
  "plspec_op (P, f) (PAdd n h prio) = (P(h := pl_insert (f(n := prio)) n (P h)), f(n := prio))"
| "plspec_op (P, f) (PDel n h) = (P(h := remove1 n (P h)), f)"

fun plspec_legal :: "('h, 'a) plspec \<Rightarrow> ('h, 'a) plop \<Rightarrow> bool" where
  "plspec_legal (P, f) (PAdd n h prio) \<longleftrightarrow> (\<forall>k. n \<notin> set (P k))"
| "plspec_legal (P, f) (PDel n h) \<longleftrightarrow> (\<forall>k. n \<in> set (P k) \<longrightarrow> k = h)"

fun plspec_legals :: "('h, 'a) plspec \<Rightarrow> ('h, 'a) plop list \<Rightarrow> bool" where
  "plspec_legals s [] \<longleftrightarrow> True"
| "plspec_legals s (u # us) \<longleftrightarrow> plspec_legal s u \<and> plspec_legals (plspec_op s u) us"

text \<open>All heads and nodes as \<open>plist_head_init\<close> and \<open>plist_node_init\<close> leave them.\<close>

definition plist_boot :: "('h, 'a) plists" where
  "plist_boot = \<lparr>pl = \<lparr>nxt = id, prv = id\<rparr>, pl_prio = (\<lambda>_. 0)\<rparr>"

definition plspec_boot :: "('h, 'a) plspec" where
  "plspec_boot = ((\<lambda>_. []), (\<lambda>_. 0))"

lemma plist_boot_ok: "plist_ok plist_boot (\<lambda>_. []) Map.empty"
  unfolding plist_ok_def fam_def
  by (auto simp: plist_boot_def plA_def is_list_def split: lptr.splits pnode.splits)

definition plist_rel :: "('h, 'a) plspec \<Rightarrow> ('h, 'a) plists \<Rightarrow> bool" where
  "plist_rel s st \<longleftrightarrow> pl_prio st = snd s \<and> (\<exists>own. plist_ok st (fst s) own)"

lemma plist_ok_own: "plist_ok st P own \<Longrightarrow> own n = Some h \<longleftrightarrow> n \<in> set (P h)"
  by (simp add: plist_ok_def)

lemma plist_op_step:
  assumes "plist_rel s st" "plspec_legal s u"
  shows "\<exists>st'. plist_op st u = Some st' \<and> plist_rel (plspec_op s u) st'"
proof -
  obtain P f where s: "s = (P, f)" by (cases s)
  with assms(1) obtain own where ok: "plist_ok st P own" and f: "pl_prio st = f" by (auto simp: plist_rel_def)
  show ?thesis
  proof (cases u)
    case (PAdd n h prio)
    then have n: "own n = None" using assms(2) s plist_ok_own [OF ok, of n] by (cases "own n") auto
    note i = plist_node_init_ok [OF ok n, of prio]
    from plist_add_spec [OF i(1) n, of h] show ?thesis using PAdd s f i(3) by (auto simp: plist_rel_def)
  next
    case (PDel n h)
    have pr: "pl_prio (plist_del st n h) = pl_prio st" by (simp add: plist_del_unlink)
    show ?thesis
    proof (cases "own n")
      case None
      then have "n \<notin> set (P h)" using plist_ok_own [OF ok, of n h] by simp
      then have "P(h := remove1 n (P h)) = P" by (simp add: remove1_idem fun_upd_idem)
      then show ?thesis using PDel s f ok plist_del_absent [OF ok None, of h] by (auto simp: plist_rel_def)
    next
      case (Some k)
      then have "k = h" using assms(2) s PDel plist_ok_own [OF ok, of n k] by simp
      then show ?thesis using PDel s f plist_del_spec [OF ok, of n h] Some pr by (auto simp: plist_rel_def)
    qed
  qed
qed

lemma plist_ops_sim:
  "plist_rel s st \<Longrightarrow> plspec_legals s us \<Longrightarrow>
   \<exists>st'. plist_ops st us = Some st' \<and> plist_rel (foldl plspec_op s us) st'"
proof (induction us arbitrary: s st)
  case (Cons u us)
  then obtain st1 where "plist_op st u = Some st1" "plist_rel (plspec_op s u) st1"
    using plist_op_step [of s st u] by auto
  with Cons show ?case by simp
qed simp

lemma plist_rel_view:
  assumes "plist_rel s st"
  shows "is_list (pl st) (hptr h) (map nptr (fst s h))" "sorted (map (snd s) (fst s h))"
    "plist_head_empty st h \<longleftrightarrow> fst s h = []"
    "fst s h \<noteq> [] \<Longrightarrow> plist_first st h = Some (hd (fst s h))"
proof -
  from assms obtain own where ok: "plist_ok st (fst s) own" and f: "pl_prio st = snd s" by (auto simp: plist_rel_def)
  then have fm: "fam (pl st) (plA (pl_prio st) (fst s) own)" by (simp add: plist_ok_def)
  show "is_list (pl st) (hptr h) (map nptr (fst s h))" using famD [OF fm, of "hptr h"] by simp
  show "sorted (map (snd s) (fst s h))" using ok f by (simp add: plist_ok_def)
  show "plist_head_empty st h \<longleftrightarrow> fst s h = []" using plist_head_empty_iff [OF ok] .
  show "fst s h \<noteq> [] \<Longrightarrow> plist_first st h = Some (hd (fst s h))" using plist_first_eq [OF ok] .
qed

text \<open>
  C14. The pointer code of \<open>plist_add\<close> and \<open>plist_del\<close> implements priority-sorted lists with
  first-in-first-out order within a priority: every sequence of insertions of free nodes and removals
  from their list terminates, and leaves under every head exactly the list that the specification
  computes, sorted by priority, with \<open>plist_first\<close> and \<open>plist_head_empty\<close> answering for it.
\<close>

theorem plist_refines:
  assumes "plspec_legals plspec_boot us"
  shows "\<exists>st. plist_ops plist_boot us = Some st \<and>
    (\<forall>h. let P = fst (foldl plspec_op plspec_boot us) h
         in is_list (pl st) (hptr h) (map nptr P) \<and> sorted (map (pl_prio st) P) \<and>
            (plist_head_empty st h \<longleftrightarrow> P = []) \<and> plist_first st h = (if P = [] then None else Some (hd P)))"
proof -
  have "plist_rel plspec_boot plist_boot"
    unfolding plist_rel_def using plist_boot_ok by (auto simp: plspec_boot_def plist_boot_def)
  from plist_ops_sim [OF this assms] obtain st where
    st: "plist_ops plist_boot us = Some st" and r: "plist_rel (foldl plspec_op plspec_boot us) st" by blast
  have pr: "pl_prio st = snd (foldl plspec_op plspec_boot us)" using r by (simp add: plist_rel_def)
  have "plist_first st h = None" if "fst (foldl plspec_op plspec_boot us) h = []" for h
    using is_list_head_next [OF plist_rel_view(1) [OF r, of h]] that by (simp add: plist_first_def node_entry_def)
  then show ?thesis using st plist_rel_view [OF r] pr by (auto simp: Let_def)
qed

theorem plist_refines_witness:
  "\<exists>st. plist_ops plist_boot [PAdd (1 :: nat) (0 :: nat) 5, PAdd 2 0 3, PAdd 3 0 5, PAdd 4 0 3, PDel 2 0] = Some st \<and>
     is_list (pl st) (hptr 0) (map nptr [4, 1, 3]) \<and> plist_first st 0 = Some 4"
proof -
  let ?us = "[PAdd (1 :: nat) (0 :: nat) 5, PAdd 2 0 3, PAdd 3 0 5, PAdd 4 0 3, PDel 2 0]"
  have "plspec_legals plspec_boot ?us" by (simp add: plspec_boot_def pl_insert_def)
  from plist_refines [OF this] obtain st where st: "plist_ops plist_boot ?us = Some st"
    "is_list (pl st) (hptr 0) (map nptr (fst (foldl plspec_op plspec_boot ?us) 0))"
    "plist_first st 0 = (if fst (foldl plspec_op plspec_boot ?us) 0 = [] then None
      else Some (hd (fst (foldl plspec_op plspec_boot ?us) 0)))"
    unfolding Let_def by blast
  have "fst (foldl plspec_op plspec_boot ?us) 0 = [4, 1, 3]" by (simp add: plspec_boot_def pl_insert_def)
  with st show ?thesis by simp
qed

end
