(* ===== verification/Cpupri.thy ===== *)
theory Cpupri
  imports Prelude
begin

text \<open>
  CPU priorities (\<open>kernel/sched_cpupri.c\<close>): the two-level map from priority levels to the CPUs that run
  at them, which the real-time scheduler asks for the CPUs of lowest priority. A \<open>cpumask\<close> is a set of
  CPU numbers below \<open>nr_cpu_ids\<close>; the two bitmaps are sets of indices.
\<close>

definition MAX_RT_PRIO :: int where "MAX_RT_PRIO = 100"
definition MAX_PRIO :: int where "MAX_PRIO = 140"
definition CPUPRI_NR_PRIORITIES :: int where "CPUPRI_NR_PRIORITIES = 102"
definition CPUPRI_INVALID :: int where "CPUPRI_INVALID = -1"
definition CPUPRI_IDLE :: int where "CPUPRI_IDLE = 0"
definition CPUPRI_NORMAL :: int where "CPUPRI_NORMAL = 1"

lemmas cpupri_consts =
  MAX_RT_PRIO_def MAX_PRIO_def CPUPRI_NR_PRIORITIES_def CPUPRI_INVALID_def CPUPRI_IDLE_def CPUPRI_NORMAL_def

record cpupri_vec =
  vec_count :: int
  vec_mask :: "nat set"

record cpupri =
  pri_to_cpu :: "int \<Rightarrow> cpupri_vec"
  pri_active :: "int set"
  cpu_to_pri :: "nat \<Rightarrow> int"

definition convert_prio :: "int \<Rightarrow> int" where
  "convert_prio prio =
     (if prio = CPUPRI_INVALID then CPUPRI_INVALID
      else if prio = MAX_PRIO then CPUPRI_IDLE
      else if prio \<ge> MAX_RT_PRIO then CPUPRI_NORMAL
      else MAX_RT_PRIO - prio + 1)"

text \<open>\<open>cpumask_any_and(a, b) >= nr_cpu_ids\<close>: the masks have no CPU in common.\<close>

definition cpumask_none :: "nat \<Rightarrow> nat set \<Rightarrow> bool" where
  "cpumask_none nr_cpu_ids m \<longleftrightarrow> (\<forall>i < nr_cpu_ids. i \<notin> m)"

text \<open>The loop over the active levels; the result is the return value and \<open>lowest_mask\<close> (if not \<open>NULL\<close>).\<close>

primrec cpupri_find_loop ::
  "nat \<Rightarrow> cpupri \<Rightarrow> int \<Rightarrow> nat set \<Rightarrow> int list \<Rightarrow> nat set option \<Rightarrow> bool \<times> nat set option" where
  "cpupri_find_loop nr_cpu_ids cp task_pri allowed [] lowest_mask = (False, lowest_mask)"
| "cpupri_find_loop nr_cpu_ids cp task_pri allowed (idx # idxs) lowest_mask =
     (let vec = pri_to_cpu cp idx
      in if idx \<ge> task_pri then (False, lowest_mask)
         else if cpumask_none nr_cpu_ids (allowed \<inter> vec_mask vec)
         then cpupri_find_loop nr_cpu_ids cp task_pri allowed idxs lowest_mask
         else case lowest_mask of
           None \<Rightarrow> (True, None)
         | Some _ \<Rightarrow>
             (let m = allowed \<inter> vec_mask vec
              in if cpumask_none nr_cpu_ids m
                 then cpupri_find_loop nr_cpu_ids cp task_pri allowed idxs (Some m)
                 else (True, Some m)))"

definition cpupri_find :: "nat \<Rightarrow> cpupri \<Rightarrow> int \<Rightarrow> nat set \<Rightarrow> nat set option \<Rightarrow> bool \<times> nat set option" where
  "cpupri_find nr_cpu_ids cp prio allowed lowest_mask =
     cpupri_find_loop nr_cpu_ids cp (convert_prio prio) allowed
       (filter (\<lambda>idx. idx \<in> pri_active cp) [0..CPUPRI_NR_PRIORITIES - 1]) lowest_mask"

definition cpupri_add_cpu :: "cpupri \<Rightarrow> nat \<Rightarrow> int \<Rightarrow> cpupri" where
  "cpupri_add_cpu cp cpu newpri =
     (let vec = pri_to_cpu cp newpri;
          vec = vec\<lparr>vec_mask := insert cpu (vec_mask vec)\<rparr>;
          vec = vec\<lparr>vec_count := vec_count vec + 1\<rparr>;
          cp = cp\<lparr>pri_to_cpu := (pri_to_cpu cp)(newpri := vec)\<rparr>
      in if vec_count vec = 1 then cp\<lparr>pri_active := insert newpri (pri_active cp)\<rparr> else cp)"

definition cpupri_remove_cpu :: "cpupri \<Rightarrow> nat \<Rightarrow> int \<Rightarrow> cpupri" where
  "cpupri_remove_cpu cp cpu oldpri =
     (let vec = pri_to_cpu cp oldpri;
          vec = vec\<lparr>vec_count := vec_count vec - 1\<rparr>;
          cp = (if vec_count vec = 0 then cp\<lparr>pri_active := pri_active cp - {oldpri}\<rparr> else cp);
          vec = vec\<lparr>vec_mask := vec_mask vec - {cpu}\<rparr>
      in cp\<lparr>pri_to_cpu := (pri_to_cpu cp)(oldpri := vec)\<rparr>)"

definition cpupri_set :: "cpupri \<Rightarrow> nat \<Rightarrow> int \<Rightarrow> cpupri run" where
  "cpupri_set cp cpu newpri =
     (let oldpri = cpu_to_pri cp cpu;
          newpri = convert_prio newpri
      in if newpri \<ge> CPUPRI_NR_PRIORITIES then Inl Bug
         else if newpri = oldpri then Inr cp
         else
           let cp = (if newpri \<noteq> CPUPRI_INVALID then cpupri_add_cpu cp cpu newpri else cp);
               cp = (if oldpri \<noteq> CPUPRI_INVALID then cpupri_remove_cpu cp cpu oldpri else cp)
           in Inr (cp\<lparr>cpu_to_pri := (cpu_to_pri cp)(cpu := newpri)\<rparr>))"

definition cpupri_init :: "cpupri" where
  "cpupri_init = \<lparr>pri_to_cpu = (\<lambda>_. \<lparr>vec_count = 0, vec_mask = {}\<rparr>), pri_active = {},
     cpu_to_pri = (\<lambda>_. CPUPRI_INVALID)\<rparr>"

section \<open>The invariant\<close>

text \<open>Level \<open>idx\<close> lists exactly the CPUs at that level, counts them, and is active iff there is one.\<close>

definition cpus_at :: "nat \<Rightarrow> (nat \<Rightarrow> int) \<Rightarrow> int \<Rightarrow> nat set" where
  "cpus_at nr f idx = {c. c < nr \<and> f c = idx}"

definition cpupri_ok :: "nat \<Rightarrow> cpupri \<Rightarrow> bool" where
  "cpupri_ok nr cp \<longleftrightarrow>
     (\<forall>c < nr. CPUPRI_INVALID \<le> cpu_to_pri cp c \<and> cpu_to_pri cp c < CPUPRI_NR_PRIORITIES) \<and>
     (\<forall>idx. 0 \<le> idx \<longrightarrow> idx < CPUPRI_NR_PRIORITIES \<longrightarrow>
        vec_mask (pri_to_cpu cp idx) = cpus_at nr (cpu_to_pri cp) idx \<and>
        vec_count (pri_to_cpu cp idx) = int (card (cpus_at nr (cpu_to_pri cp) idx)) \<and>
        (idx \<in> pri_active cp \<longleftrightarrow> cpus_at nr (cpu_to_pri cp) idx \<noteq> {}))"

lemma finite_cpus_at [simp]: "finite (cpus_at nr f idx)"
  by (simp add: cpus_at_def)

lemma convert_prio_range:
  "- 1 \<le> prio \<Longrightarrow> CPUPRI_INVALID \<le> convert_prio prio \<and> convert_prio prio < CPUPRI_NR_PRIORITIES"
  by (auto simp: convert_prio_def cpupri_consts)

lemma cpupri_init_ok: "cpupri_ok nr cpupri_init"
  by (auto simp: cpupri_ok_def cpupri_init_def cpus_at_def cpupri_consts)

lemma cpus_at_upd:
  assumes "cpu < nr"
  shows "cpus_at nr (f(cpu := v)) idx =
    (if idx = v then insert cpu (cpus_at nr f idx) else cpus_at nr f idx - {cpu})"
  using assms by (auto simp: cpus_at_def)

lemma cpupri_set_eq:
  assumes "- 1 \<le> prio"
  shows "cpupri_set cp cpu prio =
    (let old = cpu_to_pri cp cpu; new = convert_prio prio
     in if new = old then Inr cp
        else let cp1 = (if new \<noteq> - 1 then cpupri_add_cpu cp cpu new else cp);
                 cp2 = (if old \<noteq> - 1 then cpupri_remove_cpu cp1 cpu old else cp1)
             in Inr (cp2\<lparr>cpu_to_pri := (cpu_to_pri cp)(cpu := new)\<rparr>))"
  using convert_prio_range [OF assms]
  by (simp add: cpupri_set_def Let_def cpupri_add_cpu_def cpupri_remove_cpu_def cpupri_consts)

lemma cpupri_set_spec:
  assumes ok: "cpupri_ok nr cp" and cpu: "cpu < nr" and prio: "- 1 \<le> prio"
  shows "\<exists>cp'. cpupri_set cp cpu prio = Inr cp' \<and> cpupri_ok nr cp' \<and>
    cpu_to_pri cp' = (cpu_to_pri cp)(cpu := convert_prio prio)"
proof (cases "convert_prio prio = cpu_to_pri cp cpu")
  case True
  then show ?thesis using ok cpupri_set_eq [OF prio] by (auto simp: Let_def)
next
  case False
  let ?old = "cpu_to_pri cp cpu" and ?new = "convert_prio prio"
  define cp1 where "cp1 = (if ?new \<noteq> - 1 then cpupri_add_cpu cp cpu ?new else cp)"
  define cp2 where "cp2 = (if ?old \<noteq> - 1 then cpupri_remove_cpu cp1 cpu ?old else cp1)"
  define cp3 where "cp3 = cp2\<lparr>cpu_to_pri := (cpu_to_pri cp)(cpu := ?new)\<rparr>"
  have run: "cpupri_set cp cpu prio = Inr cp3"
    using False cpupri_set_eq [OF prio] by (simp add: Let_def cp1_def cp2_def cp3_def)
  have range: "- 1 \<le> ?old" "?old < 102" "- 1 \<le> ?new" "?new < 102"
    using ok cpu convert_prio_range [OF prio] by (auto simp: cpupri_ok_def cpupri_consts)
  have inv: "vec_mask (pri_to_cpu cp idx) = cpus_at nr (cpu_to_pri cp) idx"
      "vec_count (pri_to_cpu cp idx) = int (card (cpus_at nr (cpu_to_pri cp) idx))"
      "idx \<in> pri_active cp \<longleftrightarrow> cpus_at nr (cpu_to_pri cp) idx \<noteq> {}"
    if "0 \<le> idx" "idx < 102" for idx
    using ok that by (auto simp: cpupri_ok_def cpupri_consts)
  have new_out: "cpu \<notin> cpus_at nr (cpu_to_pri cp) ?new" using False by (simp add: cpus_at_def)
  have old_in: "cpu \<in> cpus_at nr (cpu_to_pri cp) ?old" using cpu by (simp add: cpus_at_def)
  have level: "vec_mask (pri_to_cpu cp3 idx) = cpus_at nr ((cpu_to_pri cp)(cpu := ?new)) idx \<and>
      vec_count (pri_to_cpu cp3 idx) = int (card (cpus_at nr ((cpu_to_pri cp)(cpu := ?new)) idx)) \<and>
      (idx \<in> pri_active cp3 \<longleftrightarrow> cpus_at nr ((cpu_to_pri cp)(cpu := ?new)) idx \<noteq> {})"
    if idx: "0 \<le> idx" "idx < 102" for idx
  proof -
    note i = inv [OF idx]
    consider (new) "idx = ?new" | (old) "idx = ?old" | (other) "idx \<noteq> ?new" "idx \<noteq> ?old" by blast
    then show ?thesis
    proof cases
      case new
      then have "?new \<noteq> - 1" "?new \<noteq> ?old" using idx False by auto
      with new i new_out show ?thesis
        by (auto simp: cpus_at_upd [OF cpu] cp3_def cp2_def cp1_def cpupri_add_cpu_def cpupri_remove_cpu_def Let_def
            card_insert_if)
    next
      case old
      then have "?old \<noteq> - 1" "?new \<noteq> ?old" using idx False by auto
      moreover obtain n where "card (cpus_at nr (cpu_to_pri cp) ?old) = Suc n"
        "card (cpus_at nr (cpu_to_pri cp) ?old - {cpu}) = n"
        using old_in by (metis card_Suc_Diff1 finite_cpus_at)
      moreover have "n = 0 \<longleftrightarrow> cpus_at nr (cpu_to_pri cp) ?old - {cpu} = {}"
        using calculation(4) by (metis card_eq_0_iff finite_Diff finite_cpus_at)
      ultimately show ?thesis using old i
        by (auto simp: cpus_at_upd [OF cpu] cp3_def cp2_def cp1_def cpupri_add_cpu_def cpupri_remove_cpu_def Let_def)
    next
      case other
      then have "cpus_at nr ((cpu_to_pri cp)(cpu := ?new)) idx = cpus_at nr (cpu_to_pri cp) idx"
        using cpu by (auto simp: cpus_at_def)
      with other i show ?thesis
        by (auto simp: cp3_def cp2_def cp1_def cpupri_add_cpu_def cpupri_remove_cpu_def Let_def)
    qed
  qed
  have "cpupri_ok nr cp3"
    unfolding cpupri_ok_def
    using ok range level by (auto simp: cp3_def cpupri_ok_def cpupri_consts)
  with run show ?thesis by (auto simp: cp3_def)
qed

section \<open>The search\<close>

lemma cpumask_none_iff: "m \<subseteq> {..<nr} \<Longrightarrow> cpumask_none nr m \<longleftrightarrow> m = {}"
  by (auto simp: cpumask_none_def)

lemma cpupri_find_loop_spec:
  assumes "sorted_wrt (<) idxs" "\<forall>idx \<in> set idxs. vec_mask (pri_to_cpu cp idx) = cpus_at nr f idx"
  shows "case cpupri_find_loop nr cp tp allowed idxs lm of (found, lm') \<Rightarrow>
    if found
    then \<exists>idx \<in> set idxs. idx < tp \<and> allowed \<inter> cpus_at nr f idx \<noteq> {} \<and>
           (\<forall>j \<in> set idxs. j < idx \<longrightarrow> allowed \<inter> cpus_at nr f j = {}) \<and>
           lm' = map_option (\<lambda>_. allowed \<inter> cpus_at nr f idx) lm
    else \<forall>idx \<in> set idxs. idx < tp \<longrightarrow> allowed \<inter> cpus_at nr f idx = {}"
  using assms
proof (induction idxs arbitrary: lm)
  case Nil
  then show ?case by simp
next
  case (Cons i idxs)
  have vm: "vec_mask (pri_to_cpu cp i) = cpus_at nr f i" using Cons.prems(2) by simp
  have none: "cpumask_none nr (allowed \<inter> cpus_at nr f i) \<longleftrightarrow> allowed \<inter> cpus_at nr f i = {}"
    by (rule cpumask_none_iff) (auto simp: cpus_at_def)
  have later: "\<forall>j \<in> set idxs. i < j" using Cons.prems(1) by simp
  consider "tp \<le> i" | "i < tp" "allowed \<inter> cpus_at nr f i = {}" | "i < tp" "allowed \<inter> cpus_at nr f i \<noteq> {}"
    by linarith
  then show ?case
  proof cases
    case 1
    then show ?thesis using later by auto
  next
    case 2
    have IH: "case cpupri_find_loop nr cp tp allowed idxs lm of (found, lm') \<Rightarrow>
      if found
      then \<exists>idx \<in> set idxs. idx < tp \<and> allowed \<inter> cpus_at nr f idx \<noteq> {} \<and>
             (\<forall>j \<in> set idxs. j < idx \<longrightarrow> allowed \<inter> cpus_at nr f j = {}) \<and>
             lm' = map_option (\<lambda>_. allowed \<inter> cpus_at nr f idx) lm
      else \<forall>idx \<in> set idxs. idx < tp \<longrightarrow> allowed \<inter> cpus_at nr f idx = {}"
      using Cons.IH Cons.prems by simp
    have step: "cpupri_find_loop nr cp tp allowed (i # idxs) lm = cpupri_find_loop nr cp tp allowed idxs lm"
      using 2 vm none by (simp add: Let_def)
    obtain found lm' where r: "cpupri_find_loop nr cp tp allowed idxs lm = (found, lm')" by (cases "cpupri_find_loop nr cp tp allowed idxs lm")
    show ?thesis using IH 2 unfolding step r by (cases found) auto
  next
    case 3
    have step: "cpupri_find_loop nr cp tp allowed (i # idxs) lm = (True, map_option (\<lambda>_. allowed \<inter> cpus_at nr f i) lm)"
      using 3 vm none by (cases lm) (simp_all add: Let_def)
    have "\<forall>j \<in> set (i # idxs). j < i \<longrightarrow> allowed \<inter> cpus_at nr f j = {}" using later by auto
    with 3 show ?thesis unfolding step by auto
  qed
qed

text \<open>The CPUs that may run the task and are at a lower level than it.\<close>

definition lower_cpus :: "nat \<Rightarrow> cpupri \<Rightarrow> int \<Rightarrow> nat set \<Rightarrow> nat set" where
  "lower_cpus nr cp prio allowed =
     {c. c < nr \<and> c \<in> allowed \<and> 0 \<le> cpu_to_pri cp c \<and> cpu_to_pri cp c < convert_prio prio}"

lemma sorted_upto_filter: "sorted_wrt (<) (filter P [a..b :: int])"
  by (simp add: sorted_wrt_filter)

lemma cpupri_find_spec:
  fixes prio :: int and allowed :: "nat set"
  assumes ok: "cpupri_ok nr cp"
  defines "E \<equiv> lower_cpus nr cp prio allowed"
  shows "fst (cpupri_find nr cp prio allowed lm) \<longleftrightarrow> E \<noteq> {}"
    "E \<noteq> {} \<Longrightarrow> snd (cpupri_find nr cp prio allowed lm) =
       map_option (\<lambda>_. {c \<in> E. \<forall>d \<in> E. cpu_to_pri cp c \<le> cpu_to_pri cp d}) lm"
proof -
  let ?f = "cpu_to_pri cp" and ?tp = "convert_prio prio"
  define idxs where "idxs = filter (\<lambda>idx. idx \<in> pri_active cp) [0..CPUPRI_NR_PRIORITIES - 1]"
  have set_idxs: "set idxs = {idx. 0 \<le> idx \<and> idx < 102 \<and> idx \<in> pri_active cp}"
    unfolding idxs_def set_filter set_upto by (auto simp: CPUPRI_NR_PRIORITIES_def)
  have range: "\<forall>c < nr. ?f c < 102" using ok by (auto simp: cpupri_ok_def cpupri_consts)
  have vm: "\<forall>idx \<in> set idxs. vec_mask (pri_to_cpu cp idx) = cpus_at nr ?f idx"
    using ok by (auto simp: set_idxs cpupri_ok_def cpupri_consts)
  have act: "idx \<in> set idxs" if "0 \<le> idx" "idx < 102" "cpus_at nr ?f idx \<noteq> {}" for idx
    using ok that by (auto simp: set_idxs cpupri_ok_def cpupri_consts)
  have nonneg: "\<forall>idx \<in> set idxs. 0 \<le> idx" by (simp add: set_idxs)
  have E: "c \<in> E \<longleftrightarrow> c < nr \<and> c \<in> allowed \<and> 0 \<le> ?f c \<and> ?f c < ?tp" for c by (simp add: E_def lower_cpus_def)
  have EI: "?f c \<in> set idxs \<and> c \<in> allowed \<inter> cpus_at nr ?f (?f c)" if "c \<in> E" for c
    using that E [of c] range act [of "?f c"] by (auto simp: cpus_at_def)
  have EI': "c \<in> E" if "idx \<in> set idxs" "idx < ?tp" "c \<in> allowed \<inter> cpus_at nr ?f idx" for c idx
    using that nonneg by (auto simp: E cpus_at_def)
  obtain found lm' where r: "cpupri_find nr cp prio allowed lm = (found, lm')"
    by (cases "cpupri_find nr cp prio allowed lm")
  have find: "cpupri_find nr cp prio allowed lm = cpupri_find_loop nr cp ?tp allowed idxs lm"
    by (simp only: cpupri_find_def idxs_def)
  have sorted: "sorted_wrt (<) idxs" unfolding idxs_def by (rule sorted_upto_filter)
  note spec = cpupri_find_loop_spec [OF sorted vm, of ?tp allowed lm, folded find]
  show "fst (cpupri_find nr cp prio allowed lm) \<longleftrightarrow> E \<noteq> {}"
  proof (cases found)
    case True
    with spec r obtain idx where i: "idx \<in> set idxs" "idx < ?tp" "allowed \<inter> cpus_at nr ?f idx \<noteq> {}" by auto
    then obtain e where "e \<in> allowed \<inter> cpus_at nr ?f idx" by blast
    with EI' [OF i(1,2)] have "E \<noteq> {}" by blast
    with r True show ?thesis by simp
  next
    case False
    with spec r have "\<forall>idx \<in> set idxs. idx < ?tp \<longrightarrow> allowed \<inter> cpus_at nr ?f idx = {}"
      by simp
    then have "E = {}" using EI E by blast
    with r False show ?thesis by simp
  qed
  with r have fnd: "E \<noteq> {} \<Longrightarrow> found" by simp
  show "snd (cpupri_find nr cp prio allowed lm) =
       map_option (\<lambda>_. {c \<in> E. \<forall>d \<in> E. ?f c \<le> ?f d}) lm" if "E \<noteq> {}"
  proof -
    from spec r fnd [OF that] obtain idx where
      i: "idx \<in> set idxs" "idx < ?tp" "allowed \<inter> cpus_at nr ?f idx \<noteq> {}"
        "\<forall>j \<in> set idxs. j < idx \<longrightarrow> allowed \<inter> cpus_at nr ?f j = {}"
        "lm' = map_option (\<lambda>_. allowed \<inter> cpus_at nr ?f idx) lm"
      by auto
    have lower: "idx \<le> ?f d" if "d \<in> E" for d
    proof (rule ccontr)
      assume "\<not> idx \<le> ?f d"
      then have "allowed \<inter> cpus_at nr ?f (?f d) = {}" using EI [OF that] i(4) by simp
      with EI [OF that] show False by blast
    qed
    have "allowed \<inter> cpus_at nr ?f idx = {c \<in> E. \<forall>d \<in> E. ?f c \<le> ?f d}"
    proof (rule set_eqI)
      fix c
      obtain e where e: "e \<in> allowed \<inter> cpus_at nr ?f idx" using i(3) by blast
      have eE: "e \<in> E" "?f e = idx" using EI' [OF i(1,2) e] e by (auto simp: cpus_at_def)
      show "c \<in> allowed \<inter> cpus_at nr ?f idx \<longleftrightarrow> c \<in> {c \<in> E. \<forall>d \<in> E. ?f c \<le> ?f d}"
      proof
        assume c: "c \<in> allowed \<inter> cpus_at nr ?f idx"
        then have "c \<in> E" "?f c = idx" using EI' [OF i(1,2) c] by (auto simp: cpus_at_def)
        with lower show "c \<in> {c \<in> E. \<forall>d \<in> E. ?f c \<le> ?f d}" by simp
      next
        assume c: "c \<in> {c \<in> E. \<forall>d \<in> E. ?f c \<le> ?f d}"
        then have "?f c \<le> idx" "c \<in> E" using eE by auto
        with lower [of c] have "?f c = idx" by linarith
        with \<open>c \<in> E\<close> EI [of c] show "c \<in> allowed \<inter> cpus_at nr ?f idx" by simp
      qed
    qed
    with i(5) r show ?thesis by simp
  qed
qed

section \<open>The map after any sequence of updates\<close>

primrec cpupri_sets :: "cpupri \<Rightarrow> (nat \<times> int) list \<Rightarrow> cpupri run" where
  "cpupri_sets cp [] = Inr cp"
| "cpupri_sets cp (u # us) = run_bind (cpupri_set cp (fst u) (snd u)) (\<lambda>cp. cpupri_sets cp us)"

definition levels :: "(nat \<Rightarrow> int) \<Rightarrow> (nat \<times> int) list \<Rightarrow> nat \<Rightarrow> int" where
  "levels f us = fold (\<lambda>(cpu, prio) f. f(cpu := convert_prio prio)) us f"

lemma levels_Cons: "levels f ((cpu, prio) # us) = levels (f(cpu := convert_prio prio)) us"
  by (simp add: levels_def)

lemma cpupri_sets_spec:
  assumes "cpupri_ok nr cp" "\<forall>(cpu, prio) \<in> set us. cpu < nr \<and> - 1 \<le> prio"
  shows "\<exists>cp'. cpupri_sets cp us = Inr cp' \<and> cpupri_ok nr cp' \<and> cpu_to_pri cp' = levels (cpu_to_pri cp) us"
  using assms
proof (induction us arbitrary: cp)
  case Nil
  then show ?case by (simp add: levels_def)
next
  case (Cons u us)
  obtain cpu prio where u: "u = (cpu, prio)" by (cases u)
  then have "cpu < nr" "- 1 \<le> prio" using Cons.prems(2) by auto
  from cpupri_set_spec [OF Cons.prems(1) this] obtain cp1 where c1:
    "cpupri_set cp cpu prio = Inr cp1" "cpupri_ok nr cp1" "cpu_to_pri cp1 = (cpu_to_pri cp)(cpu := convert_prio prio)"
    by blast
  have "\<forall>(cpu, prio) \<in> set us. cpu < nr \<and> - 1 \<le> prio" using Cons.prems(2) by simp
  from Cons.IH [OF c1(2) this] c1(1) show ?case unfolding u levels_Cons c1(3) [symmetric] by simp
qed

text \<open>
  C13. From the initial map, any sequence of \<open>cpupri_set\<close> calls on existing CPUs with valid priorities
  runs without a \<open>BUG_ON\<close>, and afterwards \<open>cpupri_find\<close> answers by the last priority set for each CPU:
  it succeeds exactly when some allowed CPU runs at a lower level than the task, and the mask it
  returns is the set of all such CPUs whose level is the lowest.
\<close>

theorem cpupri_find_lowest:
  assumes "\<forall>(cpu, prio) \<in> set us. cpu < nr \<and> - 1 \<le> prio"
  shows "\<exists>cp. cpupri_sets cpupri_init us = Inr cp \<and>
    (let level = levels (\<lambda>_. CPUPRI_INVALID) us;
         E = {c. c < nr \<and> c \<in> allowed \<and> 0 \<le> level c \<and> level c < convert_prio prio}
     in if E = {} then \<not> fst (cpupri_find nr cp prio allowed (Some m))
        else cpupri_find nr cp prio allowed (Some m) = (True, Some {c \<in> E. \<forall>d \<in> E. level c \<le> level d}))"
proof -
  have "cpu_to_pri cpupri_init = (\<lambda>_. CPUPRI_INVALID)" by (simp add: cpupri_init_def)
  with cpupri_sets_spec [OF cpupri_init_ok [of nr] assms] obtain cp where
    cp: "cpupri_sets cpupri_init us = Inr cp" "cpupri_ok nr cp" "cpu_to_pri cp = levels (\<lambda>_. CPUPRI_INVALID) us"
    by auto
  note f = cpupri_find_spec [OF cp(2), of prio allowed "Some m", unfolded lower_cpus_def cp(3)]
  show ?thesis
    using cp(1) f by (intro exI [of _ cp] conjI) (auto simp: Let_def prod_eq_iff)
qed

theorem cpupri_find_lowest_witness:
  "\<exists>cp. cpupri_sets cpupri_init [(0, 140), (1, 20), (2, 30), (1, 30)] = Inr cp \<and>
     cpupri_find 3 cp 10 {1, 2} (Some {}) = (True, Some {1, 2})"
proof -
  let ?us = "[(0 :: nat, 140 :: int), (1, 20), (2, 30), (1, 30)]"
  let ?E = "{c :: nat. c < 3 \<and> c \<in> {1, 2} \<and> 0 \<le> levels (\<lambda>_. CPUPRI_INVALID) ?us c \<and>
    levels (\<lambda>_. CPUPRI_INVALID) ?us c < convert_prio 10}"
  have E: "?E = {1, 2}" by (auto simp: levels_def convert_prio_def cpupri_consts)
  have m: "{c \<in> {1, 2}. \<forall>d \<in> {1, 2}. levels (\<lambda>_. CPUPRI_INVALID) ?us c \<le> levels (\<lambda>_. CPUPRI_INVALID) ?us d} = {1, 2}"
    by (auto simp: levels_def convert_prio_def cpupri_consts)
  show ?thesis using cpupri_find_lowest [of ?us 3 "{1, 2}" 10 "{}"] unfolding Let_def E m by simp
qed

end
