(* ===== verification/Sched_State.thy ===== *)
theory Sched_State
  imports Klist Plist Cpupri
begin

text \<open>
  The state of the real-time scheduling class (\<open>project1/sched_rt.c\<close>) and the functions of
  \<open>kernel/sched.c\<close> it calls. The configuration is \<open>CONFIG_SMP\<close> without \<open>CONFIG_RT_GROUP_SCHED\<close>: every
  scheduling entity is a task and every CPU has one real-time run queue. Tasks and CPUs are numbers.
  The run lists of all CPUs live in one heap of kernel lists, whose nodes are the queue heads
  \<open>array->queue + prio\<close> and the \<open>run_list\<close> of every task; the lists of pushable tasks live in a heap of
  priority lists, with a head per CPU. Counters that count tasks are unbounded integers.
\<close>

section \<open>Tasks, run queues, root domains\<close>

datatype policy = SCHED_NORMAL | SCHED_FIFO | SCHED_RR | SCHED_BATCH | SCHED_IDLE

record task =
  prio :: int
  policy :: policy
  rt_class :: bool
  on_rq :: bool
  on_cpu :: bool
  task_cpu :: nat
  cpus_allowed :: "nat set"
  nr_cpus_allowed :: int
  time_slice :: int
  timeout :: int
  exec_start :: int
  sum_exec_runtime :: int
  need_resched :: bool
  rlim_cur :: int
  rlim_max :: int
  sched_exp :: int
  contributes_to_load :: bool

record rt_rq =
  bitmap :: "int set"
  rt_nr_running :: int
  hp_curr :: int
  hp_next :: int
  rt_nr_migratory :: int
  rt_nr_total :: int
  overload :: bool
  rt_throttled :: bool
  rt_time :: int
  rt_runtime :: int

record rq =
  nr_running :: int
  skip_clock_update :: int
  rt :: rt_rq
  nr_uninterruptible :: int
  curr :: nat
  idle :: nat
  clock :: int
  clock_task :: int
  rd :: nat
  post_schedule :: bool
  online :: bool

record root_domain =
  span :: "nat set"
  rd_online :: "nat set"
  rto_mask :: "nat set"
  rto_count :: int
  rd_cpupri :: cpupri

datatype rt_node = Queue nat int | Run_list nat

record sched =
  tasks :: "nat \<Rightarrow> task"
  rqs :: "nat \<Rightarrow> rq"
  rds :: "nat \<Rightarrow> root_domain"
  runq :: "rt_node lheap"
  pushable :: "(nat, nat) plists"
  rt_b_period :: int
  rt_b_runtime :: int
  rt_b_active :: bool
  sysctl_sched_rt_runtime :: int
  scheduler_running :: bool
  cpu_online_mask :: "nat set"
  local_cpu_mask :: "nat \<Rightarrow> nat set option"

text \<open>
  What the class takes from outside: the number of CPUs, the tick rate, the CPU the code runs on, the
  clock, the scheduling domains above each CPU (whether \<open>SD_WAKE_AFFINE\<close> is set, and the span), what
  other CPUs do while \<open>double_lock_balance\<close> has dropped the lock (with its return value), and the queue
  operations of the other scheduling classes.
\<close>

record sched_env =
  nr_cpu_ids :: nat
  HZ :: int
  smp_processor_id :: nat
  sched_clock_cpu :: "sched \<Rightarrow> nat \<Rightarrow> int"
  domains :: "nat \<Rightarrow> (bool \<times> nat set) list"
  interference :: "nat \<Rightarrow> nat \<Rightarrow> sched \<Rightarrow> bool \<times> sched"
  other_enqueue :: "nat \<Rightarrow> nat \<Rightarrow> int \<Rightarrow> sched \<Rightarrow> sched run"
  other_dequeue :: "nat \<Rightarrow> nat \<Rightarrow> int \<Rightarrow> sched \<Rightarrow> sched run"

definition RUNTIME_INF :: int where "RUNTIME_INF = 18446744073709551615"
definition RLIM_INFINITY :: int where "RLIM_INFINITY = 18446744073709551615"
definition USEC_PER_SEC :: int where "USEC_PER_SEC = 1000000"
definition DEF_TIMESLICE :: "sched_env \<Rightarrow> int" where "DEF_TIMESLICE e = 100 * HZ e div 1000"

definition upd_task :: "nat \<Rightarrow> (task \<Rightarrow> task) \<Rightarrow> sched \<Rightarrow> sched" where
  "upd_task t f s = s\<lparr>tasks := (tasks s)(t := f (tasks s t))\<rparr>"

definition upd_rq :: "nat \<Rightarrow> (rq \<Rightarrow> rq) \<Rightarrow> sched \<Rightarrow> sched" where
  "upd_rq c f s = s\<lparr>rqs := (rqs s)(c := f (rqs s c))\<rparr>"

definition upd_rt :: "nat \<Rightarrow> (rt_rq \<Rightarrow> rt_rq) \<Rightarrow> sched \<Rightarrow> sched" where
  "upd_rt c f s = upd_rq c (\<lambda>q. q\<lparr>rt := f (rt q)\<rparr>) s"

definition upd_rd :: "nat \<Rightarrow> (root_domain \<Rightarrow> root_domain) \<Rightarrow> sched \<Rightarrow> sched" where
  "upd_rd d f s = s\<lparr>rds := (rds s)(d := f (rds s d))\<rparr>"

abbreviation rt_of :: "sched \<Rightarrow> nat \<Rightarrow> rt_rq" where "rt_of s c \<equiv> rt (rqs s c)"
abbreviation rd_of :: "sched \<Rightarrow> nat \<Rightarrow> root_domain" where "rd_of s c \<equiv> rds s (rd (rqs s c))"
abbreviation curr_of :: "sched \<Rightarrow> nat \<Rightarrow> nat" where "curr_of s c \<equiv> curr (rqs s c)"
abbreviation prio_of :: "sched \<Rightarrow> nat \<Rightarrow> int" where "prio_of s t \<equiv> prio (tasks s t)"

abbreviation queue :: "nat \<Rightarrow> int \<Rightarrow> rt_node lptr" where "queue c i \<equiv> Node (Queue c i)"
abbreviation run_list :: "nat \<Rightarrow> rt_node lptr" where "run_list t \<equiv> Node (Run_list t)"

section \<open>Helpers of \<open>kernel/sched.c\<close> and the bit operations\<close>

definition rt_prio :: "int \<Rightarrow> bool" where "rt_prio p \<longleftrightarrow> p < MAX_RT_PRIO"
definition rt_task :: "sched \<Rightarrow> nat \<Rightarrow> bool" where "rt_task s t \<longleftrightarrow> rt_prio (prio_of s t)"
definition task_current :: "sched \<Rightarrow> nat \<Rightarrow> nat \<Rightarrow> bool" where "task_current s c t \<longleftrightarrow> curr_of s c = t"
definition task_running :: "sched \<Rightarrow> nat \<Rightarrow> nat \<Rightarrow> bool" where "task_running s c t \<longleftrightarrow> on_cpu (tasks s t)"
definition test_tsk_need_resched :: "sched \<Rightarrow> nat \<Rightarrow> bool" where "test_tsk_need_resched s t \<longleftrightarrow> need_resched (tasks s t)"
definition set_tsk_need_resched :: "nat \<Rightarrow> sched \<Rightarrow> sched" where
  "set_tsk_need_resched t = upd_task t (\<lambda>p. p\<lparr>need_resched := True\<rparr>)"

definition resched_task :: "nat \<Rightarrow> sched \<Rightarrow> sched" where
  "resched_task t s = (if test_tsk_need_resched s t then s else set_tsk_need_resched t s)"

definition rt_bandwidth_enabled :: "sched \<Rightarrow> bool" where
  "rt_bandwidth_enabled s \<longleftrightarrow> sysctl_sched_rt_runtime s \<ge> 0"

definition start_rt_bandwidth :: "sched \<Rightarrow> sched" where
  "start_rt_bandwidth s =
     (if \<not> rt_bandwidth_enabled s \<or> rt_b_runtime s = RUNTIME_INF then s
      else if rt_b_active s then s
      else s\<lparr>rt_b_active := True\<rparr>)"

definition update_rq_clock :: "sched_env \<Rightarrow> nat \<Rightarrow> sched \<Rightarrow> sched" where
  "update_rq_clock e c s =
     (if skip_clock_update (rqs s c) > 0 then s
      else let delta = s64 (sched_clock_cpu e s c - clock (rqs s c))
           in upd_rq c (\<lambda>q. q\<lparr>clock := u64 (clock q + delta), clock_task := u64 (clock_task q + delta)\<rparr>) s)"

text \<open>The first set bit at or above \<open>i\<close>, looking at \<open>n\<close> bits.\<close>

fun find_bit :: "int set \<Rightarrow> int \<Rightarrow> nat \<Rightarrow> int" where
  "find_bit b i 0 = i"
| "find_bit b i (Suc n) = (if i \<in> b then i else find_bit b (i + 1) n)"

definition find_next_bit :: "int set \<Rightarrow> int \<Rightarrow> int \<Rightarrow> int" where
  "find_next_bit b sz off = find_bit b off (nat (sz - off))"

definition sched_find_first_bit :: "int set \<Rightarrow> int" where
  "sched_find_first_bit b = find_next_bit b (MAX_RT_PRIO + 1) 0"

text \<open>The CPUs in the order of \<open>for_each_cpu\<close>, and the first of a mask.\<close>

definition cpumask_first :: "sched_env \<Rightarrow> nat set \<Rightarrow> nat" where
  "cpumask_first e m = (case filter (\<lambda>i. i \<in> m) [0..<nr_cpu_ids e] of [] \<Rightarrow> nr_cpu_ids e | i # _ \<Rightarrow> i)"

definition cpumask_weight :: "sched_env \<Rightarrow> nat set \<Rightarrow> int" where
  "cpumask_weight e m = int (length (filter (\<lambda>i. i \<in> m) [0..<nr_cpu_ids e]))"

definition double_lock_balance :: "sched_env \<Rightarrow> nat \<Rightarrow> nat \<Rightarrow> sched \<Rightarrow> bool \<times> sched" where
  "double_lock_balance e this_rq busiest s = interference e this_rq busiest s"

lemmas upd_defs = upd_task_def upd_rt_def upd_rq_def upd_rd_def

lemma find_bit_spec:
  "find_bit b i n \<le> i + int n \<and> i \<le> find_bit b i n \<and> (\<forall>j. i \<le> j \<longrightarrow> j < find_bit b i n \<longrightarrow> j \<notin> b) \<and>
   (find_bit b i n < i + int n \<longrightarrow> find_bit b i n \<in> b)"
proof (induction n arbitrary: i)
  case (Suc n)
  show ?case
  proof (cases "i \<in> b")
    case False
    have "j \<notin> b" if "i \<le> j" "j < find_bit b (i + 1) n" for j
      using Suc [of "i + 1"] that False by (cases "j = i") auto
    with Suc [of "i + 1"] False show ?thesis by auto
  qed simp
qed simp

lemma find_next_bit_spec:
  assumes "off \<le> sz"
  shows "find_next_bit b sz off \<le> sz" "off \<le> find_next_bit b sz off"
    "off \<le> j \<Longrightarrow> j < find_next_bit b sz off \<Longrightarrow> j \<notin> b"
    "find_next_bit b sz off < sz \<Longrightarrow> find_next_bit b sz off \<in> b"
  using find_bit_spec [of b off "nat (sz - off)"] assms by (auto simp: find_next_bit_def)

lemma sched_find_first_bit_spec:
  assumes "MAX_RT_PRIO \<in> b"
  shows "sched_find_first_bit b \<in> b" "0 \<le> sched_find_first_bit b" "sched_find_first_bit b \<le> MAX_RT_PRIO"
    "0 \<le> j \<Longrightarrow> j \<in> b \<Longrightarrow> sched_find_first_bit b \<le> j"
proof -
  note f = find_next_bit_spec [where off = 0 and sz = "MAX_RT_PRIO + 1" and b = b, folded sched_find_first_bit_def]
  have p: "0 \<le> MAX_RT_PRIO + 1" "0 \<le> MAX_RT_PRIO" by (simp_all add: MAX_RT_PRIO_def)
  show le: "sched_find_first_bit b \<le> j" if "0 \<le> j" "j \<in> b" for j using f(3) [OF p(1) that(1)] that(2) by linarith
  show "sched_find_first_bit b \<le> MAX_RT_PRIO" using le [OF p(2) assms] .
  then show "sched_find_first_bit b \<in> b" using f(4) [OF p(1)] by linarith
  show "0 \<le> sched_find_first_bit b" using f(2) [OF p(1)] .
qed

lemma sched_find_first_bit_eq:
  assumes "MAX_RT_PRIO \<in> b" "m \<in> b" "0 \<le> m" "\<forall>j \<in> b. 0 \<le> j \<and> m \<le> j"
  shows "sched_find_first_bit b = m"
  using sched_find_first_bit_spec(1,2) [OF assms(1)] sched_find_first_bit_spec(4) [OF assms(1), of m] assms
  by force

end
