(* ===== verification/Sched_Rt.thy ===== *)
theory Sched_Rt
  imports Sched_State
begin

text \<open>
  The operations of the real-time scheduling class (\<open>project1/sched_rt.c\<close>), in the order of the source.
  A run queue pointer is the number of its CPU, a task pointer the number of the task. Code that can
  stop in a \<open>BUG_ON\<close> or walks a list returns a \<open>run\<close>. Locks, memory barriers, \<open>WARN_ON\<close> and the
  statistics of the load average have no effect on the modelled state.
\<close>

section \<open>Overload and migration counters\<close>

definition rt_overloaded :: "nat \<Rightarrow> sched \<Rightarrow> bool" where
  "rt_overloaded c s \<longleftrightarrow> rto_count (rd_of s c) \<noteq> 0"

definition rt_set_overload :: "nat \<Rightarrow> sched \<Rightarrow> sched" where
  "rt_set_overload c s =
     (if \<not> online (rqs s c) then s
      else let s = upd_rd (rd (rqs s c)) (\<lambda>d. d\<lparr>rto_mask := insert c (rto_mask d)\<rparr>) s
           in upd_rd (rd (rqs s c)) (\<lambda>d. d\<lparr>rto_count := rto_count d + 1\<rparr>) s)"

definition rt_clear_overload :: "nat \<Rightarrow> sched \<Rightarrow> sched" where
  "rt_clear_overload c s =
     (if \<not> online (rqs s c) then s
      else let s = upd_rd (rd (rqs s c)) (\<lambda>d. d\<lparr>rto_count := rto_count d - 1\<rparr>) s
           in upd_rd (rd (rqs s c)) (\<lambda>d. d\<lparr>rto_mask := rto_mask d - {c}\<rparr>) s)"

definition update_rt_migration :: "nat \<Rightarrow> sched \<Rightarrow> sched" where
  "update_rt_migration c s =
     (if rt_nr_migratory (rt_of s c) \<noteq> 0 \<and> rt_nr_total (rt_of s c) > 1
      then if \<not> overload (rt_of s c)
           then let s = rt_set_overload c s in upd_rt c (\<lambda>r. r\<lparr>overload := True\<rparr>) s
           else s
      else if overload (rt_of s c)
      then let s = rt_clear_overload c s in upd_rt c (\<lambda>r. r\<lparr>overload := False\<rparr>) s
      else s)"

definition inc_rt_migration :: "nat \<Rightarrow> nat \<Rightarrow> sched \<Rightarrow> sched" where
  "inc_rt_migration t c s =
     (let s = upd_rt c (\<lambda>r. r\<lparr>rt_nr_total := rt_nr_total r + 1\<rparr>) s;
          s = (if nr_cpus_allowed (tasks s t) > 1
               then upd_rt c (\<lambda>r. r\<lparr>rt_nr_migratory := rt_nr_migratory r + 1\<rparr>) s else s)
      in update_rt_migration c s)"

definition dec_rt_migration :: "nat \<Rightarrow> nat \<Rightarrow> sched \<Rightarrow> sched" where
  "dec_rt_migration t c s =
     (let s = upd_rt c (\<lambda>r. r\<lparr>rt_nr_total := rt_nr_total r - 1\<rparr>) s;
          s = (if nr_cpus_allowed (tasks s t) > 1
               then upd_rt c (\<lambda>r. r\<lparr>rt_nr_migratory := rt_nr_migratory r - 1\<rparr>) s else s)
      in update_rt_migration c s)"

definition enqueue_pushable_task :: "nat \<Rightarrow> nat \<Rightarrow> sched \<Rightarrow> sched run" where
  "enqueue_pushable_task c t s =
     (let pt = plist_del (pushable s) t c;
          pt = plist_node_init pt t (prio_of s t)
      in run_bind (run_of_loop (plist_add pt t c)) (\<lambda>pt. Inr (s\<lparr>pushable := pt\<rparr>)))"

definition dequeue_pushable_task :: "nat \<Rightarrow> nat \<Rightarrow> sched \<Rightarrow> sched" where
  "dequeue_pushable_task c t s = s\<lparr>pushable := plist_del (pushable s) t c\<rparr>"

definition has_pushable_tasks :: "nat \<Rightarrow> sched \<Rightarrow> bool" where
  "has_pushable_tasks c s \<longleftrightarrow> \<not> plist_head_empty (pushable s) c"

definition on_rt_rq :: "sched \<Rightarrow> nat \<Rightarrow> bool" where
  "on_rt_rq s t \<longleftrightarrow> \<not> list_empty (runq s) (run_list t)"

section \<open>Real-time bandwidth\<close>

definition sched_rt_runtime :: "nat \<Rightarrow> sched \<Rightarrow> int" where
  "sched_rt_runtime c s = rt_runtime (rt_of s c)"

definition sched_rt_period :: "sched \<Rightarrow> int" where
  "sched_rt_period s = rt_b_period s"

definition sched_rt_rq_enqueue :: "nat \<Rightarrow> sched \<Rightarrow> sched" where
  "sched_rt_rq_enqueue c s = (if rt_nr_running (rt_of s c) \<noteq> 0 then resched_task (curr_of s c) s else s)"

definition rt_rq_throttled :: "nat \<Rightarrow> sched \<Rightarrow> bool" where
  "rt_rq_throttled c s \<longleftrightarrow> rt_throttled (rt_of s c)"

primrec balance_loop :: "nat \<Rightarrow> int \<Rightarrow> int \<Rightarrow> nat list \<Rightarrow> bool \<Rightarrow> sched \<Rightarrow> bool \<times> sched" where
  "balance_loop c weight rt_period [] got s = (got, s)"
| "balance_loop c weight rt_period (i # is) got s =
     (if i = c \<or> rt_runtime (rt_of s i) = RUNTIME_INF then balance_loop c weight rt_period is got s
      else let diff = s64 (rt_runtime (rt_of s i) - rt_time (rt_of s i))
           in if diff > 0
              then let diff = s64 (u64 diff div weight);
                       diff = (if u64 (rt_runtime (rt_of s c) + diff) > rt_period
                               then s64 (rt_period - rt_runtime (rt_of s c)) else diff);
                       s = upd_rt i (\<lambda>r. r\<lparr>rt_runtime := u64 (rt_runtime r - diff)\<rparr>) s;
                       s = upd_rt c (\<lambda>r. r\<lparr>rt_runtime := u64 (rt_runtime r + diff)\<rparr>) s
                   in if rt_runtime (rt_of s c) = rt_period then (True, s)
                      else balance_loop c weight rt_period is True s
              else balance_loop c weight rt_period is got s)"

definition do_balance_runtime :: "sched_env \<Rightarrow> nat \<Rightarrow> sched \<Rightarrow> bool \<times> sched" where
  "do_balance_runtime e c s =
     (let d = rd_of s (smp_processor_id e)
      in balance_loop c (cpumask_weight e (span d)) (rt_b_period s)
           (filter (\<lambda>i. i \<in> span d) [0..<nr_cpu_ids e]) False s)"

primrec disable_loop :: "nat \<Rightarrow> nat list \<Rightarrow> int \<Rightarrow> sched \<Rightarrow> int \<times> sched" where
  "disable_loop c [] want s = (want, s)"
| "disable_loop c (i # is) want s =
     (if i = c \<or> rt_runtime (rt_of s i) = RUNTIME_INF then disable_loop c is want s
      else let (want, s) =
             (if want > 0
              then let diff = min (s64 (rt_runtime (rt_of s i))) want
                   in (s64 (want - diff), upd_rt i (\<lambda>r. r\<lparr>rt_runtime := u64 (rt_runtime r - diff)\<rparr>) s)
              else (want - want, upd_rt i (\<lambda>r. r\<lparr>rt_runtime := u64 (rt_runtime r - want)\<rparr>) s))
           in if want = 0 then (want, s) else disable_loop c is want s)"

definition raw_disable_runtime :: "sched_env \<Rightarrow> nat \<Rightarrow> sched \<Rightarrow> sched run" where
  "raw_disable_runtime e c s =
     (if \<not> scheduler_running s then Inr s
      else let inf = upd_rt c (\<lambda>r. r\<lparr>rt_runtime := RUNTIME_INF\<rparr>)
           in if rt_runtime (rt_of s c) = RUNTIME_INF \<or> rt_runtime (rt_of s c) = rt_b_runtime s
              then Inr (inf s)
              else let want = s64 (rt_b_runtime s - rt_runtime (rt_of s c));
                       (want, s) = disable_loop c (filter (\<lambda>i. i \<in> span (rd_of s c)) [0..<nr_cpu_ids e]) want s
                   in if want \<noteq> 0 then Inl Bug else Inr (inf s))"

definition disable_runtime :: "sched_env \<Rightarrow> nat \<Rightarrow> sched \<Rightarrow> sched run" where
  "disable_runtime e c s = raw_disable_runtime e c s"

definition raw_enable_runtime :: "nat \<Rightarrow> sched \<Rightarrow> sched" where
  "raw_enable_runtime c s =
     (if \<not> scheduler_running s then s
      else upd_rt c (\<lambda>r. r\<lparr>rt_runtime := rt_b_runtime s, rt_time := 0, rt_throttled := False\<rparr>) s)"

definition enable_runtime :: "nat \<Rightarrow> sched \<Rightarrow> sched" where
  "enable_runtime c s = raw_enable_runtime c s"

definition balance_runtime :: "sched_env \<Rightarrow> nat \<Rightarrow> sched \<Rightarrow> bool \<times> sched" where
  "balance_runtime e c s =
     (if rt_time (rt_of s c) > rt_runtime (rt_of s c) then do_balance_runtime e c s else (False, s))"

definition period_timer_step :: "sched_env \<Rightarrow> int \<Rightarrow> nat \<Rightarrow> bool \<Rightarrow> sched \<Rightarrow> bool \<times> sched" where
  "period_timer_step e overrun i idl s =
     (let (idl, enqueue, s) =
        (if rt_time (rt_of s i) \<noteq> 0
         then let s = (if rt_throttled (rt_of s i) then snd (balance_runtime e i s) else s);
                  runtime = rt_runtime (rt_of s i);
                  s = upd_rt i (\<lambda>r. r\<lparr>rt_time := rt_time r - min (rt_time r) (u64 (overrun * runtime))\<rparr>) s;
                  (enqueue, s) =
                    (if rt_throttled (rt_of s i) \<and> rt_time (rt_of s i) < runtime
                     then let s = upd_rt i (\<lambda>r. r\<lparr>rt_throttled := False\<rparr>) s
                          in (True, if rt_nr_running (rt_of s i) \<noteq> 0 \<and> curr (rqs s i) = idle (rqs s i)
                                    then upd_rq i (\<lambda>q. q\<lparr>skip_clock_update := - 1\<rparr>) s else s)
                     else (False, s));
                  idl = (if rt_time (rt_of s i) \<noteq> 0 \<or> rt_nr_running (rt_of s i) \<noteq> 0 then False else idl)
              in (idl, enqueue, s)
         else if rt_nr_running (rt_of s i) \<noteq> 0 then (False, \<not> rt_rq_throttled i s, s)
         else (idl, False, s))
      in (idl, if enqueue then sched_rt_rq_enqueue i s else s))"

primrec period_timer_loop :: "sched_env \<Rightarrow> int \<Rightarrow> nat list \<Rightarrow> bool \<Rightarrow> sched \<Rightarrow> bool \<times> sched" where
  "period_timer_loop e overrun [] idl s = (idl, s)"
| "period_timer_loop e overrun (i # is) idl s =
     (let (idl, s) = period_timer_step e overrun i idl s in period_timer_loop e overrun is idl s)"

definition do_sched_rt_period_timer :: "sched_env \<Rightarrow> int \<Rightarrow> sched \<Rightarrow> bool \<times> sched" where
  "do_sched_rt_period_timer e overrun s =
     (if \<not> rt_bandwidth_enabled s \<or> rt_b_runtime s = RUNTIME_INF then (True, s)
      else period_timer_loop e overrun (filter (\<lambda>i. i \<in> cpu_online_mask s) [0..<nr_cpu_ids e]) True s)"

definition rt_se_prio :: "sched \<Rightarrow> nat \<Rightarrow> int" where
  "rt_se_prio s t = prio_of s t"

definition sched_rt_runtime_exceeded :: "sched_env \<Rightarrow> nat \<Rightarrow> sched \<Rightarrow> bool \<times> sched" where
  "sched_rt_runtime_exceeded e c s =
     (if rt_throttled (rt_of s c) then (rt_rq_throttled c s, s)
      else if sched_rt_runtime c s \<ge> sched_rt_period s then (False, s)
      else let (_, s) = balance_runtime e c s;
               runtime = sched_rt_runtime c s
           in if runtime = RUNTIME_INF then (False, s)
              else if rt_time (rt_of s c) > runtime
              then let s = upd_rt c (\<lambda>r. r\<lparr>rt_throttled := True\<rparr>) s
                   in if rt_rq_throttled c s then (True, s) else (False, s)
              else (False, s))"

definition update_curr_rt :: "sched_env \<Rightarrow> nat \<Rightarrow> sched \<Rightarrow> sched" where
  "update_curr_rt e c s =
     (let t = curr_of s c
      in if \<not> rt_class (tasks s t) then s
         else let delta_exec = u64 (clock_task (rqs s c) - exec_start (tasks s t));
                  delta_exec = (if s64 delta_exec < 0 then 0 else delta_exec);
                  s = upd_task t (\<lambda>p. p\<lparr>sum_exec_runtime := u64 (sum_exec_runtime p + delta_exec)\<rparr>) s;
                  s = upd_task t (\<lambda>p. p\<lparr>exec_start := clock_task (rqs s c)\<rparr>) s
              in if \<not> rt_bandwidth_enabled s then s
                 else let rt_rq = task_cpu (tasks s t)
                      in if sched_rt_runtime rt_rq s \<noteq> RUNTIME_INF
                         then let s = upd_rt rt_rq (\<lambda>r. r\<lparr>rt_time := u64 (rt_time r + delta_exec)\<rparr>) s;
                                  (exceeded, s) = sched_rt_runtime_exceeded e rt_rq s
                              in if exceeded then resched_task t s else s
                         else s)"

section \<open>The next pushable task of a run queue\<close>

definition pick_rt_task :: "sched \<Rightarrow> nat \<Rightarrow> nat \<Rightarrow> int \<Rightarrow> bool" where
  "pick_rt_task s c t cpu \<longleftrightarrow>
     \<not> task_running s c t \<and> (cpu < 0 \<or> nat cpu \<in> cpus_allowed (tasks s t)) \<and> nr_cpus_allowed (tasks s t) > 1"

partial_function (option) pick_queue_loop ::
  "sched \<Rightarrow> nat \<Rightarrow> int \<Rightarrow> rt_node lptr \<Rightarrow> rt_node lptr \<Rightarrow> nat option option" where
  "pick_queue_loop s c cpu head pos =
     (if pos = head then Some None
      else case pos of
        Node (Run_list t) \<Rightarrow>
          if pick_rt_task s c t cpu then Some (Some t) else pick_queue_loop s c cpu head (nxt (runq s) pos)
      | _ \<Rightarrow> None)"

partial_function (option) pick_idx_loop :: "sched \<Rightarrow> nat \<Rightarrow> int \<Rightarrow> int \<Rightarrow> nat option option" where
  "pick_idx_loop s c cpu idx =
     (if idx \<ge> MAX_RT_PRIO then Some None
      else case pick_queue_loop s c cpu (queue c idx) (nxt (runq s) (queue c idx)) of
        None \<Rightarrow> None
      | Some (Some t) \<Rightarrow> Some (Some t)
      | Some None \<Rightarrow> pick_idx_loop s c cpu (find_next_bit (bitmap (rt_of s c)) MAX_RT_PRIO (idx + 1)))"

definition pick_next_highest_task_rt :: "nat \<Rightarrow> int \<Rightarrow> sched \<Rightarrow> nat option run" where
  "pick_next_highest_task_rt c cpu s =
     run_of_loop (pick_idx_loop s c cpu (sched_find_first_bit (bitmap (rt_of s c))))"

definition next_prio :: "nat \<Rightarrow> sched \<Rightarrow> int run" where
  "next_prio c s =
     run_bind (pick_next_highest_task_rt c (int c) s)
       (\<lambda>next. Inr (case next of
           Some t \<Rightarrow> if rt_prio (prio_of s t) then prio_of s t else MAX_RT_PRIO
         | None \<Rightarrow> MAX_RT_PRIO))"

section \<open>Priorities and counters of a run queue\<close>

definition rd_cpupri_set :: "nat \<Rightarrow> int \<Rightarrow> sched \<Rightarrow> sched run" where
  "rd_cpupri_set c newpri s =
     run_bind (cpupri_set (rd_cpupri (rd_of s c)) c newpri)
       (\<lambda>cp. Inr (upd_rd (rd (rqs s c)) (\<lambda>d. d\<lparr>rd_cpupri := cp\<rparr>) s))"

definition inc_rt_prio_smp :: "nat \<Rightarrow> int \<Rightarrow> int \<Rightarrow> sched \<Rightarrow> sched run" where
  "inc_rt_prio_smp c pr prev_prio s =
     (if pr < prev_prio
      then let s = upd_rt c (\<lambda>r. r\<lparr>hp_next := prev_prio\<rparr>) s
           in if online (rqs s c) then rd_cpupri_set c pr s else Inr s
      else if pr = hp_curr (rt_of s c) then Inr (upd_rt c (\<lambda>r. r\<lparr>hp_next := pr\<rparr>) s)
      else if pr < hp_next (rt_of s c)
      then run_bind (next_prio c s) (\<lambda>n. Inr (upd_rt c (\<lambda>r. r\<lparr>hp_next := n\<rparr>) s))
      else Inr s)"

definition dec_rt_prio_smp :: "nat \<Rightarrow> int \<Rightarrow> int \<Rightarrow> sched \<Rightarrow> sched run" where
  "dec_rt_prio_smp c pr prev_prio s =
     run_bind
       (if rt_nr_running (rt_of s c) \<noteq> 0 \<and> pr \<le> hp_next (rt_of s c)
        then run_bind (next_prio c s) (\<lambda>n. Inr (upd_rt c (\<lambda>r. r\<lparr>hp_next := n\<rparr>) s))
        else Inr s)
       (\<lambda>s. if online (rqs s c) \<and> hp_curr (rt_of s c) \<noteq> prev_prio
            then rd_cpupri_set c (hp_curr (rt_of s c)) s else Inr s)"

definition inc_rt_prio :: "nat \<Rightarrow> int \<Rightarrow> sched \<Rightarrow> sched run" where
  "inc_rt_prio c pr s =
     (let prev_prio = hp_curr (rt_of s c);
          s = (if pr < prev_prio then upd_rt c (\<lambda>r. r\<lparr>hp_curr := pr\<rparr>) s else s)
      in inc_rt_prio_smp c pr prev_prio s)"

definition dec_rt_prio :: "nat \<Rightarrow> int \<Rightarrow> sched \<Rightarrow> sched run" where
  "dec_rt_prio c pr s =
     (let prev_prio = hp_curr (rt_of s c);
          s = (if rt_nr_running (rt_of s c) \<noteq> 0
               then if pr = prev_prio
                    then upd_rt c (\<lambda>r. r\<lparr>hp_curr := sched_find_first_bit (bitmap r)\<rparr>) s else s
               else upd_rt c (\<lambda>r. r\<lparr>hp_curr := MAX_RT_PRIO\<rparr>) s)
      in dec_rt_prio_smp c pr prev_prio s)"

definition inc_rt_group :: "nat \<Rightarrow> nat \<Rightarrow> sched \<Rightarrow> sched" where
  "inc_rt_group t c s = start_rt_bandwidth s"

definition inc_rt_tasks :: "nat \<Rightarrow> nat \<Rightarrow> sched \<Rightarrow> sched run" where
  "inc_rt_tasks t c s =
     (let pr = rt_se_prio s t;
          s = upd_rt c (\<lambda>r. r\<lparr>rt_nr_running := rt_nr_running r + 1\<rparr>) s
      in run_bind (inc_rt_prio c pr s) (\<lambda>s. Inr (inc_rt_group t c (inc_rt_migration t c s))))"

definition dec_rt_tasks :: "nat \<Rightarrow> nat \<Rightarrow> sched \<Rightarrow> sched run" where
  "dec_rt_tasks t c s =
     (let s = upd_rt c (\<lambda>r. r\<lparr>rt_nr_running := rt_nr_running r - 1\<rparr>) s
      in run_bind (dec_rt_prio c (rt_se_prio s t) s) (\<lambda>s. Inr (dec_rt_migration t c s)))"

section \<open>Queueing\<close>

definition raw_enqueue_rt_entity :: "nat \<Rightarrow> bool \<Rightarrow> sched \<Rightarrow> sched run" where
  "raw_enqueue_rt_entity t head s =
     (let c = task_cpu (tasks s t);
          q = queue c (rt_se_prio s t);
          s = (if head then s\<lparr>runq := list_add (runq s) (run_list t) q\<rparr>
               else s\<lparr>runq := list_add_tail (runq s) (run_list t) q\<rparr>);
          s = upd_rt c (\<lambda>r. r\<lparr>bitmap := insert (rt_se_prio s t) (bitmap r)\<rparr>) s
      in inc_rt_tasks t c s)"

definition raw_dequeue_rt_entity :: "nat \<Rightarrow> sched \<Rightarrow> sched run" where
  "raw_dequeue_rt_entity t s =
     (let c = task_cpu (tasks s t);
          s = s\<lparr>runq := list_del_init (runq s) (run_list t)\<rparr>;
          s = (if list_empty (runq s) (queue c (rt_se_prio s t))
               then upd_rt c (\<lambda>r. r\<lparr>bitmap := bitmap r - {rt_se_prio s t}\<rparr>) s else s)
      in dec_rt_tasks t c s)"

definition dequeue_rt_stack :: "nat \<Rightarrow> sched \<Rightarrow> sched run" where
  "dequeue_rt_stack t s = (if on_rt_rq s t then raw_dequeue_rt_entity t s else Inr s)"

definition enqueue_rt_entity :: "nat \<Rightarrow> bool \<Rightarrow> sched \<Rightarrow> sched run" where
  "enqueue_rt_entity t head s = run_bind (dequeue_rt_stack t s) (raw_enqueue_rt_entity t head)"

definition dequeue_rt_entity :: "nat \<Rightarrow> sched \<Rightarrow> sched run" where
  "dequeue_rt_entity t s = dequeue_rt_stack t s"

definition ENQUEUE_WAKEUP :: int where "ENQUEUE_WAKEUP = 1"
definition ENQUEUE_HEAD :: int where "ENQUEUE_HEAD = 2"

definition enqueue_task_rt :: "nat \<Rightarrow> nat \<Rightarrow> int \<Rightarrow> sched \<Rightarrow> sched run" where
  "enqueue_task_rt c t flags s =
     (let s = (if flags AND ENQUEUE_WAKEUP \<noteq> 0 then upd_task t (\<lambda>p. p\<lparr>timeout := 0\<rparr>) s else s)
      in run_bind (enqueue_rt_entity t (flags AND ENQUEUE_HEAD \<noteq> 0) s)
           (\<lambda>s. if \<not> task_current s c t \<and> nr_cpus_allowed (tasks s t) > 1
                then enqueue_pushable_task c t s else Inr s))"

definition dequeue_task_rt :: "sched_env \<Rightarrow> nat \<Rightarrow> nat \<Rightarrow> int \<Rightarrow> sched \<Rightarrow> sched run" where
  "dequeue_task_rt e c t flags s =
     run_bind (dequeue_rt_entity t (update_curr_rt e c s)) (\<lambda>s. Inr (dequeue_pushable_task c t s))"

definition requeue_rt_entity :: "nat \<Rightarrow> nat \<Rightarrow> bool \<Rightarrow> sched \<Rightarrow> sched" where
  "requeue_rt_entity c t head s =
     (if on_rt_rq s t
      then let q = queue c (rt_se_prio s t)
           in if head then s\<lparr>runq := list_move (runq s) (run_list t) q\<rparr>
              else s\<lparr>runq := list_move_tail (runq s) (run_list t) q\<rparr>
      else s)"

definition requeue_task_rt :: "nat \<Rightarrow> nat \<Rightarrow> bool \<Rightarrow> sched \<Rightarrow> sched" where
  "requeue_task_rt c t head s = requeue_rt_entity (task_cpu (tasks s t)) t head s"

definition yield_task_rt :: "nat \<Rightarrow> sched \<Rightarrow> sched" where
  "yield_task_rt c s = requeue_task_rt c (curr_of s c) False s"

section \<open>Choosing a CPU\<close>

primrec find_domain_loop :: "sched_env \<Rightarrow> nat set \<Rightarrow> nat option \<Rightarrow> (bool \<times> nat set) list \<Rightarrow> nat option" where
  "find_domain_loop e lowest_mask this_cpu [] = None"
| "find_domain_loop e lowest_mask this_cpu (sd # sds) =
     (if fst sd
      then case this_cpu of
             Some i \<Rightarrow>
               if i \<in> snd sd then Some i
               else let best_cpu = cpumask_first e (lowest_mask \<inter> snd sd)
                    in if best_cpu < nr_cpu_ids e then Some best_cpu else find_domain_loop e lowest_mask this_cpu sds
           | None \<Rightarrow>
               let best_cpu = cpumask_first e (lowest_mask \<inter> snd sd)
               in if best_cpu < nr_cpu_ids e then Some best_cpu else find_domain_loop e lowest_mask this_cpu sds
      else find_domain_loop e lowest_mask this_cpu sds)"

text \<open>\<open>None\<close> stands for the return value -1.\<close>

definition find_lowest_rq :: "sched_env \<Rightarrow> nat \<Rightarrow> sched \<Rightarrow> nat option \<times> sched" where
  "find_lowest_rq e t s =
     (let this_cpu = smp_processor_id e; cpu = task_cpu (tasks s t)
      in if local_cpu_mask s this_cpu = None then (None, s)
         else if nr_cpus_allowed (tasks s t) = 1 then (None, s)
         else let (found, m) = cpupri_find (nr_cpu_ids e) (rd_cpupri (rd_of s cpu)) (prio_of s t)
                                 (cpus_allowed (tasks s t)) (local_cpu_mask s this_cpu);
                  s = s\<lparr>local_cpu_mask := (local_cpu_mask s)(this_cpu := m)\<rparr>;
                  lowest_mask = the m
              in if \<not> found then (None, s)
                 else if cpu \<in> lowest_mask then (Some cpu, s)
                 else let this = (if this_cpu \<in> lowest_mask then Some this_cpu else None)
                      in case find_domain_loop e lowest_mask this (domains e cpu) of
                           Some i \<Rightarrow> (Some i, s)
                         | None \<Rightarrow>
                             if this \<noteq> None then (this, s)
                             else let cpu = cpumask_first e lowest_mask
                                  in if cpu < nr_cpu_ids e then (Some cpu, s) else (None, s))"

definition SD_BALANCE_WAKE :: int where "SD_BALANCE_WAKE = 16"

definition select_task_rq_rt :: "sched_env \<Rightarrow> nat \<Rightarrow> int \<Rightarrow> sched \<Rightarrow> nat \<times> sched" where
  "select_task_rq_rt e t sd_flag s =
     (if sd_flag \<noteq> SD_BALANCE_WAKE then (smp_processor_id e, s)
      else let cpu = task_cpu (tasks s t); p = curr_of s cpu
           in if rt_task s p \<and> (nr_cpus_allowed (tasks s p) < 2 \<or> prio_of s p < prio_of s t) \<and>
                 nr_cpus_allowed (tasks s t) > 1
              then let (target, s) = find_lowest_rq e t s
                   in (case target of Some i \<Rightarrow> i | None \<Rightarrow> cpu, s)
              else (cpu, s))"

definition cpupri_find_any :: "sched_env \<Rightarrow> nat \<Rightarrow> nat \<Rightarrow> sched \<Rightarrow> bool" where
  "cpupri_find_any e c t s =
     fst (cpupri_find (nr_cpu_ids e) (rd_cpupri (rd_of s c)) (prio_of s t) (cpus_allowed (tasks s t)) None)"

definition check_preempt_equal_prio :: "sched_env \<Rightarrow> nat \<Rightarrow> nat \<Rightarrow> sched \<Rightarrow> sched" where
  "check_preempt_equal_prio e c t s =
     (if nr_cpus_allowed (tasks s (curr_of s c)) = 1 then s
      else if nr_cpus_allowed (tasks s t) \<noteq> 1 \<and> cpupri_find_any e c t s then s
      else if \<not> cpupri_find_any e c (curr_of s c) s then s
      else let s = requeue_task_rt c t True s in resched_task (curr_of s c) s)"

definition check_preempt_curr_rt :: "sched_env \<Rightarrow> nat \<Rightarrow> nat \<Rightarrow> int \<Rightarrow> sched \<Rightarrow> sched" where
  "check_preempt_curr_rt e c t flags s =
     (if prio_of s t < prio_of s (curr_of s c) then resched_task (curr_of s c) s
      else if prio_of s t = prio_of s (curr_of s c) \<and> \<not> test_tsk_need_resched s (curr_of s c)
      then check_preempt_equal_prio e c t s
      else s)"

section \<open>Picking a task\<close>

definition pick_next_rt_entity :: "nat \<Rightarrow> sched \<Rightarrow> nat option run" where
  "pick_next_rt_entity c s =
     (let idx = sched_find_first_bit (bitmap (rt_of s c))
      in if idx \<ge> MAX_RT_PRIO then Inl Bug
         else Inr (case nxt (runq s) (queue c idx) of Node (Run_list t) \<Rightarrow> Some t | _ \<Rightarrow> None))"

definition raw_pick_next_task_rt :: "nat \<Rightarrow> sched \<Rightarrow> (nat option \<times> sched) run" where
  "raw_pick_next_task_rt c s =
     (if rt_nr_running (rt_of s c) = 0 then Inr (None, s)
      else if rt_rq_throttled c s then Inr (None, s)
      else run_bind (pick_next_rt_entity c s)
        (\<lambda>rt_se. case rt_se of
            None \<Rightarrow> Inl Bug
          | Some t \<Rightarrow> Inr (Some t, upd_task t (\<lambda>p. p\<lparr>exec_start := clock_task (rqs s c)\<rparr>) s)))"

definition pick_next_task_rt :: "nat \<Rightarrow> sched \<Rightarrow> (nat option \<times> sched) run" where
  "pick_next_task_rt c s =
     run_bind (raw_pick_next_task_rt c s)
       (\<lambda>(p, s). let s = (case p of Some t \<Rightarrow> dequeue_pushable_task c t s | None \<Rightarrow> s);
                     s = upd_rq c (\<lambda>q. q\<lparr>post_schedule := has_pushable_tasks c s\<rparr>) s
                 in Inr (p, s))"

definition put_prev_task_rt :: "sched_env \<Rightarrow> nat \<Rightarrow> nat \<Rightarrow> sched \<Rightarrow> sched run" where
  "put_prev_task_rt e c t s =
     (let s = update_curr_rt e c s;
          s = upd_task t (\<lambda>p. p\<lparr>exec_start := 0\<rparr>) s
      in if on_rt_rq s t \<and> nr_cpus_allowed (tasks s t) > 1 then enqueue_pushable_task c t s else Inr s)"

section \<open>Moving tasks between CPUs\<close>

definition enqueue_task :: "sched_env \<Rightarrow> nat \<Rightarrow> nat \<Rightarrow> int \<Rightarrow> sched \<Rightarrow> sched run" where
  "enqueue_task e c t flags s =
     (let s = update_rq_clock e c s
      in if rt_class (tasks s t) then enqueue_task_rt c t flags s else other_enqueue e c t flags s)"

definition dequeue_task :: "sched_env \<Rightarrow> nat \<Rightarrow> nat \<Rightarrow> int \<Rightarrow> sched \<Rightarrow> sched run" where
  "dequeue_task e c t flags s =
     (let s = update_rq_clock e c s
      in if rt_class (tasks s t) then dequeue_task_rt e c t flags s else other_dequeue e c t flags s)"

definition activate_task :: "sched_env \<Rightarrow> nat \<Rightarrow> nat \<Rightarrow> int \<Rightarrow> sched \<Rightarrow> sched run" where
  "activate_task e c t flags s =
     (let s = (if contributes_to_load (tasks s t)
               then upd_rq c (\<lambda>q. q\<lparr>nr_uninterruptible := nr_uninterruptible q - 1\<rparr>) s else s)
      in run_bind (enqueue_task e c t flags s)
           (\<lambda>s. Inr (upd_rq c (\<lambda>q. q\<lparr>nr_running := nr_running q + 1\<rparr>) s)))"

definition deactivate_task :: "sched_env \<Rightarrow> nat \<Rightarrow> nat \<Rightarrow> int \<Rightarrow> sched \<Rightarrow> sched run" where
  "deactivate_task e c t flags s =
     (let s = (if contributes_to_load (tasks s t)
               then upd_rq c (\<lambda>q. q\<lparr>nr_uninterruptible := nr_uninterruptible q + 1\<rparr>) s else s)
      in run_bind (dequeue_task e c t flags s)
           (\<lambda>s. Inr (upd_rq c (\<lambda>q. q\<lparr>nr_running := nr_running q - 1\<rparr>) s)))"

definition set_task_cpu :: "nat \<Rightarrow> nat \<Rightarrow> sched \<Rightarrow> sched" where
  "set_task_cpu t new_cpu = upd_task t (\<lambda>p. p\<lparr>task_cpu := new_cpu\<rparr>)"

definition RT_MAX_TRIES :: nat where "RT_MAX_TRIES = 3"

primrec find_lock_loop :: "sched_env \<Rightarrow> nat \<Rightarrow> nat \<Rightarrow> nat \<Rightarrow> sched \<Rightarrow> nat option \<times> sched" where
  "find_lock_loop e t c 0 s = (None, s)"
| "find_lock_loop e t c (Suc tries) s =
     (case find_lowest_rq e t s of
        (None, s) \<Rightarrow> (None, s)
      | (Some cpu, s) \<Rightarrow>
          if cpu = c then (None, s)
          else let (dropped, s) = double_lock_balance e c cpu s
               in if dropped \<and> (task_cpu (tasks s t) \<noteq> c \<or> cpu \<notin> cpus_allowed (tasks s t) \<or>
                                task_running s c t \<or> \<not> on_rq (tasks s t))
                  then (None, s)
                  else if hp_curr (rt_of s cpu) > prio_of s t then (Some cpu, s)
                  else find_lock_loop e t c tries s)"

definition find_lock_lowest_rq :: "sched_env \<Rightarrow> nat \<Rightarrow> nat \<Rightarrow> sched \<Rightarrow> nat option \<times> sched" where
  "find_lock_lowest_rq e t c s = find_lock_loop e t c RT_MAX_TRIES s"

definition pick_next_pushable_task :: "nat \<Rightarrow> sched \<Rightarrow> nat option run" where
  "pick_next_pushable_task c s =
     (if \<not> has_pushable_tasks c s then Inr None
      else case plist_first (pushable s) c of
        None \<Rightarrow> Inl Bug
      | Some t \<Rightarrow>
          if c \<noteq> task_cpu (tasks s t) then Inl Bug
          else if task_current s c t then Inl Bug
          else if nr_cpus_allowed (tasks s t) \<le> 1 then Inl Bug
          else if \<not> on_rq (tasks s t) then Inl Bug
          else if \<not> rt_task s t then Inl Bug
          else Inr (Some t))"

text \<open>From the label \<open>retry\<close> on. The result is the return value and the state.\<close>

partial_function (option) push_retry :: "sched_env \<Rightarrow> nat \<Rightarrow> nat \<Rightarrow> sched \<Rightarrow> (bool \<times> sched) run option" where
  "push_retry e c next_task s =
     (if next_task = curr_of s c then Some (Inr (False, s))
      else if prio_of s next_task < prio_of s (curr_of s c)
      then Some (Inr (False, resched_task (curr_of s c) s))
      else case find_lock_lowest_rq e next_task c s of
        (None, s) \<Rightarrow>
          (case pick_next_pushable_task c s of
             Inl err \<Rightarrow> Some (Inl err)
           | Inr task \<Rightarrow>
               if task_cpu (tasks s next_task) = c \<and> task = Some next_task
               then Some (Inr (True, dequeue_pushable_task c next_task s))
               else (case task of
                       None \<Rightarrow> Some (Inr (True, s))
                     | Some t \<Rightarrow> push_retry e c t s))
      | (Some lowest_rq, s) \<Rightarrow>
          Some (run_bind (deactivate_task e c next_task 0 s)
            (\<lambda>s. run_bind (activate_task e lowest_rq next_task 0 (set_task_cpu next_task lowest_rq s))
            (\<lambda>s. Inr (True, resched_task (curr_of s lowest_rq) s)))))"

definition push_rt_task :: "sched_env \<Rightarrow> nat \<Rightarrow> sched \<Rightarrow> (bool \<times> sched) run" where
  "push_rt_task e c s =
     (if \<not> overload (rt_of s c) then Inr (False, s)
      else run_bind (pick_next_pushable_task c s)
        (\<lambda>next_task. case next_task of
            None \<Rightarrow> Inr (False, s)
          | Some t \<Rightarrow> (case push_retry e c t s of None \<Rightarrow> Inl Diverge | Some r \<Rightarrow> r)))"

partial_function (option) push_loop :: "sched_env \<Rightarrow> nat \<Rightarrow> sched \<Rightarrow> sched run option" where
  "push_loop e c s =
     (case push_rt_task e c s of
        Inl err \<Rightarrow> Some (Inl err)
      | Inr (moved, s) \<Rightarrow> if moved then push_loop e c s else Some (Inr s))"

definition push_rt_tasks :: "sched_env \<Rightarrow> nat \<Rightarrow> sched \<Rightarrow> sched run" where
  "push_rt_tasks e c s = (case push_loop e c s of None \<Rightarrow> Inl Diverge | Some r \<Rightarrow> r)"

definition pull_step :: "sched_env \<Rightarrow> nat \<Rightarrow> nat \<Rightarrow> bool \<Rightarrow> sched \<Rightarrow> (bool \<times> sched) run" where
  "pull_step e this_cpu cpu ret s =
     (if this_cpu = cpu then Inr (ret, s)
      else if hp_next (rt_of s cpu) \<ge> hp_curr (rt_of s this_cpu) then Inr (ret, s)
      else let s = snd (double_lock_balance e this_cpu cpu s)
           in if rt_nr_running (rt_of s cpu) \<le> 1 then Inr (ret, s)
              else run_bind (pick_next_highest_task_rt cpu (int this_cpu) s)
                (\<lambda>p. case p of
                    None \<Rightarrow> Inr (ret, s)
                  | Some t \<Rightarrow>
                      if prio_of s t < hp_curr (rt_of s this_cpu)
                      then if prio_of s t < prio_of s (curr_of s cpu) then Inr (ret, s)
                           else run_bind (deactivate_task e cpu t 0 s)
                             (\<lambda>s. run_bind (activate_task e this_cpu t 0 (set_task_cpu t this_cpu s))
                             (\<lambda>s. Inr (True, s)))
                      else Inr (ret, s)))"

primrec pull_loop :: "sched_env \<Rightarrow> nat \<Rightarrow> nat list \<Rightarrow> bool \<Rightarrow> sched \<Rightarrow> (bool \<times> sched) run" where
  "pull_loop e this_cpu [] ret s = Inr (ret, s)"
| "pull_loop e this_cpu (cpu # cpus) ret s =
     (if cpu \<in> rto_mask (rd_of s this_cpu)
      then run_bind (pull_step e this_cpu cpu ret s) (\<lambda>(ret, s). pull_loop e this_cpu cpus ret s)
      else pull_loop e this_cpu cpus ret s)"

definition pull_rt_task :: "sched_env \<Rightarrow> nat \<Rightarrow> sched \<Rightarrow> (bool \<times> sched) run" where
  "pull_rt_task e this_cpu s =
     (if \<not> rt_overloaded this_cpu s then Inr (False, s)
      else pull_loop e this_cpu [0..<nr_cpu_ids e] False s)"

section \<open>The remaining methods of the class\<close>

definition pre_schedule_rt :: "sched_env \<Rightarrow> nat \<Rightarrow> nat \<Rightarrow> sched \<Rightarrow> sched run" where
  "pre_schedule_rt e c prev s =
     (if rt_task s prev \<and> hp_curr (rt_of s c) > prio_of s prev
      then run_bind (pull_rt_task e c s) (\<lambda>(_, s). Inr s) else Inr s)"

definition post_schedule_rt :: "sched_env \<Rightarrow> nat \<Rightarrow> sched \<Rightarrow> sched run" where
  "post_schedule_rt e c s = push_rt_tasks e c s"

definition task_woken_rt :: "sched_env \<Rightarrow> nat \<Rightarrow> nat \<Rightarrow> sched \<Rightarrow> sched run" where
  "task_woken_rt e c t s =
     (if \<not> task_running s c t \<and> \<not> test_tsk_need_resched s (curr_of s c) \<and> has_pushable_tasks c s \<and>
         nr_cpus_allowed (tasks s t) > 1 \<and> rt_task s (curr_of s c) \<and>
         (nr_cpus_allowed (tasks s (curr_of s c)) < 2 \<or> prio_of s (curr_of s c) < prio_of s t)
      then push_rt_tasks e c s else Inr s)"

definition set_cpus_allowed_rt :: "sched_env \<Rightarrow> nat \<Rightarrow> nat set \<Rightarrow> sched \<Rightarrow> sched run" where
  "set_cpus_allowed_rt e t new_mask s =
     (let weight = cpumask_weight e new_mask;
          finish = (\<lambda>s. Inr (upd_task t (\<lambda>p. p\<lparr>cpus_allowed := new_mask, nr_cpus_allowed := weight\<rparr>) s))
      in if \<not> rt_task s t then Inl Bug
         else if on_rq (tasks s t) \<and> weight \<noteq> nr_cpus_allowed (tasks s t)
         then let c = task_cpu (tasks s t)
              in run_bind
                   (if \<not> task_current s c t
                    then let s = (if nr_cpus_allowed (tasks s t) > 1 then dequeue_pushable_task c t s else s)
                         in if weight > 1 then enqueue_pushable_task c t s else Inr s
                    else Inr s)
                   (\<lambda>s. run_bind
                     (if nr_cpus_allowed (tasks s t) \<le> 1 \<and> weight > 1
                      then Inr (upd_rt c (\<lambda>r. r\<lparr>rt_nr_migratory := rt_nr_migratory r + 1\<rparr>) s)
                      else if nr_cpus_allowed (tasks s t) > 1 \<and> weight \<le> 1
                      then if rt_nr_migratory (rt_of s c) = 0 then Inl Bug
                           else Inr (upd_rt c (\<lambda>r. r\<lparr>rt_nr_migratory := rt_nr_migratory r - 1\<rparr>) s)
                      else Inr s)
                   (\<lambda>s. finish (update_rt_migration c s)))
         else finish s)"

definition rq_online_rt :: "nat \<Rightarrow> sched \<Rightarrow> sched run" where
  "rq_online_rt c s =
     (let s = (if overload (rt_of s c) then rt_set_overload c s else s);
          s = raw_enable_runtime c s
      in rd_cpupri_set c (hp_curr (rt_of s c)) s)"

definition rq_offline_rt :: "sched_env \<Rightarrow> nat \<Rightarrow> sched \<Rightarrow> sched run" where
  "rq_offline_rt e c s =
     (let s = (if overload (rt_of s c) then rt_clear_overload c s else s)
      in run_bind (raw_disable_runtime e c s) (rd_cpupri_set c CPUPRI_INVALID))"

definition switched_from_rt :: "sched_env \<Rightarrow> nat \<Rightarrow> nat \<Rightarrow> sched \<Rightarrow> sched run" where
  "switched_from_rt e c t s =
     (if on_rq (tasks s t) \<and> rt_nr_running (rt_of s c) = 0
      then run_bind (pull_rt_task e c s) (\<lambda>(_, s). Inr s) else Inr s)"

definition switched_to_rt :: "sched_env \<Rightarrow> nat \<Rightarrow> nat \<Rightarrow> sched \<Rightarrow> sched run" where
  "switched_to_rt e c t s =
     (if on_rq (tasks s t) \<and> curr_of s c \<noteq> t
      then run_bind
             (if overload (rt_of s c)
              then run_bind (push_rt_task e c s)
                     (\<lambda>(moved, s). Inr (\<not> (moved \<and> c \<noteq> task_cpu (tasks s t)), s))
              else Inr (True, s))
             (\<lambda>(check_resched, s).
                Inr (if check_resched \<and> prio_of s t < prio_of s (curr_of s c)
                     then resched_task (curr_of s c) s else s))
      else Inr s)"

definition prio_changed_rt :: "sched_env \<Rightarrow> nat \<Rightarrow> nat \<Rightarrow> int \<Rightarrow> sched \<Rightarrow> sched run" where
  "prio_changed_rt e c t oldprio s =
     (if \<not> on_rq (tasks s t) then Inr s
      else if curr_of s c = t
      then run_bind (if oldprio < prio_of s t then run_bind (pull_rt_task e c s) (\<lambda>(_, s). Inr s) else Inr s)
             (\<lambda>s. Inr (if prio_of s t > hp_curr (rt_of s c) \<and> curr_of s c = t then resched_task t s else s))
      else Inr (if prio_of s t < prio_of s (curr_of s c) then resched_task (curr_of s c) s else s))"

definition watchdog :: "sched_env \<Rightarrow> nat \<Rightarrow> sched \<Rightarrow> sched" where
  "watchdog e t s =
     (let soft = rlim_cur (tasks s t); hard = rlim_max (tasks s t)
      in if soft \<noteq> RLIM_INFINITY
         then let s = upd_task t (\<lambda>p. p\<lparr>timeout := u64 (timeout p + 1)\<rparr>) s;
                  d = USEC_PER_SEC div HZ e;
                  next = u64 (min soft hard + d - 1) div d
              in if timeout (tasks s t) > next
                 then upd_task t (\<lambda>p. p\<lparr>sched_exp := sum_exec_runtime p\<rparr>) s else s
         else s)"

definition task_tick_rt :: "sched_env \<Rightarrow> nat \<Rightarrow> nat \<Rightarrow> sched \<Rightarrow> sched" where
  "task_tick_rt e c t s =
     (let s = watchdog e t (update_curr_rt e c s)
      in if policy (tasks s t) \<noteq> SCHED_RR then s
         else let s = upd_task t (\<lambda>p. p\<lparr>time_slice := u32 (time_slice p - 1)\<rparr>) s
              in if time_slice (tasks s t) \<noteq> 0 then s
                 else let s = upd_task t (\<lambda>p. p\<lparr>time_slice := DEF_TIMESLICE e\<rparr>) s
                      in if prv (runq s) (run_list t) \<noteq> nxt (runq s) (run_list t)
                         then set_tsk_need_resched t (requeue_task_rt c t False s)
                         else s)"

definition set_curr_task_rt :: "nat \<Rightarrow> sched \<Rightarrow> sched" where
  "set_curr_task_rt c s =
     (let t = curr_of s c;
          s = upd_task t (\<lambda>p. p\<lparr>exec_start := clock_task (rqs s c)\<rparr>) s
      in dequeue_pushable_task c t s)"

definition get_rr_interval_rt :: "sched_env \<Rightarrow> nat \<Rightarrow> sched \<Rightarrow> int" where
  "get_rr_interval_rt e t s = (if policy (tasks s t) = SCHED_RR then DEF_TIMESLICE e else 0)"

definition init_sched_rt_class :: "sched_env \<Rightarrow> sched \<Rightarrow> sched" where
  "init_sched_rt_class e s =
     s\<lparr>local_cpu_mask := (\<lambda>i. if i < nr_cpu_ids e then Some {} else local_cpu_mask s i)\<rparr>"

end
