(* ===== verification/Sched_Inv.thy ===== *)
theory Sched_Inv
  imports Sched_Rt
begin

text \<open>
  The invariant of the run queues and what the queueing operations do to it. \<open>Q c i\<close> is the list of
  tasks queued on CPU \<open>c\<close> at priority \<open>i\<close>; the invariant ties to it the pointer lists, the bitmap, the
  counters, the highest priority, the overload flag, and the state of the root domains (the CPU
  priority map and the mask of overloaded CPUs).
\<close>

type_synonym rt_queues = "nat \<Rightarrow> int \<Rightarrow> nat list"

definition queued :: "rt_queues \<Rightarrow> nat \<Rightarrow> bool" where
  "queued Q t \<longleftrightarrow> (\<exists>c i. t \<in> set (Q c i))"

definition rtasks :: "rt_queues \<Rightarrow> nat \<Rightarrow> nat set" where
  "rtasks Q c = {t. \<exists>i. t \<in> set (Q c i)}"

definition rqA :: "rt_queues \<Rightarrow> rt_node lists" where
  "rqA Q p = (case p of
       Node (Queue c i) \<Rightarrow> if 0 \<le> i \<and> i < MAX_RT_PRIO then Some (map run_list (Q c i)) else None
     | Node (Run_list t) \<Rightarrow> if queued Q t then None else Some []
     | _ \<Rightarrow> None)"

definition lists_ok :: "sched \<Rightarrow> rt_queues \<Rightarrow> bool" where
  "lists_ok s Q \<longleftrightarrow> fam (runq s) (rqA Q) \<and>
     (\<forall>c i. \<forall>t \<in> set (Q c i). 0 \<le> i \<and> i < MAX_RT_PRIO \<and> prio_of s t = i \<and> task_cpu (tasks s t) = c)"

definition bits :: "(int \<Rightarrow> nat list) \<Rightarrow> int set" where
  "bits q = insert MAX_RT_PRIO {i. 0 \<le> i \<and> i < MAX_RT_PRIO \<and> q i \<noteq> []}"

definition migratory :: "sched \<Rightarrow> nat set \<Rightarrow> nat set" where
  "migratory s T = {t \<in> T. nr_cpus_allowed (tasks s t) > 1}"

definition counts_ok :: "sched \<Rightarrow> rt_queues \<Rightarrow> nat \<Rightarrow> bool" where
  "counts_ok s Q c \<longleftrightarrow>
     rt_nr_running (rt_of s c) = int (card (rtasks Q c)) \<and>
     rt_nr_total (rt_of s c) = int (card (rtasks Q c)) \<and>
     rt_nr_migratory (rt_of s c) = int (card (migratory s (rtasks Q c))) \<and>
     (overload (rt_of s c) \<longleftrightarrow> rt_nr_migratory (rt_of s c) \<noteq> 0 \<and> rt_nr_total (rt_of s c) > 1)"

definition least :: "int set \<Rightarrow> int \<Rightarrow> bool" where
  "least b m \<longleftrightarrow> m \<in> b \<and> (\<forall>j \<in> b. m \<le> j)"

definition heads_ok :: "sched \<Rightarrow> rt_queues \<Rightarrow> nat \<Rightarrow> bool" where
  "heads_ok s Q c \<longleftrightarrow> bitmap (rt_of s c) = bits (Q c) \<and> least (bits (Q c)) (hp_curr (rt_of s c))"

definition pri_ok :: "nat \<Rightarrow> sched \<Rightarrow> bool" where
  "pri_ok nr s \<longleftrightarrow> (\<forall>d. cpupri_ok nr (rd_cpupri (rds s d)) \<and>
     (\<forall>c < nr. cpu_to_pri (rd_cpupri (rds s d)) c =
        (if rd (rqs s c) = d \<and> online (rqs s c) then convert_prio (hp_curr (rt_of s c)) else CPUPRI_INVALID)))"

definition over_cpus :: "nat \<Rightarrow> sched \<Rightarrow> nat \<Rightarrow> nat set" where
  "over_cpus nr s d = {c. c < nr \<and> rd (rqs s c) = d \<and> online (rqs s c) \<and> overload (rt_of s c)}"

definition over_ok :: "nat \<Rightarrow> sched \<Rightarrow> bool" where
  "over_ok nr s \<longleftrightarrow> (\<forall>d. rto_mask (rds s d) = over_cpus nr s d \<and> rto_count (rds s d) = int (card (over_cpus nr s d)))"

definition rt_inv :: "nat \<Rightarrow> sched \<Rightarrow> rt_queues \<Rightarrow> bool" where
  "rt_inv nr s Q \<longleftrightarrow> lists_ok s Q \<and> (\<forall>c < nr. counts_ok s Q c \<and> heads_ok s Q c) \<and> pri_ok nr s \<and> over_ok nr s"

section \<open>The search for the next task\<close>

lemma rqA_simps [simp]:
  "0 \<le> i \<Longrightarrow> i < MAX_RT_PRIO \<Longrightarrow> rqA Q (queue c i) = Some (map run_list (Q c i))"
  "rqA Q (run_list t) = (if queued Q t then None else Some [])"
  "rqA Q LIST_POISON1 = None" "rqA Q LIST_POISON2 = None"
  by (simp_all add: rqA_def)

lemma pick_queue_loop_spec:
  assumes l: "is_list (runq s) (queue c i) (map run_list (us @ vs))"
  shows "pick_queue_loop s c cpu (queue c i) (hd (map run_list vs @ [queue c i])) =
    Some (find (\<lambda>t. pick_rt_task s c t cpu) vs)"
  using l
proof (induction vs arbitrary: us)
  case Nil
  then show ?case by (subst pick_queue_loop.simps) simp
next
  case (Cons v vs)
  have "is_list (runq s) (queue c i) (map run_list us @ run_list v # map run_list vs)" using Cons.prems by simp
  from is_list_next [OF this] have n: "nxt (runq s) (run_list v) = hd (map run_list vs @ [queue c i])" .
  have "is_list (runq s) (queue c i) (map run_list ((us @ [v]) @ vs))" using Cons.prems by simp
  from Cons.IH [OF this] n show ?case by (subst pick_queue_loop.simps) simp
qed

lemma find_append: "find P (xs @ ys) = (case find P xs of None \<Rightarrow> find P ys | Some x \<Rightarrow> Some x)"
  by (induction xs) auto

lemma concat_skip:
  assumes "a \<le> j" "j \<le> b + 1" "\<And>k. a \<le> k \<Longrightarrow> k < j \<Longrightarrow> q k = []"
  shows "concat (map q [a..b :: int]) = concat (map q [j..b])"
proof -
  have "[a..b] = [a..j - 1] @ [j..b]" 
  proof (cases "j \<le> b")
    case False
    then have "j = b + 1" using assms(2) by simp
    then show ?thesis by simp
  qed (use assms(1) in \<open>auto intro: upto_split1\<close>)
  moreover have "concat (map q [a..j - 1]) = []" using assms(3) by auto
  ultimately show ?thesis by simp
qed

lemma pick_idx_loop_spec:
  assumes f: "fam (runq s) (rqA Q)" and b: "bitmap (rt_of s c) = bits (Q c)"
  shows "0 \<le> idx \<Longrightarrow> idx \<le> MAX_RT_PRIO \<Longrightarrow>
    pick_idx_loop s c cpu idx = Some (find (\<lambda>t. pick_rt_task s c t cpu) (concat (map (Q c) [idx..MAX_RT_PRIO - 1])))"
proof (induction "nat (MAX_RT_PRIO - idx)" arbitrary: idx rule: less_induct)
  case less
  let ?P = "\<lambda>t. pick_rt_task s c t cpu"
  show ?case
  proof (cases "idx \<ge> MAX_RT_PRIO")
    case True
    then show ?thesis by (subst pick_idx_loop.simps) simp
  next
    case False
    have l: "is_list (runq s) (queue c idx) (map run_list ([] @ Q c idx))"
      using famD [OF f, of "queue c idx"] less.prems False by simp
    have q: "pick_queue_loop s c cpu (queue c idx) (nxt (runq s) (queue c idx)) = Some (find ?P (Q c idx))"
      using pick_queue_loop_spec [OF l] is_list_head_next [OF l] by simp
    let ?j = "find_next_bit (bitmap (rt_of s c)) MAX_RT_PRIO (idx + 1)"
    have le: "idx + 1 \<le> MAX_RT_PRIO" using False by simp
    note fb = find_next_bit_spec [OF le, where b = "bitmap (rt_of s c)"]
    have j: "idx + 1 \<le> ?j" "?j \<le> MAX_RT_PRIO" using fb(1,2) by auto
    have empty: "Q c k = []" if "idx + 1 \<le> k" "k < ?j" for k
      using fb(3) [OF that] that j less.prems by (auto simp: b bits_def)
    have skip: "concat (map (Q c) [idx + 1..MAX_RT_PRIO - 1]) = concat (map (Q c) [?j..MAX_RT_PRIO - 1])"
      by (rule concat_skip) (use j empty in auto)
    have "nat (MAX_RT_PRIO - ?j) < nat (MAX_RT_PRIO - idx)" using j False by auto
    then have IH: "pick_idx_loop s c cpu ?j = Some (find ?P (concat (map (Q c) [idx + 1..MAX_RT_PRIO - 1])))"
      using less.hyps [of ?j] j less.prems skip by simp
    have "[idx..MAX_RT_PRIO - 1] = idx # [idx + 1..MAX_RT_PRIO - 1]" using False by (intro upto_rec1) auto
    then have c: "concat (map (Q c) [idx..MAX_RT_PRIO - 1]) = Q c idx @ concat (map (Q c) [idx + 1..MAX_RT_PRIO - 1])"
      by simp
    show ?thesis unfolding c find_append
      using False q IH by (subst pick_idx_loop.simps) (auto split: option.splits)
  qed
qed

lemma bits_spec:
  "MAX_RT_PRIO \<in> bits q" "j \<in> bits q \<Longrightarrow> 0 \<le> j \<and> j \<le> MAX_RT_PRIO"
  by (auto simp: bits_def MAX_RT_PRIO_def)

lemma pick_next_highest_spec:
  assumes "fam (runq s) (rqA Q)" "bitmap (rt_of s c) = bits (Q c)"
  shows "pick_next_highest_task_rt c cpu s =
    Inr (find (\<lambda>t. pick_rt_task s c t cpu) (concat (map (Q c) [0..MAX_RT_PRIO - 1])))"
proof -
  let ?j = "sched_find_first_bit (bitmap (rt_of s c))"
  have m: "MAX_RT_PRIO \<in> bitmap (rt_of s c)" using assms(2) bits_spec(1) by simp
  note fb = sched_find_first_bit_spec [OF m]
  have e: "Q c k = []" if "0 \<le> k" "k < ?j" for k
    using fb(4) [of k] fb(3) that assms(2) by (auto simp: bits_def)
  have "concat (map (Q c) [0..MAX_RT_PRIO - 1]) = concat (map (Q c) [?j..MAX_RT_PRIO - 1])"
    by (rule concat_skip) (use fb(2,3) e in auto)
  then show ?thesis
    using pick_idx_loop_spec [OF assms fb(2,3), of cpu] by (simp add: pick_next_highest_task_rt_def)
qed

lemma next_prio_returns:
  assumes "fam (runq s) (rqA Q)" "bitmap (rt_of s c) = bits (Q c)"
  shows "\<exists>n. next_prio c s = Inr n"
  unfolding next_prio_def pick_next_highest_spec [OF assms] by simp

section \<open>Priorities in the root domain\<close>

text \<open>The CPU priority maps answer for the priorities \<open>H\<close>.\<close>

definition pri_at :: "nat \<Rightarrow> sched \<Rightarrow> (nat \<Rightarrow> int) \<Rightarrow> bool" where
  "pri_at nr s H \<longleftrightarrow> (\<forall>d. cpupri_ok nr (rd_cpupri (rds s d)) \<and>
     (\<forall>c < nr. cpu_to_pri (rd_cpupri (rds s d)) c =
        (if rd (rqs s c) = d \<and> online (rqs s c) then convert_prio (H c) else CPUPRI_INVALID)))"

lemma pri_ok_at: "pri_ok nr s \<longleftrightarrow> pri_at nr s (\<lambda>c. hp_curr (rt_of s c))"
  by (simp add: pri_ok_def pri_at_def)

lemma pri_at_cong:
  assumes "\<And>d. rd_cpupri (rds s' d) = rd_cpupri (rds s d)"
    "\<And>c. rd (rqs s' c) = rd (rqs s c)" "\<And>c. online (rqs s' c) = online (rqs s c)"
    "\<And>c. c < nr \<Longrightarrow> H' c = H c"
  shows "pri_at nr s' H' = pri_at nr s H"
  using assms by (auto simp: pri_at_def)

lemma upd_same [simp]:
  "rds (upd_rt c f s) = rds s" "tasks (upd_rt c f s) = tasks s" "runq (upd_rt c f s) = runq s"
  "pushable (upd_rt c f s) = pushable s"
  "rqs (upd_rd d g s) = rqs s" "tasks (upd_rd d g s) = tasks s" "runq (upd_rd d g s) = runq s"
  "pushable (upd_rd d g s) = pushable s"
  "rds (upd_task t h s) = rds s" "rqs (upd_task t h s) = rqs s" "runq (upd_task t h s) = runq s"
  "pushable (upd_task t h s) = pushable s"
  by (simp_all add: upd_defs)

lemma upd_rt_fields [simp]:
  "rd (rqs (upd_rt c f s) c') = rd (rqs s c')" "online (rqs (upd_rt c f s) c') = online (rqs s c')"
  "curr (rqs (upd_rt c f s) c') = curr (rqs s c')"
  "rt (rqs (upd_rt c f s) c') = (if c' = c then f (rt_of s c) else rt_of s c')"
  by (simp_all add: upd_defs)

lemma upd_rd_fields [simp]: "rds (upd_rd d g s) d' = (if d' = d then g (rds s d) else rds s d')"
  by (simp add: upd_rd_def)

lemma upd_rd_idem: "g (rds s d) = rds s d \<Longrightarrow> upd_rd d g s = s"
  by (simp add: upd_rd_def fun_upd_idem)

lemma upd_rt_idem: "f (rt_of s c) = rt_of s c \<Longrightarrow> upd_rt c f s = s"
  by (simp add: upd_rt_def upd_rq_def fun_upd_idem)

lemma upd_rt_upd_rt: "upd_rt c f (upd_rt c g s) = upd_rt c (\<lambda>r. f (g r)) s"
  by (simp add: upd_rt_def upd_rq_def)

lemma rd_cpupri_set_spec:
  assumes p: "pri_at nr s H" and c: "c < nr" "online (rqs s c)" and n: "- 1 \<le> n"
  shows "\<exists>cp. rd_cpupri_set c n s = Inr (upd_rd (rd (rqs s c)) (\<lambda>d. d\<lparr>rd_cpupri := cp\<rparr>) s) \<and>
    pri_at nr (upd_rd (rd (rqs s c)) (\<lambda>d. d\<lparr>rd_cpupri := cp\<rparr>) s) (H(c := n))"
proof -
  let ?d = "rd (rqs s c)"
  have ok: "cpupri_ok nr (rd_cpupri (rds s ?d))" using p by (simp add: pri_at_def)
  from cpupri_set_spec [OF ok c(1) n] obtain cp where
    cp: "cpupri_set (rd_cpupri (rds s ?d)) c n = Inr cp" "cpupri_ok nr cp"
      "cpu_to_pri cp = (cpu_to_pri (rd_cpupri (rds s ?d)))(c := convert_prio n)" by blast
  have "pri_at nr (upd_rd ?d (\<lambda>d. d\<lparr>rd_cpupri := cp\<rparr>) s) (H(c := n))"
    using p cp(2,3) c by (auto simp: pri_at_def)
  with cp(1) show ?thesis by (auto simp: rd_cpupri_set_def)
qed

lemma inc_rt_prio_spec:
  assumes p: "pri_at nr s H" and H: "H c = hp_curr (rt_of s c)" and c: "c < nr"
    and f: "fam (runq s) (rqA Q)" "bitmap (rt_of s c) = bits (Q c)" and pr: "0 \<le> pr"
  shows "\<exists>n cp. let s' = upd_rd (rd (rqs s c)) (\<lambda>d. d\<lparr>rd_cpupri := cp\<rparr>)
      (upd_rt c (\<lambda>r. r\<lparr>hp_curr := min pr (hp_curr r), hp_next := n\<rparr>) s)
    in inc_rt_prio c pr s = Inr s' \<and> pri_at nr s' (H(c := min pr (hp_curr (rt_of s c))))"
proof (cases "pr < hp_curr (rt_of s c)")
  case True
  let ?s = "upd_rt c (\<lambda>r. r\<lparr>hp_curr := min pr (hp_curr r), hp_next := hp_curr (rt_of s c)\<rparr>) s"
  have s1: "upd_rt c (\<lambda>r. r\<lparr>hp_next := hp_curr (rt_of s c)\<rparr>) (upd_rt c (\<lambda>r. r\<lparr>hp_curr := pr\<rparr>) s) = ?s"
    using True by (simp add: upd_rt_def upd_rq_def)
  have p1: "pri_at nr ?s H" using p by (subst pri_at_cong) auto
  show ?thesis
  proof (cases "online (rqs s c)")
    case on: True
    then have "\<exists>cp. rd_cpupri_set c pr ?s = Inr (upd_rd (rd (rqs s c)) (\<lambda>d. d\<lparr>rd_cpupri := cp\<rparr>) ?s) \<and>
      pri_at nr (upd_rd (rd (rqs s c)) (\<lambda>d. d\<lparr>rd_cpupri := cp\<rparr>) ?s) (H(c := pr))"
      using rd_cpupri_set_spec [OF p1 c, of pr] pr by simp
    then show ?thesis using True on s1
      by (intro exI [of _ "hp_curr (rt_of s c)"]) (auto simp: inc_rt_prio_def inc_rt_prio_smp_def Let_def min_def)
  next
    case off: False
    have "pri_at nr ?s (H(c := pr))" using p1 off c by (auto simp: pri_at_def)
    moreover have "upd_rd (rd (rqs s c)) (\<lambda>d. d\<lparr>rd_cpupri := rd_cpupri (rd_of s c)\<rparr>) ?s = ?s"
      by (rule upd_rd_idem) simp
    moreover have "inc_rt_prio c pr s = Inr ?s"
      using True off s1 by (simp add: inc_rt_prio_def inc_rt_prio_smp_def)
    ultimately show ?thesis using True
      by (intro exI [of _ "hp_curr (rt_of s c)"] exI [of _ "rd_cpupri (rd_of s c)"]) (simp add: Let_def min_def)
  qed
next
  case False
  obtain m where m: "next_prio c s = Inr m" using next_prio_returns [OF f] by blast
  define n where "n = (if pr = hp_curr (rt_of s c) then pr else if pr < hp_next (rt_of s c) then m else hp_next (rt_of s c))"
  let ?s = "upd_rt c (\<lambda>r. r\<lparr>hp_curr := min pr (hp_curr r), hp_next := n\<rparr>) s"
  have s1: "?s = upd_rt c (\<lambda>r. r\<lparr>hp_next := n\<rparr>) s" using False by (simp add: upd_defs min_def)
  have same: "upd_rt c (\<lambda>r. r\<lparr>hp_next := hp_next (rt_of s c)\<rparr>) s = s" by (rule upd_rt_idem) simp
  have "inc_rt_prio c pr s = Inr (upd_rt c (\<lambda>r. r\<lparr>hp_next := n\<rparr>) s)"
    using False m same by (simp add: inc_rt_prio_def inc_rt_prio_smp_def n_def)
  moreover have "upd_rd (rd (rqs s c)) (\<lambda>d. d\<lparr>rd_cpupri := rd_cpupri (rd_of s c)\<rparr>) ?s = ?s"
    by (rule upd_rd_idem) simp
  moreover have "pri_at nr ?s (H(c := min pr (hp_curr (rt_of s c))))"
    using p H False by (subst pri_at_cong [where s = s and H = H]) auto
  ultimately show ?thesis
    by (intro exI [of _ n] exI [of _ "rd_cpupri (rd_of s c)"]) (simp add: Let_def s1)
qed

lemma dec_rt_prio_spec:
  fixes s c
  defines "m \<equiv> \<lambda>pr. if rt_nr_running (rt_of s c) \<noteq> 0
      then if pr = hp_curr (rt_of s c) then sched_find_first_bit (bitmap (rt_of s c)) else hp_curr (rt_of s c)
      else MAX_RT_PRIO"
  assumes p: "pri_at nr s H" and H: "H c = hp_curr (rt_of s c)" and c: "c < nr"
    and f: "fam (runq s) (rqA Q)" "bitmap (rt_of s c) = bits (Q c)" and m: "0 \<le> m pr"
  shows "\<exists>n cp. let s' = upd_rd (rd (rqs s c)) (\<lambda>d. d\<lparr>rd_cpupri := cp\<rparr>)
      (upd_rt c (\<lambda>r. r\<lparr>hp_curr := m pr, hp_next := n\<rparr>) s)
    in dec_rt_prio c pr s = Inr s' \<and> pri_at nr s' (H(c := m pr))"
proof -
  let ?h = "hp_curr (rt_of s c)"
  define s1 where "s1 = upd_rt c (\<lambda>r. r\<lparr>hp_curr := m pr\<rparr>) s"
  have d: "dec_rt_prio c pr s = dec_rt_prio_smp c pr ?h s1"
  proof -
    have "upd_rt c (\<lambda>r. r\<lparr>hp_curr := ?h\<rparr>) s = s" by (rule upd_rt_idem) simp
    then show ?thesis by (auto simp: dec_rt_prio_def s1_def m_def Let_def upd_defs)
  qed
  have f1: "fam (runq s1) (rqA Q)" "bitmap (rt_of s1 c) = bits (Q c)" using f by (simp_all add: s1_def)
  obtain k where k: "next_prio c s1 = Inr k" using next_prio_returns [OF f1] by blast
  define n where "n = (if rt_nr_running (rt_of s c) \<noteq> 0 \<and> pr \<le> hp_next (rt_of s c) then k else hp_next (rt_of s c))"
  let ?s = "upd_rt c (\<lambda>r. r\<lparr>hp_curr := m pr, hp_next := n\<rparr>) s"
  have s2: "(if rt_nr_running (rt_of s1 c) \<noteq> 0 \<and> pr \<le> hp_next (rt_of s1 c)
      then run_bind (next_prio c s1) (\<lambda>n. Inr (upd_rt c (\<lambda>r. r\<lparr>hp_next := n\<rparr>) s1)) else Inr s1) = Inr ?s"
    using k by (simp add: n_def s1_def upd_defs)
  have p2: "pri_at nr ?s H" using p by (subst pri_at_cong) auto
  have r: "dec_rt_prio c pr s = (if online (rqs s c) \<and> m pr \<noteq> ?h then rd_cpupri_set c (m pr) ?s else Inr ?s)"
    unfolding d dec_rt_prio_smp_def s2 by simp
  show ?thesis
  proof (cases "online (rqs s c) \<and> m pr \<noteq> ?h")
    case True
    then show ?thesis using rd_cpupri_set_spec [OF p2 c, of "m pr"] m r
      by (intro exI [of _ n]) (auto simp: Let_def)
  next
    case False
    have "upd_rd (rd (rqs s c)) (\<lambda>d. d\<lparr>rd_cpupri := rd_cpupri (rd_of s c)\<rparr>) ?s = ?s"
      by (rule upd_rd_idem) simp
    moreover have "pri_at nr ?s (H(c := m pr))" using p2 False H c by (auto simp: pri_at_def)
    ultimately show ?thesis using r False
      by (intro exI [of _ n] exI [of _ "rd_cpupri (rd_of s c)"]) (auto simp: Let_def)
  qed
qed

section \<open>Overload\<close>

lemma over_cpus_finite [simp]: "finite (over_cpus nr s d)"
  by (simp add: over_cpus_def)

text \<open>What \<open>update_rt_migration\<close> does: the flag follows the counters, and the root domain the flag.\<close>

definition set_over :: "nat \<Rightarrow> bool \<Rightarrow> sched \<Rightarrow> sched" where
  "set_over c b s =
     upd_rt c (\<lambda>r. r\<lparr>overload := b\<rparr>)
       (if overload (rt_of s c) = b \<or> \<not> online (rqs s c) then s
        else upd_rd (rd (rqs s c))
          (\<lambda>d. d\<lparr>rto_mask := (if b then insert c (rto_mask d) else rto_mask d - {c}),
                 rto_count := (if b then rto_count d + 1 else rto_count d - 1)\<rparr>) s)"

lemma rto_update_comm: "d\<lparr>rto_count := n, rto_mask := m\<rparr> = d\<lparr>rto_mask := m, rto_count := n\<rparr>"
  by (cases d) simp

lemma update_rt_migration_eq:
  "update_rt_migration c s = set_over c (rt_nr_migratory (rt_of s c) \<noteq> 0 \<and> rt_nr_total (rt_of s c) > 1) s"
proof -
  have id: "upd_rt c (\<lambda>r. r\<lparr>overload := overload (rt_of s c)\<rparr>) s = s" by (rule upd_rt_idem) simp
  show ?thesis
    unfolding set_over_def update_rt_migration_def Let_def
    using id by (cases "overload (rt_of s c)") (auto simp: rt_set_overload_def rt_clear_overload_def upd_defs Let_def rto_update_comm)
qed

lemma set_over_fields [simp]:
  "tasks (set_over c b s) = tasks s" "runq (set_over c b s) = runq s" "pushable (set_over c b s) = pushable s"
  "rd (rqs (set_over c b s) c') = rd (rqs s c')" "online (rqs (set_over c b s) c') = online (rqs s c')"
  "curr (rqs (set_over c b s) c') = curr (rqs s c')"
  "rt (rqs (set_over c b s) c') = (if c' = c then (rt_of s c)\<lparr>overload := b\<rparr> else rt_of s c')"
  "rd_cpupri (rds (set_over c b s) d) = rd_cpupri (rds s d)"
  by (simp_all add: set_over_def)

lemma set_over_ok:
  assumes o: "over_ok nr s" and c: "c < nr"
  shows "over_ok nr (set_over c b s)"
proof -
  let ?s = "set_over c b s"
  have ov: "over_cpus nr ?s d =
      (if d = rd (rqs s c) \<and> online (rqs s c) then if b then insert c (over_cpus nr s d) else over_cpus nr s d - {c}
       else over_cpus nr s d)" for d
    using c by (auto simp: over_cpus_def)
  have inn: "c \<in> over_cpus nr s (rd (rqs s c)) \<longleftrightarrow> online (rqs s c) \<and> overload (rt_of s c)"
    using c by (simp add: over_cpus_def)
  have k: "int (card (over_cpus nr s d - {c})) = int (card (over_cpus nr s d)) - 1" if "c \<in> over_cpus nr s d" for d
    using that card_Suc_Diff1 [OF over_cpus_finite that] by linarith
  have md: "rto_mask (rds s d) = over_cpus nr s d" "rto_count (rds s d) = int (card (over_cpus nr s d))" for d
    using o by (simp_all add: over_ok_def)
  have "rto_mask (rds ?s d) = over_cpus nr ?s d \<and> rto_count (rds ?s d) = int (card (over_cpus nr ?s d))" for d
  proof (cases "d = rd (rqs s c) \<and> online (rqs s c)")
    case True
    then show ?thesis unfolding ov using inn k [of d] by (auto simp: set_over_def md insert_absorb)
  next
    case False
    then show ?thesis unfolding ov using md [of d] by (auto simp: set_over_def)
  qed
  then show ?thesis by (simp add: over_ok_def)
qed

lemma over_ok_cong:
  assumes "\<And>d. rto_mask (rds s' d) = rto_mask (rds s d)" "\<And>d. rto_count (rds s' d) = rto_count (rds s d)"
    "\<And>c. rd (rqs s' c) = rd (rqs s c)" "\<And>c. online (rqs s' c) = online (rqs s c)"
    "\<And>c. overload (rt_of s' c) = overload (rt_of s c)"
  shows "over_ok nr s' = over_ok nr s"
  using assms by (simp add: over_ok_def over_cpus_def)

section \<open>Putting a task on a queue\<close>

definition enq :: "rt_queues \<Rightarrow> nat \<Rightarrow> int \<Rightarrow> nat \<Rightarrow> bool \<Rightarrow> rt_queues" where
  "enq Q c i t head = Q(c := (Q c)(i := (if head then t # Q c i else Q c i @ [t])))"

definition deq :: "rt_queues \<Rightarrow> nat \<Rightarrow> int \<Rightarrow> nat \<Rightarrow> rt_queues" where
  "deq Q c i t = Q(c := (Q c)(i := remove1 t (Q c i)))"

text \<open>What the queueing operations leave alone.\<close>

definition rt_frame :: "sched \<Rightarrow> sched \<Rightarrow> bool" where
  "rt_frame s s' \<longleftrightarrow> tasks s' = tasks s \<and> pushable s' = pushable s \<and> local_cpu_mask s' = local_cpu_mask s \<and>
     (\<forall>c r. (rqs s' c)\<lparr>rt := r\<rparr> = (rqs s c)\<lparr>rt := r\<rparr>) \<and> (\<forall>d. span (rds s' d) = span (rds s d)) \<and>
     (\<forall>c. rt_throttled (rt_of s' c) = rt_throttled (rt_of s c) \<and> rt_time (rt_of s' c) = rt_time (rt_of s c) \<and>
        rt_runtime (rt_of s' c) = rt_runtime (rt_of s c)) \<and>
     rt_b_period s' = rt_b_period s \<and> rt_b_runtime s' = rt_b_runtime s \<and> scheduler_running s' = scheduler_running s \<and>
     cpu_online_mask s' = cpu_online_mask s \<and> sysctl_sched_rt_runtime s' = sysctl_sched_rt_runtime s"

lemma rt_frame_refl: "rt_frame s s"
  by (simp add: rt_frame_def)

lemma rt_frame_trans: "rt_frame s s' \<Longrightarrow> rt_frame s' s'' \<Longrightarrow> rt_frame s s''"
  by (auto simp: rt_frame_def)

lemma rt_frame_rq:
  assumes "rt_frame s s'"
  shows "rd (rqs s' c) = rd (rqs s c)" "online (rqs s' c) = online (rqs s c)" "curr (rqs s' c) = curr (rqs s c)"
    "idle (rqs s' c) = idle (rqs s c)" "clock_task (rqs s' c) = clock_task (rqs s c)"
proof -
  have e: "(rqs s' c)\<lparr>rt := rt_of s c\<rparr> = (rqs s c)\<lparr>rt := rt_of s c\<rparr>" using assms by (simp add: rt_frame_def)
  show "rd (rqs s' c) = rd (rqs s c)" using arg_cong [OF e, of rd] by simp
  show "online (rqs s' c) = online (rqs s c)" using arg_cong [OF e, of online] by simp
  show "curr (rqs s' c) = curr (rqs s c)" using arg_cong [OF e, of curr] by simp
  show "idle (rqs s' c) = idle (rqs s c)" using arg_cong [OF e, of idle] by simp
  show "clock_task (rqs s' c) = clock_task (rqs s c)" using arg_cong [OF e, of clock_task] by simp
qed

lemma rt_frame_upd_rt:
  assumes "\<And>r. rt_throttled (f r) = rt_throttled r" "\<And>r. rt_time (f r) = rt_time r" "\<And>r. rt_runtime (f r) = rt_runtime r"
  shows "rt_frame s (upd_rt c f s)"
  using assms by (simp add: rt_frame_def upd_defs)

lemma rt_frame_upd_rd: "(\<And>d. span (f d) = span d) \<Longrightarrow> rt_frame s (upd_rd c f s)"
  by (simp add: rt_frame_def upd_defs)

lemma rt_frame_runq: "rt_frame s (s\<lparr>runq := h\<rparr>)"
  by (simp add: rt_frame_def)

lemma rt_frame_set_over: "rt_frame s (set_over c b s)"
  by (simp add: rt_frame_def set_over_def upd_defs)

lemma start_rt_bandwidth_fields [simp]:
  "tasks (start_rt_bandwidth s) = tasks s" "rqs (start_rt_bandwidth s) = rqs s" "rds (start_rt_bandwidth s) = rds s"
  "runq (start_rt_bandwidth s) = runq s" "pushable (start_rt_bandwidth s) = pushable s"
  by (simp_all add: start_rt_bandwidth_def)

lemma rt_frame_start: "rt_frame s (start_rt_bandwidth s)"
  by (simp add: rt_frame_def start_rt_bandwidth_def)

lemma queued_rtasks: "queued Q t \<longleftrightarrow> (\<exists>c. t \<in> rtasks Q c)"
  by (auto simp: queued_def rtasks_def)

lemma rtasks_finite:
  assumes "lists_ok s Q"
  shows "finite (rtasks Q c)"
proof (rule finite_subset)
  show "rtasks Q c \<subseteq> (\<Union>i \<in> {0..<MAX_RT_PRIO}. set (Q c i))"
    using assms by (force simp: rtasks_def lists_ok_def)
qed simp

lemma enq_apply: "enq Q c i t head c' i' =
    (if c' = c \<and> i' = i then if head then t # Q c i else Q c i @ [t] else Q c' i')"
  by (simp add: enq_def)

lemma enq_set: "set (enq Q c i t head c' i') = (if c' = c \<and> i' = i then insert t (set (Q c i)) else set (Q c' i'))"
  by (simp add: enq_def)

lemma enq_rtasks: "rtasks (enq Q c i t head) c' = (if c' = c then insert t (rtasks Q c) else rtasks Q c')"
  by (auto simp: rtasks_def enq_set split: if_splits)

lemma enq_bits: "0 \<le> i \<Longrightarrow> i < MAX_RT_PRIO \<Longrightarrow> bits (enq Q c i t head c) = insert i (bits (Q c))"
  by (auto simp: bits_def enq_def split: if_splits)

lemma enq_lists:
  assumes l: "lists_ok s Q" and n: "\<not> queued Q t" and i: "0 \<le> i" "i < MAX_RT_PRIO"
    and t: "prio_of s t = i" "task_cpu (tasks s t) = c"
  shows "lists_ok (s\<lparr>runq := (if head then list_add (runq s) (run_list t) (queue c i)
      else list_add_tail (runq s) (run_list t) (queue c i))\<rparr>) (enq Q c i t head)"
proof -
  let ?h = "if head then list_add (runq s) (run_list t) (queue c i) else list_add_tail (runq s) (run_list t) (queue c i)"
  have f: "fam (runq s) (rqA Q)" using l by (simp add: lists_ok_def)
  have A: "rqA Q (queue c i) = Some (map run_list (Q c i))" using i by simp
  have lo: "loose (rqA Q) (run_list t)" using looseI_single [OF f] n by simp
  have "fam ?h ((rqA Q)(run_list t := None, queue c i \<mapsto> (if head then run_list t # map run_list (Q c i) else map run_list (Q c i) @ [run_list t])))"
    using fam_list_add [OF f A lo] fam_list_add_tail [OF f A lo] by simp
  moreover have "(rqA Q)(run_list t := None, queue c i \<mapsto> (if head then run_list t # map run_list (Q c i) else map run_list (Q c i) @ [run_list t])) = rqA (enq Q c i t head)"
  proof
    fix p
    have q: "queued (enq Q c i t head) t' \<longleftrightarrow> t' = t \<or> queued Q t'" for t'
      by (auto simp: queued_rtasks enq_rtasks split: if_splits)
    show "((rqA Q)(run_list t := None, queue c i \<mapsto> (if head then run_list t # map run_list (Q c i) else map run_list (Q c i) @ [run_list t]))) p = rqA (enq Q c i t head) p"
      using i by (auto simp: rqA_def q enq_apply split: lptr.splits rt_node.splits)
  qed
  ultimately have "fam ?h (rqA (enq Q c i t head))" by simp
  then show ?thesis using l t i unfolding lists_ok_def by (auto simp: enq_set split: if_splits)
qed

lemma lists_ok_fam: "lists_ok s Q \<Longrightarrow> fam (runq s) (rqA Q)"
  by (simp add: lists_ok_def)

lemma lists_ok_cong:
  "runq s' = runq s \<Longrightarrow> (\<And>t. prio_of s' t = prio_of s t) \<Longrightarrow> (\<And>t. task_cpu (tasks s' t) = task_cpu (tasks s t)) \<Longrightarrow>
   lists_ok s' Q = lists_ok s Q"
  by (simp add: lists_ok_def)

lemma rt_invD:
  assumes "rt_inv nr s Q"
  shows "lists_ok s Q" "c < nr \<Longrightarrow> counts_ok s Q c" "c < nr \<Longrightarrow> heads_ok s Q c"
    "pri_at nr s (\<lambda>c. hp_curr (rt_of s c))" "over_ok nr s"
  using assms by (auto simp: rt_inv_def pri_ok_at)

text \<open>The invariant after a change of one run queue.\<close>

lemma rt_inv_change:
  assumes inv: "rt_inv nr s Q" and other: "\<And>c'. c' \<noteq> c \<Longrightarrow> rt_of s' c' = rt_of s c' \<and> Q' c' = Q c'"
    and m: "\<And>c'. c' \<noteq> c \<Longrightarrow> migratory s' (rtasks Q c') = migratory s (rtasks Q c')" and l: "lists_ok s' Q'" and co: "counts_ok s' Q' c" and he: "heads_ok s' Q' c"
    and p: "pri_at nr s' (\<lambda>c. hp_curr (rt_of s' c))" and o: "over_ok nr s'"
  shows "rt_inv nr s' Q'"
proof -
  have "counts_ok s' Q' c' \<and> heads_ok s' Q' c'" if "c' < nr" for c'
  proof (cases "c' = c")
    case False
    then have "rtasks Q' c' = rtasks Q c'" using other by (simp add: rtasks_def)
    then show ?thesis using rt_invD(2,3) [OF inv that] other [OF False] m [OF False]
      by (simp add: counts_ok_def heads_ok_def)
  qed (use co he in simp)
  then show ?thesis using l p o by (simp add: rt_inv_def pri_ok_at)
qed

text \<open>The counters and the overload flag after the priorities.\<close>

definition count_task :: "nat \<Rightarrow> nat \<Rightarrow> int \<Rightarrow> sched \<Rightarrow> sched" where
  "count_task c t k s =
     (let s = upd_rt c (\<lambda>r. r\<lparr>rt_nr_total := rt_nr_total r + k,
                rt_nr_migratory := rt_nr_migratory r + (if nr_cpus_allowed (tasks s t) > 1 then k else 0)\<rparr>) s
      in set_over c (rt_nr_migratory (rt_of s c) \<noteq> 0 \<and> rt_nr_total (rt_of s c) > 1) s)"

lemma inc_rt_migration_eq: "inc_rt_migration t c s = count_task c t 1 s"
  by (auto simp: inc_rt_migration_def count_task_def Let_def update_rt_migration_eq upd_rt_upd_rt)

lemma dec_rt_migration_eq: "dec_rt_migration t c s = count_task c t (- 1) s"
  by (auto simp: dec_rt_migration_def count_task_def Let_def update_rt_migration_eq upd_rt_upd_rt)

lemma count_task_fields [simp]:
  "tasks (count_task c t k s) = tasks s" "runq (count_task c t k s) = runq s" "pushable (count_task c t k s) = pushable s"
  "rd (rqs (count_task c t k s) c') = rd (rqs s c')" "online (rqs (count_task c t k s) c') = online (rqs s c')"
  "curr (rqs (count_task c t k s) c') = curr (rqs s c')"
  "rd_cpupri (rds (count_task c t k s) d) = rd_cpupri (rds s d)"
  "c' \<noteq> c \<Longrightarrow> rt (rqs (count_task c t k s) c') = rt_of s c'"
  "bitmap (rt_of (count_task c t k s) c) = bitmap (rt_of s c)"
  "hp_curr (rt_of (count_task c t k s) c) = hp_curr (rt_of s c)"
  "rt_nr_running (rt_of (count_task c t k s) c) = rt_nr_running (rt_of s c)"
  by (simp_all add: count_task_def Let_def)

lemma rt_frame_count: "rt_frame s (count_task c t k s)"
  unfolding count_task_def Let_def
  by (intro rt_frame_trans [OF rt_frame_upd_rt rt_frame_set_over]) simp_all

lemmas rt_frame_intros =
  rt_frame_trans [OF _ rt_frame_start] rt_frame_trans [OF _ rt_frame_count] rt_frame_trans [OF _ rt_frame_upd_rt]
  rt_frame_trans [OF _ rt_frame_upd_rd] rt_frame_trans [OF _ rt_frame_runq] rt_frame_refl

lemma over_ok_count: "over_ok nr s \<Longrightarrow> c < nr \<Longrightarrow> over_ok nr (count_task c t k s)"
proof -
  assume o: "over_ok nr s" and c: "c < nr"
  let ?s = "upd_rt c (\<lambda>r. r\<lparr>rt_nr_total := rt_nr_total r + k,
    rt_nr_migratory := rt_nr_migratory r + (if nr_cpus_allowed (tasks s t) > 1 then k else 0)\<rparr>) s"
  have "over_ok nr ?s = over_ok nr s" by (rule over_ok_cong) auto
  with o show ?thesis unfolding count_task_def Let_def using set_over_ok [OF _ c] by blast
qed

lemma counts_ok_count:
  assumes "rt_nr_running (rt_of s c) = int (card (rtasks Q c))"
    "rt_nr_total (rt_of s c) + k = int (card (rtasks Q c))"
    "rt_nr_migratory (rt_of s c) + (if nr_cpus_allowed (tasks s t) > 1 then k else 0) = int (card (migratory s (rtasks Q c)))"
  shows "counts_ok (count_task c t k s) Q c"
  using assms by (auto simp: counts_ok_def count_task_def Let_def migratory_def)

lemma enq_counts:
  assumes co: "counts_ok s Q c" and n: "\<not> queued Q t" and fin: "finite (rtasks Q c)"
  shows "rt_nr_running (rt_of s c) + 1 = int (card (rtasks (enq Q c i t head) c))"
    "rt_nr_total (rt_of s c) + 1 = int (card (rtasks (enq Q c i t head) c))"
    "rt_nr_migratory (rt_of s c) + (if nr_cpus_allowed (tasks s t) > 1 then 1 else 0) =
       int (card (migratory s (rtasks (enq Q c i t head) c)))"
proof -
  have nt: "t \<notin> rtasks Q c" using n by (auto simp: queued_rtasks)
  show "rt_nr_running (rt_of s c) + 1 = int (card (rtasks (enq Q c i t head) c))"
    "rt_nr_total (rt_of s c) + 1 = int (card (rtasks (enq Q c i t head) c))"
    using co nt fin by (simp_all add: counts_ok_def enq_rtasks)
  have mg: "migratory s (rtasks (enq Q c i t head) c) =
      (if nr_cpus_allowed (tasks s t) > 1 then insert t (migratory s (rtasks Q c)) else migratory s (rtasks Q c))"
    by (auto simp: migratory_def enq_rtasks)
  have "t \<notin> migratory s (rtasks Q c)" "finite (migratory s (rtasks Q c))" using nt fin by (auto simp: migratory_def)
  then show "rt_nr_migratory (rt_of s c) + (if nr_cpus_allowed (tasks s t) > 1 then 1 else 0) =
       int (card (migratory s (rtasks (enq Q c i t head) c)))"
    unfolding mg using co by (simp add: counts_ok_def)
qed

lemma raw_enqueue_spec:
  assumes inv: "rt_inv nr s Q" and n: "\<not> queued Q t" and pr: "0 \<le> prio_of s t" "prio_of s t < MAX_RT_PRIO"
    and c: "task_cpu (tasks s t) < nr"
  shows "\<exists>s'. raw_enqueue_rt_entity t head s = Inr s' \<and> rt_frame s s' \<and>
    rt_inv nr s' (enq Q (task_cpu (tasks s t)) (prio_of s t) t head)"
proof -
  let ?c = "task_cpu (tasks s t)" and ?i = "prio_of s t"
  let ?Q = "enq Q ?c ?i t head"
  note iv = rt_invD [OF inv]
  define s1 where "s1 = s\<lparr>runq := (if head then list_add (runq s) (run_list t) (queue ?c ?i)
      else list_add_tail (runq s) (run_list t) (queue ?c ?i))\<rparr>"
  define s3 where "s3 = upd_rt ?c (\<lambda>r. r\<lparr>bitmap := insert ?i (bitmap r), rt_nr_running := rt_nr_running r + 1\<rparr>) s1"
  have l1: "lists_ok s1 ?Q" unfolding s1_def using enq_lists [OF iv(1) n pr refl refl] .
  have same: "rds s3 = rds s" "tasks s3 = tasks s" "runq s3 = runq s1" "rd (rqs s3 c') = rd (rqs s c')"
    "online (rqs s3 c') = online (rqs s c')" "c' \<noteq> ?c \<Longrightarrow> rt_of s3 c' = rt_of s c'"
    "hp_curr (rt_of s3 c') = hp_curr (rt_of s c')" "overload (rt_of s3 c') = overload (rt_of s c')" for c'
    by (auto simp: s3_def s1_def)
  have t1: "tasks s1 = tasks s" by (simp add: s1_def)
  have f3: "fam (runq s3) (rqA ?Q)" using lists_ok_fam [OF l1] same by simp
  have b3: "bitmap (rt_of s3 ?c) = bits (?Q ?c)"
    using iv(3) [OF c] enq_bits [OF pr] by (simp add: s3_def s1_def heads_ok_def)
  have p3: "pri_at nr s3 (\<lambda>c. hp_curr (rt_of s c))" using iv(4) by (subst pri_at_cong [where s = s]) (auto simp: same)
  from inc_rt_prio_spec [OF p3 _ c f3 b3 pr(1), unfolded Let_def] same(7) obtain n' cp s4 where
    s4: "s4 = upd_rd (rd (rqs s3 ?c)) (\<lambda>d. d\<lparr>rd_cpupri := cp\<rparr>)
        (upd_rt ?c (\<lambda>r. r\<lparr>hp_curr := min ?i (hp_curr r), hp_next := n'\<rparr>) s3)"
    and i4: "inc_rt_prio ?c ?i s3 = Inr s4"
    and p4: "pri_at nr s4 ((\<lambda>c. hp_curr (rt_of s c))(?c := min ?i (hp_curr (rt_of s ?c))))" by auto
  define s7 where "s7 = start_rt_bandwidth (count_task ?c t 1 s4)"
  have run: "raw_enqueue_rt_entity t head s = Inr s7"
    using i4 unfolding s7_def
    by (cases head) (simp_all add: raw_enqueue_rt_entity_def inc_rt_tasks_def inc_rt_group_def rt_se_prio_def s3_def s1_def
        upd_rt_upd_rt Let_def inc_rt_migration_eq)
  have fr: "rt_frame s s7"
    unfolding s7_def s4 s3_def s1_def
    by (intro rt_frame_intros) simp_all
  have "rt_inv nr s7 ?Q"
  proof (rule rt_inv_change [OF inv, where c = ?c])
    show "lists_ok s7 ?Q" using l1 by (subst lists_ok_cong [where s = s1]) (auto simp: s7_def s4 same t1)
    have "counts_ok (count_task ?c t 1 s4) ?Q ?c"
      using enq_counts [OF iv(2) [OF c] n rtasks_finite [OF iv(1)], of ?i head]
      by (intro counts_ok_count) (auto simp: s4 s3_def s1_def migratory_def)
    then show "counts_ok s7 ?Q ?c" by (simp add: counts_ok_def s7_def migratory_def)
    show "heads_ok s7 ?Q ?c" using iv(3) [OF c] b3
      by (auto simp: heads_ok_def enq_bits [OF pr] least_def s7_def s4 same)
    show "pri_at nr s7 (\<lambda>c. hp_curr (rt_of s7 c))"
    proof (rule iffD2 [OF pri_at_cong p4])
      show "hp_curr (rt_of s7 c') = ((\<lambda>c. hp_curr (rt_of s c))(?c := min ?i (hp_curr (rt_of s ?c)))) c'" for c'
        by (cases "c' = ?c") (simp_all add: s7_def s4 same)
    qed (auto simp: s7_def)
    have "over_ok nr s4 = over_ok nr s" by (rule over_ok_cong) (auto simp: s4 same)
    then have "over_ok nr (count_task ?c t 1 s4)" using over_ok_count [OF _ c] iv(5) by blast
    then show "over_ok nr s7" by (subst over_ok_cong [where s = "count_task ?c t 1 s4"]) (simp_all add: s7_def)
  qed (auto simp: s7_def s4 same enq_def migratory_def)
  with run fr show ?thesis by blast
qed

section \<open>Taking a task off its queue\<close>

lemma lists_okD:
  assumes "lists_ok s Q" "t \<in> set (Q c i)"
  shows "0 \<le> i" "i < MAX_RT_PRIO" "prio_of s t = i" "task_cpu (tasks s t) = c"
  using assms by (auto simp: lists_ok_def)

lemma lists_ok_distinct:
  assumes l: "lists_ok s Q"
  shows "distinct (Q c i)"
proof (cases "0 \<le> i \<and> i < MAX_RT_PRIO")
  case True
  then show ?thesis using fam_distinct [OF lists_ok_fam [OF l], of "queue c i"] by (simp add: distinct_map)
next
  case False
  then have "t \<notin> set (Q c i)" for t using lists_okD(1,2) [OF l, of t c i] by blast
  then have "Q c i = []" by (cases "Q c i") auto
  then show ?thesis by simp
qed

lemma deq_apply: "deq Q c i t c' i' = (if c' = c \<and> i' = i then remove1 t (Q c i) else Q c' i')"
  by (simp add: deq_def)

lemma deq_set:
  assumes l: "lists_ok s Q" and t: "t \<in> set (Q c i)"
  shows "set (deq Q c i t c' i') = set (Q c' i') - {t}"
proof (cases "c' = c \<and> i' = i")
  case True
  then show ?thesis using lists_ok_distinct [OF l, of c i] by (simp add: deq_apply)
next
  case False
  then have "t \<notin> set (Q c' i')" using lists_okD(3,4) [OF l t] lists_okD(3,4) [OF l, of t c' i'] by auto
  moreover have "deq Q c i t c' i' = Q c' i'" using False by (auto simp: deq_apply)
  ultimately show ?thesis by simp
qed

lemma deq_rtasks:
  assumes "lists_ok s Q" "t \<in> set (Q c i)"
  shows "rtasks (deq Q c i t) c' = rtasks Q c' - {t}"
  using deq_set [OF assms] by (auto simp: rtasks_def)

lemma deq_bits:
  assumes i: "0 \<le> i" "i < MAX_RT_PRIO" and t: "Q c i \<noteq> []"
  shows "bits (deq Q c i t c) = (if remove1 t (Q c i) = [] then bits (Q c) - {i} else bits (Q c))"
  using assms by (auto simp: bits_def deq_apply split: if_splits)

lemma deq_queued:
  assumes "lists_ok s Q" "t \<in> set (Q c i)"
  shows "queued (deq Q c i t) t' \<longleftrightarrow> queued Q t' \<and> t' \<noteq> t"
  using deq_rtasks [OF assms] by (auto simp: queued_rtasks)

lemma deq_lists:
  assumes l: "lists_ok s Q" and t: "t \<in> set (Q c i)"
  shows "lists_ok (s\<lparr>runq := list_del_init (runq s) (run_list t)\<rparr>) (deq Q c i t)"
proof -
  note f = lists_ok_fam [OF l] and ti = lists_okD [OF l t]
  obtain xs ys where q: "Q c i = xs @ t # ys" "t \<notin> set xs" "t \<notin> set ys" "remove1 t (Q c i) = xs @ ys"
    using split_list_distinct [OF t lists_ok_distinct [OF l]] by blast
  have A: "rqA Q (queue c i) = Some (map run_list xs @ run_list t # map run_list ys)" using ti q(1) by simp
  have "(rqA Q)(queue c i \<mapsto> map run_list xs @ map run_list ys, run_list t \<mapsto> []) = rqA (deq Q c i t)"
  proof
    fix p
    show "((rqA Q)(queue c i \<mapsto> map run_list xs @ map run_list ys, run_list t \<mapsto> [])) p = rqA (deq Q c i t) p"
      using ti q(4) by (auto simp: rqA_def deq_queued [OF l t] deq_apply split: lptr.splits rt_node.splits)
  qed
  then have "fam (list_del_init (runq s) (run_list t)) (rqA (deq Q c i t))"
    using fam_list_del_init [OF f A] by simp
  then show ?thesis using l unfolding lists_ok_def by (auto simp: deq_set [OF l t])
qed

lemma deq_counts:
  assumes co: "counts_ok s Q c" and l: "lists_ok s Q" and t: "t \<in> set (Q c i)"
  shows "rt_nr_running (rt_of s c) - 1 = int (card (rtasks (deq Q c i t) c))"
    "rt_nr_total (rt_of s c) - 1 = int (card (rtasks (deq Q c i t) c))"
    "rt_nr_migratory (rt_of s c) + (if nr_cpus_allowed (tasks s t) > 1 then - 1 else 0) =
       int (card (migratory s (rtasks (deq Q c i t) c)))"
proof -
  have tin: "t \<in> rtasks Q c" using t by (auto simp: rtasks_def)
  have drop: "int (card (T - {t})) = int (card T) - 1" if "finite T" "t \<in> T" for T
    using card_Suc_Diff1 [OF that] by linarith
  have fin: "finite (rtasks Q c)" "finite (migratory s (rtasks Q c))" using rtasks_finite [OF l] by (auto simp: migratory_def)
  show "rt_nr_running (rt_of s c) - 1 = int (card (rtasks (deq Q c i t) c))"
    "rt_nr_total (rt_of s c) - 1 = int (card (rtasks (deq Q c i t) c))"
    unfolding deq_rtasks [OF l t] drop [OF fin(1) tin] using co by (simp_all add: counts_ok_def)
  have "migratory s (rtasks Q c - {t}) = migratory s (rtasks Q c) - {t}" by (auto simp: migratory_def)
  moreover have "t \<in> migratory s (rtasks Q c) \<longleftrightarrow> nr_cpus_allowed (tasks s t) > 1" using tin by (simp add: migratory_def)
  ultimately show "rt_nr_migratory (rt_of s c) + (if nr_cpus_allowed (tasks s t) > 1 then - 1 else 0) =
       int (card (migratory s (rtasks (deq Q c i t) c)))"
    unfolding deq_rtasks [OF l t] using co drop [OF fin(2)] by (auto simp: counts_ok_def)
qed

text \<open>The new highest priority.\<close>

lemma deq_least:
  assumes l: "lists_ok s Q" and t: "t \<in> set (Q c i)" and h: "least (bits (Q c)) h"
    and r: "rest = card (rtasks (deq Q c i t) c)"
  shows "least (bits (deq Q c i t c))
    (if rest \<noteq> 0 then if i = h then sched_find_first_bit (bits (deq Q c i t c)) else h else MAX_RT_PRIO)"
proof -
  note ti = lists_okD [OF l t]
  have ne: "Q c i \<noteq> []" using t by auto
  let ?b = "bits (deq Q c i t c)"
  have fin: "finite (rtasks (deq Q c i t) c)" using rtasks_finite [OF l] by (simp add: deq_rtasks [OF l t])
  have m: "MAX_RT_PRIO \<in> ?b" by (rule bits_spec)
  show ?thesis
  proof (cases "rest = 0")
    case True
    then have "rtasks (deq Q c i t) c = {}" using r fin by simp
    then have "x \<notin> set (deq Q c i t c k)" for x k unfolding rtasks_def by auto
    then have "deq Q c i t c k = []" for k using hd_in_set by blast
    then have "?b = {MAX_RT_PRIO}" by (auto simp: bits_def)
    then show ?thesis using True by (simp add: least_def)
  next
    case False
    have "least ?b (sched_find_first_bit ?b)"
      unfolding least_def using sched_find_first_bit_spec(1,4) [OF m] bits_spec(2) [of _ "deq Q c i t c"] by blast
    moreover have "least ?b h" if "i \<noteq> h"
      using h that unfolding least_def deq_bits [of i Q c t, OF ti(1,2) ne] by auto
    ultimately show ?thesis using False by (cases "i = h") simp_all
  qed
qed

lemma raw_dequeue_spec:
  assumes inv: "rt_inv nr s Q" and t: "t \<in> set (Q c i)" and c: "c < nr"
  shows "\<exists>s'. raw_dequeue_rt_entity t s = Inr s' \<and> rt_frame s s' \<and> rt_inv nr s' (deq Q c i t)"
proof -
  let ?Q = "deq Q c i t"
  note iv = rt_invD [OF inv]
  note ti = lists_okD [OF iv(1) t]
  have ne: "Q c i \<noteq> []" using t by auto
  define s1 where "s1 = s\<lparr>runq := list_del_init (runq s) (run_list t)\<rparr>"
  have l1: "lists_ok s1 ?Q" unfolding s1_def using deq_lists [OF iv(1) t] .
  have em: "list_empty (runq s1) (queue c i) \<longleftrightarrow> remove1 t (Q c i) = []"
    using fam_empty [OF lists_ok_fam [OF l1], of "queue c i"] ti by (simp add: deq_apply)
  define s3 where "s3 = upd_rt c (\<lambda>r. r\<lparr>bitmap := bits (?Q c), rt_nr_running := rt_nr_running r - 1\<rparr>) s1"
  have same: "rds s3 = rds s" "tasks s3 = tasks s" "runq s3 = runq s1" "rd (rqs s3 c') = rd (rqs s c')"
    "online (rqs s3 c') = online (rqs s c')" "c' \<noteq> c \<Longrightarrow> rt_of s3 c' = rt_of s c'"
    "hp_curr (rt_of s3 c') = hp_curr (rt_of s c')" "overload (rt_of s3 c') = overload (rt_of s c')" for c'
    by (auto simp: s3_def s1_def)
  have t1: "tasks s1 = tasks s" by (simp add: s1_def)
  have f3: "fam (runq s3) (rqA ?Q)" "bitmap (rt_of s3 c) = bits (?Q c)"
    using lists_ok_fam [OF l1] same by (auto simp: s3_def)
  have p3: "pri_at nr s3 (\<lambda>c. hp_curr (rt_of s c))" using iv(4) by (subst pri_at_cong [where s = s]) (auto simp: same)
  note cn = deq_counts [OF iv(2) [OF c] iv(1) t]
  define m where "m = (if rt_nr_running (rt_of s3 c) \<noteq> 0 then if i = hp_curr (rt_of s3 c)
    then sched_find_first_bit (bitmap (rt_of s3 c)) else hp_curr (rt_of s3 c) else MAX_RT_PRIO)"
  have h: "least (bits (Q c)) (hp_curr (rt_of s c))" using iv(3) [OF c] by (simp add: heads_ok_def)
  have m: "m = (if card (rtasks ?Q c) \<noteq> 0 then if i = hp_curr (rt_of s c)
      then sched_find_first_bit (bits (?Q c)) else hp_curr (rt_of s c) else MAX_RT_PRIO)"
    using cn(1) by (simp add: m_def s3_def s1_def)
  have lm: "least (bits (?Q c)) m" unfolding m by (rule deq_least [OF iv(1) t h refl])
  have m0: "0 \<le> m" using lm bits_spec(2) unfolding least_def by blast
  from dec_rt_prio_spec [OF p3 _ c f3, of i, folded m_def, unfolded Let_def] same(7) m0 obtain n' cp s4 where
    s4: "s4 = upd_rd (rd (rqs s3 c)) (\<lambda>d. d\<lparr>rd_cpupri := cp\<rparr>) (upd_rt c (\<lambda>r. r\<lparr>hp_curr := m, hp_next := n'\<rparr>) s3)"
    and i4: "dec_rt_prio c i s3 = Inr s4" and p4: "pri_at nr s4 ((\<lambda>c. hp_curr (rt_of s c))(c := m))" by auto
  have s3': "s3 = upd_rt c (\<lambda>r. r\<lparr>rt_nr_running := rt_nr_running r - 1\<rparr>)
      (if list_empty (runq s1) (queue c i) then upd_rt c (\<lambda>r. r\<lparr>bitmap := bitmap r - {i}\<rparr>) s1 else s1)"
  proof -
    have b: "bits (?Q c) = (if remove1 t (Q c i) = [] then bitmap (rt_of s c) - {i} else bitmap (rt_of s c))"
      using iv(3) [OF c] deq_bits [of i Q c t, OF ti(1,2) ne] by (simp add: heads_ok_def)
    have "r\<lparr>bitmap := bitmap r, rt_nr_running := k\<rparr> = r\<lparr>rt_nr_running := k\<rparr>" for r :: rt_rq and k by (cases r) simp
    then show ?thesis unfolding s3_def b em by (simp add: s1_def upd_defs)
  qed
  define s7 where "s7 = count_task c t (- 1) s4"
  have run: "raw_dequeue_rt_entity t s = Inr s7"
  proof -
    have "raw_dequeue_rt_entity t s = run_bind (dec_rt_prio c i s3) (\<lambda>s. Inr (dec_rt_migration t c s))"
      unfolding s3' using ti t1
      by (auto simp: raw_dequeue_rt_entity_def dec_rt_tasks_def rt_se_prio_def s1_def Let_def)
    then show ?thesis using i4 by (simp add: s7_def dec_rt_migration_eq)
  qed
  have fr: "rt_frame s s7" unfolding s7_def s4 s3_def s1_def by (intro rt_frame_intros) simp_all
  have "rt_inv nr s7 ?Q"
  proof (rule rt_inv_change [OF inv, where c = c])
    show "lists_ok s7 ?Q" using l1 by (subst lists_ok_cong [where s = s1]) (auto simp: s7_def s4 same t1)
    show "counts_ok s7 ?Q c" unfolding s7_def
      using cn by (intro counts_ok_count) (auto simp: s4 s3_def s1_def migratory_def)
    show "heads_ok s7 ?Q c" using lm f3(2) by (auto simp: heads_ok_def s7_def s4)
    show "pri_at nr s7 (\<lambda>c. hp_curr (rt_of s7 c))"
    proof (rule iffD2 [OF pri_at_cong p4])
      show "hp_curr (rt_of s7 c') = ((\<lambda>c. hp_curr (rt_of s c))(c := m)) c'" for c'
        by (cases "c' = c") (simp_all add: s7_def s4 same)
    qed (auto simp: s7_def)
    have "over_ok nr s4 = over_ok nr s" by (rule over_ok_cong) (auto simp: s4 same)
    then show "over_ok nr s7" unfolding s7_def using over_ok_count [OF _ c] iv(5) by blast
  qed (auto simp: s7_def s4 same deq_def migratory_def)
  with run fr show ?thesis by blast
qed

end
