(* ===== verification/Sched_Ops.thy ===== *)
theory Sched_Ops
  imports Sched_Inv
begin

text \<open>
  The methods of the class that queue, requeue and pick tasks, on the full invariant: the run queues of
  \<open>Sched_Inv\<close> and the lists of pushable tasks. \<open>P c\<close> is the list of pushable tasks of CPU \<open>c\<close>. Time
  accounting (\<open>update_curr_rt\<close>, \<open>watchdog\<close>, the clock) changes none of the fields the invariant reads.
\<close>

section \<open>Accounting leaves the queues alone\<close>

definition core_rt :: "rt_rq \<Rightarrow> int set \<times> int \<times> int \<times> int \<times> int \<times> int \<times> bool" where
  "core_rt r = (bitmap r, rt_nr_running r, hp_curr r, hp_next r, rt_nr_migratory r, rt_nr_total r, overload r)"

definition core_rq :: "rq \<Rightarrow> nat \<times> bool \<times> nat \<times> nat \<times> (int set \<times> int \<times> int \<times> int \<times> int \<times> int \<times> bool)" where
  "core_rq q = (rd q, online q, curr q, idle q, core_rt (rt q))"

definition core_task :: "task \<Rightarrow> int \<times> policy \<times> bool \<times> bool \<times> bool \<times> nat \<times> nat set \<times> int \<times> int" where
  "core_task p = (prio p, policy p, rt_class p, on_rq p, on_cpu p, task_cpu p, cpus_allowed p, nr_cpus_allowed p, time_slice p)"

definition rt_core :: "sched \<Rightarrow> sched \<Rightarrow> bool" where
  "rt_core s s' \<longleftrightarrow> runq s' = runq s \<and> pushable s' = pushable s \<and> rds s' = rds s \<and>
     local_cpu_mask s' = local_cpu_mask s \<and> (\<forall>c. core_rq (rqs s' c) = core_rq (rqs s c)) \<and>
     (\<forall>t. core_task (tasks s' t) = core_task (tasks s t))"

lemma rt_core_refl: "rt_core s s"
  by (simp add: rt_core_def)

lemma rt_core_trans: "rt_core s s' \<Longrightarrow> rt_core s' s'' \<Longrightarrow> rt_core s s''"
  by (simp add: rt_core_def)

lemma rt_core_upd_rt: "rt_core s s' \<Longrightarrow> (\<And>r. core_rt (f r) = core_rt r) \<Longrightarrow> rt_core s (upd_rt c f s')"
  by (simp add: rt_core_def upd_defs core_rq_def)

lemma rt_core_upd_rq: "rt_core s s' \<Longrightarrow> (\<And>q. core_rq (f q) = core_rq q) \<Longrightarrow> rt_core s (upd_rq c f s')"
  by (simp add: rt_core_def upd_defs)

lemma rt_core_upd_task: "rt_core s s' \<Longrightarrow> (\<And>p. core_task (f p) = core_task p) \<Longrightarrow> rt_core s (upd_task t f s')"
  by (simp add: rt_core_def upd_defs)

lemma rt_core_resched: "rt_core s s' \<Longrightarrow> rt_core s (resched_task t s')"
  by (simp add: resched_task_def set_tsk_need_resched_def rt_core_upd_task core_task_def)

lemmas rt_core_intros = rt_core_upd_rt rt_core_upd_rq rt_core_upd_task rt_core_resched

lemma rt_core_fields:
  assumes "rt_core s s'"
  shows "runq s' = runq s" "pushable s' = pushable s" "rds s' = rds s" "local_cpu_mask s' = local_cpu_mask s"
    "rd (rqs s' c) = rd (rqs s c)" "online (rqs s' c) = online (rqs s c)" "curr (rqs s' c) = curr (rqs s c)"
    "idle (rqs s' c) = idle (rqs s c)"
    "bitmap (rt_of s' c) = bitmap (rt_of s c)" "rt_nr_running (rt_of s' c) = rt_nr_running (rt_of s c)"
    "hp_curr (rt_of s' c) = hp_curr (rt_of s c)" "hp_next (rt_of s' c) = hp_next (rt_of s c)"
    "rt_nr_migratory (rt_of s' c) = rt_nr_migratory (rt_of s c)" "rt_nr_total (rt_of s' c) = rt_nr_total (rt_of s c)"
    "overload (rt_of s' c) = overload (rt_of s c)"
    "prio_of s' t = prio_of s t" "policy (tasks s' t) = policy (tasks s t)" "rt_class (tasks s' t) = rt_class (tasks s t)"
    "on_rq (tasks s' t) = on_rq (tasks s t)" "on_cpu (tasks s' t) = on_cpu (tasks s t)"
    "task_cpu (tasks s' t) = task_cpu (tasks s t)" "cpus_allowed (tasks s' t) = cpus_allowed (tasks s t)"
    "nr_cpus_allowed (tasks s' t) = nr_cpus_allowed (tasks s t)" "time_slice (tasks s' t) = time_slice (tasks s t)"
  using assms by (auto simp: rt_core_def core_rq_def core_rt_def core_task_def)

lemma rt_inv_core:
  assumes "rt_core s s'"
  shows "rt_inv nr s' Q = rt_inv nr s Q"
proof -
  note f = rt_core_fields [OF assms]
  have "lists_ok s' Q = lists_ok s Q" by (rule lists_ok_cong) (simp_all add: f)
  moreover have "counts_ok s' Q c = counts_ok s Q c" "heads_ok s' Q c = heads_ok s Q c" for c
    by (simp_all add: counts_ok_def heads_ok_def migratory_def f)
  moreover have "over_ok nr s' = over_ok nr s" by (rule over_ok_cong) (simp_all add: f)
  moreover have "pri_ok nr s' = pri_ok nr s" by (simp add: pri_ok_def f)
  ultimately show ?thesis by (simp add: rt_inv_def)
qed

lemma balance_loop_core: "rt_core s s' \<Longrightarrow> rt_core s (snd (balance_loop c w p is m s'))"
proof (induction "is" arbitrary: m s')
  case (Cons i "is")
  have step: "rt_core s (upd_rt c (\<lambda>r. r\<lparr>rt_runtime := u64 (rt_runtime r + d)\<rparr>)
      (upd_rt i (\<lambda>r. r\<lparr>rt_runtime := u64 (rt_runtime r - d)\<rparr>) s'))" for d
    by (intro rt_core_intros Cons.prems) (simp_all add: core_rt_def)
  show ?case using Cons.prems Cons.IH step by (auto simp: Let_def)
qed simp

lemma balance_runtime_core: "rt_core s s' \<Longrightarrow> rt_core s (snd (balance_runtime e c s'))"
  by (simp add: balance_runtime_def do_balance_runtime_def Let_def balance_loop_core)

lemma exceeded_core: "rt_core s s' \<Longrightarrow> rt_core s (snd (sched_rt_runtime_exceeded e c s'))"
proof -
  assume a: "rt_core s s'"
  obtain m s1 where b: "balance_runtime e c s' = (m, s1)" by (cases "balance_runtime e c s'")
  have "rt_core s s1" using balance_runtime_core [OF a, of e c] b by simp
  then have "rt_core s s1" "rt_core s (upd_rt c (\<lambda>r. r\<lparr>rt_throttled := True\<rparr>) s1)"
    by (auto intro!: rt_core_intros simp: core_rt_def)
  then show ?thesis using a b by (auto simp: sched_rt_runtime_exceeded_def Let_def)
qed

text \<open>\<open>update_curr_rt\<close> in two parts: the task, and the run queue it is charged to.\<close>

definition curr_delta :: "nat \<Rightarrow> sched \<Rightarrow> int" where
  "curr_delta c s = (let d = u64 (clock_task (rqs s c) - exec_start (tasks s (curr_of s c))) in if s64 d < 0 then 0 else d)"

definition charge_task :: "nat \<Rightarrow> sched \<Rightarrow> sched" where
  "charge_task c s = upd_task (curr_of s c) (\<lambda>p. p\<lparr>exec_start := clock_task (rqs s c)\<rparr>)
     (upd_task (curr_of s c) (\<lambda>p. p\<lparr>sum_exec_runtime := u64 (sum_exec_runtime p + curr_delta c s)\<rparr>) s)"

definition charge_rq :: "nat \<Rightarrow> sched \<Rightarrow> sched" where
  "charge_rq c s = upd_rt (task_cpu (tasks s (curr_of s c))) (\<lambda>r. r\<lparr>rt_time := u64 (rt_time r + curr_delta c s)\<rparr>) (charge_task c s)"

lemma charge_task_fields [simp]:
  "rqs (charge_task c s) = rqs s" "task_cpu (tasks (charge_task c s) t) = task_cpu (tasks s t)"
  by (simp_all add: charge_task_def upd_task_def)

lemma update_curr_rt_eq:
  assumes "sched_rt_runtime_exceeded e (task_cpu (tasks s (curr_of s c))) (charge_rq c s) = (x, s')"
  shows "update_curr_rt e c s =
    (if \<not> rt_class (tasks s (curr_of s c)) then s
     else if \<not> rt_bandwidth_enabled (charge_task c s) then charge_task c s
     else if sched_rt_runtime (task_cpu (tasks s (curr_of s c))) s \<noteq> RUNTIME_INF
     then if x then resched_task (curr_of s c) s' else s' else charge_task c s)"
proof -
  have "sched_rt_runtime q (charge_task c s) = sched_rt_runtime q s" for q by (simp add: sched_rt_runtime_def)
  moreover have "update_curr_rt e c s = (if \<not> rt_class (tasks s (curr_of s c)) then s
     else if \<not> rt_bandwidth_enabled (charge_task c s) then charge_task c s
     else let q = task_cpu (tasks (charge_task c s) (curr_of s c))
       in if sched_rt_runtime q (charge_task c s) \<noteq> RUNTIME_INF
          then let (x, s') = sched_rt_runtime_exceeded e q (upd_rt q (\<lambda>r. r\<lparr>rt_time := u64 (rt_time r + curr_delta c s)\<rparr>) (charge_task c s))
               in if x then resched_task (curr_of s c) s' else s'
          else charge_task c s)"
    by (simp add: update_curr_rt_def Let_def charge_task_def curr_delta_def)
  ultimately show ?thesis using assms by (simp add: charge_rq_def)
qed

lemma update_curr_rt_core: "rt_core s (update_curr_rt e c s)"
proof -
  let ?q = "task_cpu (tasks s (curr_of s c))"
  have c2: "rt_core s (charge_task c s)" unfolding charge_task_def
    by (intro rt_core_intros rt_core_refl) (simp_all add: core_task_def)
  have c3: "rt_core s (charge_rq c s)" unfolding charge_rq_def by (intro rt_core_intros c2) (simp add: core_rt_def)
  obtain x s4 where x: "sched_rt_runtime_exceeded e ?q (charge_rq c s) = (x, s4)" by (cases "sched_rt_runtime_exceeded e ?q (charge_rq c s)")
  have c4: "rt_core s s4" using exceeded_core [OF c3, of e ?q] x by simp
  then show ?thesis unfolding update_curr_rt_eq [OF x] using c2 rt_core_refl rt_core_resched [OF c4] by simp
qed

lemma watchdog_core: "rt_core s s' \<Longrightarrow> rt_core s (watchdog e t s')"
  by (auto simp: watchdog_def Let_def core_task_def intro!: rt_core_intros)

lemma update_rq_clock_core: "rt_core s s' \<Longrightarrow> rt_core s (update_rq_clock e c s')"
  by (auto simp: update_rq_clock_def Let_def core_rq_def intro!: rt_core_intros)

section \<open>Pushable tasks\<close>

definition push_ok :: "sched \<Rightarrow> rt_queues \<Rightarrow> (nat \<Rightarrow> nat list) \<Rightarrow> bool" where
  "push_ok s Q P \<longleftrightarrow> (\<exists>own. plist_ok (pushable s) P own) \<and>
     (\<forall>c. \<forall>t \<in> set (P c). t \<in> rtasks Q c \<and> nr_cpus_allowed (tasks s t) > 1 \<and> pl_prio (pushable s) t = prio_of s t)"

definition rt_ok :: "nat \<Rightarrow> sched \<Rightarrow> rt_queues \<Rightarrow> (nat \<Rightarrow> nat list) \<Rightarrow> bool" where
  "rt_ok nr s Q P \<longleftrightarrow> rt_inv nr s Q \<and> push_ok s Q P"

text \<open>What no queueing operation changes: who runs where, and what the tasks are.\<close>

definition rq_frame :: "sched \<Rightarrow> sched \<Rightarrow> bool" where
  "rq_frame s s' \<longleftrightarrow> (\<forall>t. core_task (tasks s' t) = core_task (tasks s t)) \<and>
     (\<forall>c. curr_of s' c = curr_of s c \<and> idle (rqs s' c) = idle (rqs s c) \<and> rd (rqs s' c) = rd (rqs s c) \<and>
        online (rqs s' c) = online (rqs s c)) \<and> local_cpu_mask s' = local_cpu_mask s"

lemma rq_frame_refl: "rq_frame s s"
  by (simp add: rq_frame_def)

lemma rq_frame_trans: "rq_frame s s' \<Longrightarrow> rq_frame s' s'' \<Longrightarrow> rq_frame s s''"
  by (simp add: rq_frame_def)

lemma rq_frame_core: "rt_core s s' \<Longrightarrow> rq_frame s s'"
  by (simp add: rq_frame_def rt_core_def core_rq_def)

lemma rq_frame_rt: "rt_frame s s' \<Longrightarrow> rq_frame s s'"
  using rt_frame_rq [of s s'] by (auto simp: rq_frame_def rt_frame_def)

lemma rq_frame_pushable: "rq_frame s (s\<lparr>pushable := pt\<rparr>)"
  by (simp add: rq_frame_def)

lemma rq_frame_fields:
  assumes "rq_frame s s'"
  shows "prio_of s' t = prio_of s t" "task_cpu (tasks s' t) = task_cpu (tasks s t)"
    "nr_cpus_allowed (tasks s' t) = nr_cpus_allowed (tasks s t)" "cpus_allowed (tasks s' t) = cpus_allowed (tasks s t)"
    "on_rq (tasks s' t) = on_rq (tasks s t)" "rt_class (tasks s' t) = rt_class (tasks s t)"
    "policy (tasks s' t) = policy (tasks s t)" "on_cpu (tasks s' t) = on_cpu (tasks s t)"
    "curr (rqs s' c) = curr (rqs s c)"
  using assms by (auto simp: rq_frame_def core_task_def)

lemma push_ok_cong:
  assumes "pushable s' = pushable s" "\<And>t. nr_cpus_allowed (tasks s' t) = nr_cpus_allowed (tasks s t)"
    "\<And>t. prio_of s' t = prio_of s t" "\<And>c t. t \<in> set (P c) \<Longrightarrow> t \<in> rtasks Q' c \<longleftrightarrow> t \<in> rtasks Q c"
  shows "push_ok s' Q' P = push_ok s Q P"
  using assms by (auto simp: push_ok_def)

lemma rt_ok_core: "rt_core s s' \<Longrightarrow> rt_ok nr s' Q P = rt_ok nr s Q P"
proof -
  assume a: "rt_core s s'"
  note f = rt_core_fields [OF a]
  have "push_ok s' Q P = push_ok s Q P" by (rule push_ok_cong) (simp_all add: f)
  with rt_inv_core [OF a] show ?thesis by (simp add: rt_ok_def)
qed

lemma push_ok_own:
  assumes p: "push_ok s Q P" and l: "lists_ok s Q" and t: "t \<in> set (P c)"
  shows "task_cpu (tasks s t) = c"
proof -
  have "t \<in> rtasks Q c" using p t by (auto simp: push_ok_def)
  then show ?thesis using lists_okD(4) [OF l] by (auto simp: rtasks_def)
qed

lemma rt_inv_pushable [simp]: "rt_inv nr (s\<lparr>pushable := pt\<rparr>) Q = rt_inv nr s Q"
  by (simp add: rt_inv_def lists_ok_def counts_ok_def heads_ok_def migratory_def over_ok_def over_cpus_def pri_ok_def)

lemma pl_insert_cong:
  assumes "f n = g n" "\<And>x. x \<in> set xs \<Longrightarrow> f x = g x"
  shows "pl_insert f n xs = pl_insert g n xs"
proof -
  have "takeWhile (\<lambda>x. f x \<le> f n) xs = takeWhile (\<lambda>x. g x \<le> g n) xs" "dropWhile (\<lambda>x. f x \<le> f n) xs = dropWhile (\<lambda>x. g x \<le> g n) xs"
    using assms by (auto intro: takeWhile_cong dropWhile_cong)
  then show ?thesis by (simp add: pl_insert_def)
qed

lemma pl_insert_set: "set (pl_insert f n xs) = insert n (set xs)"
  using set_append [of "takeWhile (\<lambda>x. f x \<le> f n) xs" "dropWhile (\<lambda>x. f x \<le> f n) xs"]
  by (simp add: pl_insert_def)

text \<open>Removing a task from the list of its CPU, whether it is there or not.\<close>

lemma plist_del_any:
  assumes ok: "plist_ok st P own" and only: "\<And>k. t \<in> set (P k) \<Longrightarrow> k = c"
  shows "plist_ok (plist_del st t c) (P(c := remove1 t (P c))) (own(t := None))"
proof (cases "own t")
  case None
  then have "t \<notin> set (P c)" using plist_ok_own [OF ok, of t c] by simp
  then have "P(c := remove1 t (P c)) = P" by (simp add: remove1_idem fun_upd_idem)
  moreover have "own(t := None) = own" using None by (simp add: fun_upd_idem)
  ultimately show ?thesis using plist_del_absent [OF ok None] ok by simp
next
  case (Some k)
  then have "k = c" using only plist_ok_own [OF ok, of t k] by simp
  then show ?thesis using plist_del_spec [OF ok] Some by simp
qed

lemma plist_del_prio: "pl_prio (plist_del st t c) = pl_prio st"
  by (simp add: plist_del_unlink)

lemma dequeue_pushable_spec:
  assumes p: "push_ok s Q P" and l: "lists_ok s Q" and c: "task_cpu (tasks s t) = c"
  shows "push_ok (dequeue_pushable_task c t s) Q (P(c := remove1 t (P c)))"
proof -
  obtain own where ok: "plist_ok (pushable s) P own" using p by (auto simp: push_ok_def)
  have only: "k = c" if "t \<in> set (P k)" for k using push_ok_own [OF p l that] c by simp
  have "plist_ok (plist_del (pushable s) t c) (P(c := remove1 t (P c))) (own(t := None))" by (rule plist_del_any [OF ok only])
  then show ?thesis using p set_remove1_subset [of t "P c"]
    unfolding push_ok_def dequeue_pushable_task_def by (auto simp: plist_del_prio split: if_splits)
qed

definition push_add :: "sched \<Rightarrow> nat \<Rightarrow> nat \<Rightarrow> (nat \<Rightarrow> nat list) \<Rightarrow> nat \<Rightarrow> nat list" where
  "push_add s c t P = P(c := pl_insert (prio_of s) t (remove1 t (P c)))"

lemma enqueue_pushable_spec:
  assumes p: "push_ok s Q P" and l: "lists_ok s Q" and t: "t \<in> rtasks Q c" "nr_cpus_allowed (tasks s t) > 1"
  shows "\<exists>pt. enqueue_pushable_task c t s = Inr (s\<lparr>pushable := pt\<rparr>) \<and> push_ok (s\<lparr>pushable := pt\<rparr>) Q (push_add s c t P)"
proof -
  obtain own where ok: "plist_ok (pushable s) P own" using p by (auto simp: push_ok_def)
  have c: "task_cpu (tasks s t) = c" using t(1) lists_okD(4) [OF l] by (auto simp: rtasks_def)
  have only: "k = c" if "t \<in> set (P k)" for k using push_ok_own [OF p l that] c by simp
  let ?P1 = "P(c := remove1 t (P c))"
  have ok1: "plist_ok (plist_del (pushable s) t c) ?P1 (own(t := None))" by (rule plist_del_any [OF ok only])
  have n1: "(own(t := None)) t = None" by simp
  note i = plist_node_init_ok [OF ok1 n1, of "prio_of s t"]
  let ?f = "(pl_prio (pushable s))(t := prio_of s t)"
  from plist_add_spec [OF i(1) n1, of c] obtain pt where
    a: "plist_add (plist_node_init (plist_del (pushable s) t c) t (prio_of s t)) t c = Some pt" "pl_prio pt = ?f"
      "plist_ok pt (?P1(c := pl_insert ?f t (?P1 c))) ((own(t := None))(t \<mapsto> c))"
    unfolding i(3) plist_del_prio by blast
  have sub: "set (remove1 t (P c)) \<subseteq> set (P c)" by (rule set_remove1_subset)
  have "pl_insert ?f t (remove1 t (P c)) = pl_insert (prio_of s) t (remove1 t (P c))"
    using p sub by (intro pl_insert_cong) (auto simp: push_ok_def)
  then have e: "?P1(c := pl_insert ?f t (?P1 c)) = push_add s c t P" by (simp add: push_add_def)
  have "push_ok (s\<lparr>pushable := pt\<rparr>) Q (push_add s c t P)"
    using p a(2,3) t sub unfolding e push_ok_def by (auto simp: push_add_def pl_insert_set split: if_splits)
  then show ?thesis using a(1) by (intro exI [of _ pt]) (simp add: enqueue_pushable_task_def)
qed

section \<open>Enqueue, dequeue, requeue\<close>

lemma on_rt_rq_iff:
  assumes l: "lists_ok s Q"
  shows "on_rt_rq s t \<longleftrightarrow> queued Q t"
proof (cases "queued Q t")
  case True
  then obtain c i where t: "t \<in> set (Q c i)" by (auto simp: queued_def)
  then show ?thesis using True lists_okD(1,2) [OF l t] fam_member_not_empty [OF lists_ok_fam [OF l], of "queue c i" _ "run_list t"]
    by (simp add: on_rt_rq_def)
next
  case False
  then show ?thesis using fam_empty [OF lists_ok_fam [OF l], of "run_list t" "[]"] by (simp add: on_rt_rq_def)
qed

lemma rtasks_queue:
  assumes "lists_ok s Q" "t \<in> rtasks Q c"
  shows "t \<in> set (Q c (prio_of s t))"
  using assms by (auto simp: rtasks_def lists_ok_def)

lemma rt_inv_task:
  "(\<And>p. core_task (f p) = core_task p) \<Longrightarrow> rt_core s (upd_task t f s)"
  by (intro rt_core_intros rt_core_refl)

lemma enqueue_task_rt_spec:
  assumes ok: "rt_ok nr s Q P" and n: "\<not> queued Q t" and pr: "0 \<le> prio_of s t" "prio_of s t < MAX_RT_PRIO"
    and c: "task_cpu (tasks s t) = c" "c < nr"
  shows "\<exists>s'. enqueue_task_rt c t flags s = Inr s' \<and> rq_frame s s' \<and>
    rt_ok nr s' (enq Q c (prio_of s t) t (flags AND ENQUEUE_HEAD \<noteq> 0))
      (if curr_of s c \<noteq> t \<and> nr_cpus_allowed (tasks s t) > 1 then push_add s c t P else P)"
proof -
  define s0 where "s0 = (if flags AND ENQUEUE_WAKEUP \<noteq> 0 then upd_task t (\<lambda>p. p\<lparr>timeout := 0\<rparr>) s else s)"
  have c0: "rt_core s s0" unfolding s0_def using rt_core_refl rt_inv_task [of "\<lambda>p. p\<lparr>timeout := 0\<rparr>"] by (simp add: core_task_def)
  note f0 = rt_core_fields [OF c0]
  have ok0: "rt_inv nr s0 Q" "push_ok s0 Q P" using ok rt_ok_core [OF c0] by (auto simp: rt_ok_def)
  let ?Q = "enq Q c (prio_of s t) t (flags AND ENQUEUE_HEAD \<noteq> 0)"
  have "\<not> on_rt_rq s0 t" using on_rt_rq_iff [OF rt_invD(1) [OF ok0(1)]] n by simp
  then have e: "enqueue_rt_entity t h s0 = raw_enqueue_rt_entity t h s0" for h
    by (simp add: enqueue_rt_entity_def dequeue_rt_stack_def)
  from raw_enqueue_spec [OF ok0(1) n, of "flags AND ENQUEUE_HEAD \<noteq> 0"] pr c f0 obtain s1 where
    s1: "raw_enqueue_rt_entity t (flags AND ENQUEUE_HEAD \<noteq> 0) s0 = Inr s1" "rt_frame s0 s1" "rt_inv nr s1 ?Q" by auto
  have fr: "rq_frame s s1" using rq_frame_trans [OF rq_frame_core [OF c0] rq_frame_rt [OF s1(2)]] .
  note g = rq_frame_fields [OF fr]
  have "push_ok s1 ?Q P = push_ok s0 Q P"
    using s1(2) ok0(2) by (intro push_ok_cong) (auto simp: rt_frame_def push_ok_def enq_rtasks)
  then have p1: "push_ok s1 ?Q P" using ok0 by simp
  have run: "enqueue_task_rt c t flags s =
      (if curr_of s c \<noteq> t \<and> nr_cpus_allowed (tasks s t) > 1 then enqueue_pushable_task c t s1 else Inr s1)"
    using s1(1) e g by (simp add: enqueue_task_rt_def s0_def [symmetric] task_current_def)
  show ?thesis
  proof (cases "curr_of s c \<noteq> t \<and> nr_cpus_allowed (tasks s t) > 1")
    case True
    have tin: "t \<in> rtasks ?Q c" by (simp add: enq_rtasks)
    from enqueue_pushable_spec [OF p1 rt_invD(1) [OF s1(3)] tin] True g obtain pt where
      pt: "enqueue_pushable_task c t s1 = Inr (s1\<lparr>pushable := pt\<rparr>)" "push_ok (s1\<lparr>pushable := pt\<rparr>) ?Q (push_add s1 c t P)" by auto
    have "push_add s1 c t P = push_add s c t P" by (simp add: push_add_def g)
    then show ?thesis using True run pt s1(3) rq_frame_trans [OF fr rq_frame_pushable] by (auto simp: rt_ok_def)
  next
    case False
    then show ?thesis using run p1 s1(3) fr unfolding rt_ok_def by auto
  qed
qed

lemma dequeue_task_rt_spec:
  assumes ok: "rt_ok nr s Q P" and t: "t \<in> set (Q c i)" and c: "c < nr"
  shows "\<exists>s'. dequeue_task_rt e c t flags s = Inr s' \<and> rq_frame s s' \<and>
    rt_ok nr s' (deq Q c i t) (P(c := remove1 t (P c)))"
proof -
  define s0 where "s0 = update_curr_rt e c s"
  have c0: "rt_core s s0" unfolding s0_def by (rule update_curr_rt_core)
  have ok0: "rt_inv nr s0 Q" "push_ok s0 Q P" using ok rt_ok_core [OF c0] by (auto simp: rt_ok_def)
  note l0 = rt_invD(1) [OF ok0(1)]
  have "on_rt_rq s0 t" using on_rt_rq_iff [OF l0] t by (auto simp: queued_def)
  moreover from raw_dequeue_spec [of nr s0 Q t c i, OF ok0(1) t c] obtain s1 where
    s1: "raw_dequeue_rt_entity t s0 = Inr s1" "rt_frame s0 s1" "rt_inv nr s1 (deq Q c i t)" by blast
  ultimately have run: "dequeue_task_rt e c t flags s = Inr (dequeue_pushable_task c t s1)"
    by (simp add: dequeue_task_rt_def s0_def [symmetric] dequeue_rt_entity_def dequeue_rt_stack_def)
  have fr: "rq_frame s s1" using rq_frame_trans [OF rq_frame_core [OF c0] rq_frame_rt [OF s1(2)]] .
  have fr': "rq_frame s (dequeue_pushable_task c t s1)"
    using rq_frame_trans [OF fr rq_frame_pushable] by (simp add: dequeue_pushable_task_def)
  have ps: "pushable s1 = pushable s0" "tasks s1 = tasks s0" using s1(2) by (auto simp: rt_frame_def)
  have "task_cpu (tasks s0 t) = c" using lists_okD(4) [OF l0 t] .
  from dequeue_pushable_spec [OF ok0(2) l0 this]
  have p: "push_ok (dequeue_pushable_task c t s0) Q (P(c := remove1 t (P c)))" .
  have dP: "distinct (P c')" for c' using ok0(2) plist_distinct by (auto simp: push_ok_def)
  have tP: "t \<notin> set (P c')" if "c' \<noteq> c" for c'
    using push_ok_own [OF ok0(2) l0, of t c'] lists_okD(4) [OF l0 t] that by auto
  have "push_ok (dequeue_pushable_task c t s1) (deq Q c i t) (P(c := remove1 t (P c))) =
      push_ok (dequeue_pushable_task c t s0) Q (P(c := remove1 t (P c)))"
  proof (rule push_ok_cong)
    fix c' t' assume "t' \<in> set ((P(c := remove1 t (P c))) c')"
    then have "t' \<noteq> t" using dP [of c] tP [of c'] by (auto split: if_splits)
    then show "t' \<in> rtasks (deq Q c i t) c' \<longleftrightarrow> t' \<in> rtasks Q c'" by (simp add: deq_rtasks [OF l0 t])
  qed (simp_all add: dequeue_pushable_task_def ps)
  then show ?thesis using run fr' s1(3) p by (auto simp: rt_ok_def dequeue_pushable_task_def)
qed

definition requeue :: "rt_queues \<Rightarrow> nat \<Rightarrow> int \<Rightarrow> nat \<Rightarrow> bool \<Rightarrow> rt_queues" where
  "requeue Q c i t head = enq (deq Q c i t) c i t head"

lemma requeue_apply: "requeue Q c i t head c' i' =
    (if c' = c \<and> i' = i then if head then t # remove1 t (Q c i) else remove1 t (Q c i) @ [t] else Q c' i')"
  by (simp add: requeue_def enq_apply deq_apply)

lemma requeue_set:
  assumes l: "lists_ok s Q" and t: "t \<in> set (Q c i)"
  shows "set (requeue Q c i t head c' i') = set (Q c' i')"
  using t lists_ok_distinct [OF l, of c i] by (auto simp: requeue_apply)

lemma requeue_lists:
  assumes l: "lists_ok s Q" and t: "t \<in> set (Q c i)"
  shows "lists_ok (requeue_task_rt c' t head s) (requeue Q c i t head)"
proof -
  note f = lists_ok_fam [OF l] and ti = lists_okD [OF l t]
  obtain xs ys where q: "Q c i = xs @ t # ys" "remove1 t (Q c i) = xs @ ys"
    using split_list_distinct [OF t lists_ok_distinct [OF l]] by blast
  have A: "rqA Q (queue c i) = Some (map run_list xs @ run_list t # map run_list ys)" using ti q(1) by simp
  let ?h = "if head then list_move (runq s) (run_list t) (queue c i) else list_move_tail (runq s) (run_list t) (queue c i)"
  have "requeue_task_rt c' t head s = s\<lparr>runq := ?h\<rparr>"
    using on_rt_rq_iff [OF l, of t] t ti by (auto simp: requeue_task_rt_def requeue_rt_entity_def rt_se_prio_def queued_def)
  moreover have "fam ?h (rqA (requeue Q c i t head))"
  proof -
    have qd: "queued (requeue Q c i t head) t' \<longleftrightarrow> queued Q t'" for t' by (simp add: queued_def requeue_set [OF l t])
    have "(rqA Q)(queue c i \<mapsto> (if head then run_list t # map run_list xs @ map run_list ys
        else (map run_list xs @ map run_list ys) @ [run_list t])) = rqA (requeue Q c i t head)"
    proof
      fix p
      show "((rqA Q)(queue c i \<mapsto> (if head then run_list t # map run_list xs @ map run_list ys
        else (map run_list xs @ map run_list ys) @ [run_list t]))) p = rqA (requeue Q c i t head) p"
        using ti q(2) by (auto simp: rqA_def qd requeue_apply split: lptr.splits rt_node.splits)
    qed
    then show ?thesis using fam_list_move [OF f A] fam_list_move_tail [OF f A] by auto
  qed
  ultimately show ?thesis using l unfolding lists_ok_def by (auto simp: requeue_set [OF l t])
qed

lemma requeue_runq: "\<exists>h. requeue_task_rt c t head s = s\<lparr>runq := h\<rparr>"
  by (auto simp: requeue_task_rt_def requeue_rt_entity_def Let_def intro: exI [of _ "runq s"])

lemma requeue_task_rt_spec:
  assumes ok: "rt_ok nr s Q P" and t: "t \<in> set (Q c i)"
  shows "rt_ok nr (requeue_task_rt c' t head s) (requeue Q c i t head) P"
proof -
  note inv = ok [unfolded rt_ok_def, THEN conjunct1]
  note l = rt_invD(1) [OF inv]
  let ?s = "requeue_task_rt c' t head s" and ?Q = "requeue Q c i t head"
  obtain h where h: "?s = s\<lparr>runq := h\<rparr>" using requeue_runq by blast
  have r: "rtasks ?Q k = rtasks Q k" for k by (simp add: rtasks_def requeue_set [OF l t])
  have "?Q k j = [] \<longleftrightarrow> Q k j = []" for k j using requeue_set [OF l t, of head k j] by (metis set_empty)
  then have b: "bits (?Q k) = bits (Q k)" for k by (simp add: bits_def)
  have "lists_ok ?s ?Q" by (rule requeue_lists [OF l t])
  moreover have "counts_ok ?s ?Q k \<and> heads_ok ?s ?Q k" if "k < nr" for k
    using rt_invD(2,3) [OF inv that] unfolding h by (simp add: counts_ok_def heads_ok_def migratory_def r b)
  moreover have "pri_ok nr ?s" "over_ok nr ?s"
    using inv unfolding h by (simp_all add: rt_inv_def pri_ok_def over_ok_def over_cpus_def)
  moreover have "push_ok ?s ?Q P = push_ok s Q P" unfolding h by (rule push_ok_cong) (simp_all add: r)
  ultimately show ?thesis using ok unfolding rt_ok_def rt_inv_def by blast
qed

lemma requeue_absent: "lists_ok s Q \<Longrightarrow> \<not> queued Q t \<Longrightarrow> requeue_task_rt c t head s = s"
  using on_rt_rq_iff by (simp add: requeue_task_rt_def requeue_rt_entity_def)

section \<open>Picking, putting back, ticking\<close>

lemma upd_rq_post_core: "rt_core s (upd_rq c (\<lambda>q. q\<lparr>post_schedule := b\<rparr>) s)"
  by (intro rt_core_intros rt_core_refl) (simp add: core_rq_def)

lemma head_queue:
  assumes inv: "rt_inv nr s Q" and c: "c < nr" and ne: "rtasks Q c \<noteq> {}"
  shows "hp_curr (rt_of s c) < MAX_RT_PRIO" "Q c (hp_curr (rt_of s c)) \<noteq> []"
    "sched_find_first_bit (bitmap (rt_of s c)) = hp_curr (rt_of s c)"
    "\<And>t. t \<in> rtasks Q c \<Longrightarrow> hp_curr (rt_of s c) \<le> prio_of s t"
proof -
  note l = rt_invD(1) [OF inv]
  have h: "bitmap (rt_of s c) = bits (Q c)" "least (bits (Q c)) (hp_curr (rt_of s c))"
    using rt_invD(3) [OF inv c] by (auto simp: heads_ok_def)
  have tb: "prio_of s t \<in> bits (Q c) \<and> prio_of s t < MAX_RT_PRIO" if "t \<in> rtasks Q c" for t
    using lists_okD [OF l rtasks_queue [OF l that]] rtasks_queue [OF l that] by (auto simp: bits_def)
  show le: "hp_curr (rt_of s c) \<le> prio_of s t" if "t \<in> rtasks Q c" for t
    using tb [OF that] h(2) by (auto simp: least_def)
  show lt: "hp_curr (rt_of s c) < MAX_RT_PRIO" using ne tb le by force
  show "Q c (hp_curr (rt_of s c)) \<noteq> []" using h(2) lt by (auto simp: least_def bits_def)
  show "sched_find_first_bit (bitmap (rt_of s c)) = hp_curr (rt_of s c)"
    using h bits_spec by (intro sched_find_first_bit_eq) (auto simp: least_def)
qed

lemma pick_next_task_rt_spec:
  assumes ok: "rt_ok nr s Q P" and c: "c < nr"
  defines "next \<equiv> if rtasks Q c = {} \<or> rt_throttled (rt_of s c) then None else Some (hd (Q c (hp_curr (rt_of s c))))"
  shows "\<exists>s'. pick_next_task_rt c s = Inr (next, s') \<and> rq_frame s s' \<and>
    rt_ok nr s' Q (case next of None \<Rightarrow> P | Some t \<Rightarrow> P(c := remove1 t (P c)))"
proof -
  note inv = ok [unfolded rt_ok_def, THEN conjunct1] and p = ok [unfolded rt_ok_def, THEN conjunct2]
  note l = rt_invD(1) [OF inv]
  have nr: "rt_nr_running (rt_of s c) = 0 \<longleftrightarrow> rtasks Q c = {}"
    using rt_invD(2) [OF inv c] rtasks_finite [OF l, of c] by (simp add: counts_ok_def)
  show ?thesis
  proof (cases "rtasks Q c = {} \<or> rt_throttled (rt_of s c)")
    case True
    let ?s = "upd_rq c (\<lambda>q. q\<lparr>post_schedule := has_pushable_tasks c s\<rparr>) s"
    have "pick_next_task_rt c s = Inr (None, ?s)"
      using True nr by (auto simp: pick_next_task_rt_def raw_pick_next_task_rt_def rt_rq_throttled_def)
    moreover have "rt_core s ?s" by (rule upd_rq_post_core)
    ultimately show ?thesis using True rq_frame_core rt_ok_core ok by (auto simp: next_def)
  next
    case False
    note hq = head_queue [OF inv c]
    let ?h = "hp_curr (rt_of s c)" and ?t = "hd (Q c (hp_curr (rt_of s c)))"
    have ne: "rtasks Q c \<noteq> {}" using False by simp
    have t: "?t \<in> set (Q c ?h)" using hq(2) [OF ne] by simp
    note ti = lists_okD [OF l t]
    have "is_list (runq s) (queue c ?h) (map run_list (Q c ?h))" using famD [OF lists_ok_fam [OF l], of "queue c ?h"] ti by simp
    from is_list_head_next [OF this] have n: "nxt (runq s) (queue c ?h) = run_list ?t" using hq(2) [OF ne] by (cases "Q c ?h") auto
    define s1 where "s1 = upd_task ?t (\<lambda>p. p\<lparr>exec_start := clock_task (rqs s c)\<rparr>) s"
    have c1: "rt_core s s1" unfolding s1_def by (intro rt_core_intros rt_core_refl) (simp add: core_task_def)
    define s2 where "s2 = dequeue_pushable_task c ?t s1"
    let ?s = "upd_rq c (\<lambda>q. q\<lparr>post_schedule := has_pushable_tasks c s2\<rparr>) s2"
    have run: "pick_next_task_rt c s = Inr (Some ?t, ?s)"
      using False nr n hq(1,3) [OF ne]
      by (simp add: pick_next_task_rt_def raw_pick_next_task_rt_def rt_rq_throttled_def pick_next_rt_entity_def s1_def s2_def Let_def)
    have ok1: "rt_inv nr s1 Q" "push_ok s1 Q P" using ok rt_ok_core [OF c1] by (auto simp: rt_ok_def)
    have "task_cpu (tasks s1 ?t) = c" using ti(4) rt_core_fields(21) [OF c1] by simp
    from dequeue_pushable_spec [OF ok1(2) rt_invD(1) [OF ok1(1)] this]
    have "rt_ok nr s2 Q (P(c := remove1 ?t (P c)))" using ok1(1) by (simp add: rt_ok_def s2_def dequeue_pushable_task_def)
    then have "rt_ok nr ?s Q (P(c := remove1 ?t (P c)))" using rt_ok_core [OF upd_rq_post_core] by blast
    moreover have "rq_frame s ?s"
    proof -
      have "rq_frame s1 s2" unfolding s2_def dequeue_pushable_task_def by (rule rq_frame_pushable)
      then show ?thesis using rq_frame_trans rq_frame_core [OF c1] rq_frame_core [OF upd_rq_post_core] by blast
    qed
    ultimately show ?thesis using run False by (simp add: next_def)
  qed
qed

lemma put_prev_task_rt_spec:
  assumes ok: "rt_ok nr s Q P" and t: "queued Q t \<Longrightarrow> t \<in> rtasks Q c"
  shows "\<exists>s'. put_prev_task_rt e c t s = Inr s' \<and> rq_frame s s' \<and>
    rt_ok nr s' Q (if queued Q t \<and> nr_cpus_allowed (tasks s t) > 1 then push_add s c t P else P)"
proof -
  define s1 where "s1 = upd_task t (\<lambda>p. p\<lparr>exec_start := 0\<rparr>) (update_curr_rt e c s)"
  have c1: "rt_core s s1" unfolding s1_def by (intro rt_core_intros update_curr_rt_core) (simp add: core_task_def)
  note g = rt_core_fields [OF c1]
  have ok1: "rt_inv nr s1 Q" "push_ok s1 Q P" using ok rt_ok_core [OF c1] by (auto simp: rt_ok_def)
  note l1 = rt_invD(1) [OF ok1(1)]
  have run: "put_prev_task_rt e c t s = (if queued Q t \<and> nr_cpus_allowed (tasks s t) > 1 then enqueue_pushable_task c t s1 else Inr s1)"
    using on_rt_rq_iff [OF l1] g by (simp add: put_prev_task_rt_def s1_def [symmetric] Let_def)
  show ?thesis
  proof (cases "queued Q t \<and> nr_cpus_allowed (tasks s t) > 1")
    case True
    from enqueue_pushable_spec [OF ok1(2) l1, of t c] True t g obtain pt where
      pt: "enqueue_pushable_task c t s1 = Inr (s1\<lparr>pushable := pt\<rparr>)" "push_ok (s1\<lparr>pushable := pt\<rparr>) Q (push_add s1 c t P)" by auto
    have "push_add s1 c t P = push_add s c t P" by (simp add: push_add_def g)
    then show ?thesis using True run pt ok1(1) rq_frame_trans [OF rq_frame_core [OF c1] rq_frame_pushable] by (auto simp: rt_ok_def)
  next
    case False
    then show ?thesis using run ok1 rq_frame_core [OF c1] unfolding rt_ok_def by auto
  qed
qed

lemma set_curr_task_rt_spec:
  assumes ok: "rt_ok nr s Q P" and c: "task_cpu (tasks s (curr_of s c)) = c"
  shows "rt_ok nr (set_curr_task_rt c s) Q (P(c := remove1 (curr_of s c) (P c)))"
proof -
  let ?t = "curr_of s c"
  define s1 where "s1 = upd_task ?t (\<lambda>p. p\<lparr>exec_start := clock_task (rqs s c)\<rparr>) s"
  have c1: "rt_core s s1" unfolding s1_def by (intro rt_core_intros rt_core_refl) (simp add: core_task_def)
  have ok1: "rt_inv nr s1 Q" "push_ok s1 Q P" using ok rt_ok_core [OF c1] by (auto simp: rt_ok_def)
  have "task_cpu (tasks s1 ?t) = c" using c rt_core_fields(21) [OF c1] by simp
  note d = dequeue_pushable_spec [OF ok1(2) rt_invD(1) [OF ok1(1)] this]
  have "set_curr_task_rt c s = dequeue_pushable_task c ?t s1" by (simp add: set_curr_task_rt_def s1_def Let_def)
  moreover have "rt_inv nr (dequeue_pushable_task c ?t s1) Q" using ok1(1) by (simp add: dequeue_pushable_task_def)
  ultimately show ?thesis using d by (simp add: rt_ok_def)
qed

lemma rt_ok_upd_task:
  assumes "\<And>p. prio (f p) = prio p" "\<And>p. task_cpu (f p) = task_cpu p" "\<And>p. nr_cpus_allowed (f p) = nr_cpus_allowed p"
  shows "rt_ok nr (upd_task t f s) Q P = rt_ok nr s Q P"
proof -
  have e: "prio_of (upd_task t f s) t' = prio_of s t'" "task_cpu (tasks (upd_task t f s) t') = task_cpu (tasks s t')"
    "nr_cpus_allowed (tasks (upd_task t f s) t') = nr_cpus_allowed (tasks s t')" for t'
    using assms by (simp_all add: upd_task_def)
  have "lists_ok (upd_task t f s) Q = lists_ok s Q" by (rule lists_ok_cong) (simp_all add: e)
  moreover have "push_ok (upd_task t f s) Q P = push_ok s Q P" by (rule push_ok_cong) (simp_all add: e)
  ultimately show ?thesis
    by (simp add: rt_ok_def rt_inv_def counts_ok_def heads_ok_def migratory_def e pri_ok_def over_ok_def over_cpus_def)
qed

lemma alone_on_queue:
  assumes l: "lists_ok s Q"
  shows "prv (runq s) (run_list t) \<noteq> nxt (runq s) (run_list t) \<longleftrightarrow>
    (t \<in> set (Q (task_cpu (tasks s t)) (prio_of s t)) \<and> length (Q (task_cpu (tasks s t)) (prio_of s t)) > 1)"
proof (cases "queued Q t")
  case True
  then obtain c i where t: "t \<in> set (Q c i)" by (auto simp: queued_def)
  note ti = lists_okD [OF l t]
  obtain xs ys where q: "Q c i = xs @ t # ys" using split_list [OF t] by blast
  have "rqA Q (queue c i) = Some (map run_list xs @ run_list t # map run_list ys)" using ti(1,2) q by simp
  from famD [OF lists_ok_fam [OF l] this]
  have il: "is_list (runq s) (queue c i) (map run_list xs @ run_list t # map run_list ys)" .
  have d: "set xs \<inter> set ys = {}" using lists_ok_distinct [OF l, of c i] q by auto
  have "last (queue c i # map run_list xs) \<noteq> hd (map run_list ys @ [queue c i]) \<longleftrightarrow> xs \<noteq> [] \<or> ys \<noteq> []"
  proof (cases "xs = [] \<or> ys = []")
    case True
    then show ?thesis by (cases xs rule: rev_cases; cases ys) auto
  next
    case False
    then have "last xs \<noteq> hd ys" using d last_in_set [of xs] hd_in_set [of ys] by (metis IntI empty_iff)
    then show ?thesis using False by (simp add: last_map hd_append hd_map)
  qed
  then show ?thesis using is_list_next [OF il] is_list_prev [OF il] t ti q by auto
next
  case False
  then have "is_list (runq s) (run_list t) []" using famD [OF lists_ok_fam [OF l], of "run_list t"] by simp
  from is_list_head_next [OF this] is_list_head_prev [OF this] show ?thesis using False by (auto simp: queued_def)
qed

text \<open>The tick: a round-robin task whose time slice ends goes behind the other tasks of its priority.\<close>

lemma task_tick_rt_spec:
  fixes t :: nat
  assumes ok: "rt_ok nr s Q P"
  defines "c' \<equiv> task_cpu (tasks s t)" and "i \<equiv> prio_of s t" and "k \<equiv> u32 (time_slice (tasks s t) - 1)"
  defines "rot \<equiv> policy (tasks s t) = SCHED_RR \<and> k = 0 \<and> t \<in> set (Q c' i) \<and> length (Q c' i) > 1"
  shows "rt_ok nr (task_tick_rt e c t s) (if rot then requeue Q c' i t False else Q) P"
    "time_slice (tasks (task_tick_rt e c t s) t) =
       (if policy (tasks s t) \<noteq> SCHED_RR then time_slice (tasks s t) else if k = 0 then DEF_TIMESLICE e else k)"
    "rot \<Longrightarrow> need_resched (tasks (task_tick_rt e c t s) t)"
proof -
  define s1 where "s1 = watchdog e t (update_curr_rt e c s)"
  have c1: "rt_core s s1" unfolding s1_def by (intro watchdog_core update_curr_rt_core)
  note g = rt_core_fields [OF c1]
  have ok1: "rt_ok nr s1 Q P" using ok rt_ok_core [OF c1] by simp
  define s2 where "s2 = upd_task t (\<lambda>p. p\<lparr>time_slice := u32 (time_slice p - 1)\<rparr>) s1"
  define s3 where "s3 = upd_task t (\<lambda>p. p\<lparr>time_slice := DEF_TIMESLICE e\<rparr>) s2"
  have ok2: "rt_ok nr s2 Q P" unfolding s2_def using ok1 by (simp add: rt_ok_upd_task)
  have ok3: "rt_ok nr s3 Q P" unfolding s3_def using ok2 by (simp add: rt_ok_upd_task)
  have l3: "lists_ok s3 Q" using ok3 by (simp add: rt_ok_def rt_inv_def)
  have f3: "task_cpu (tasks s3 t) = c'" "prio_of s3 t = i" "time_slice (tasks s3 t) = DEF_TIMESLICE e"
    "time_slice (tasks s2 t) = k" by (simp_all add: s3_def s2_def upd_task_def g c'_def i_def k_def)
  have run: "task_tick_rt e c t s =
      (if policy (tasks s t) \<noteq> SCHED_RR then s1 else if k \<noteq> 0 then s2
       else if t \<in> set (Q c' i) \<and> length (Q c' i) > 1 then set_tsk_need_resched t (requeue_task_rt c t False s3) else s3)"
    unfolding task_tick_rt_def Let_def s1_def [symmetric] s2_def [symmetric] s3_def [symmetric]
    using f3 alone_on_queue [OF l3, of t] by (simp add: g)
  have "rt_ok nr (set_tsk_need_resched t (requeue_task_rt c t False s3)) (requeue Q c' i t False) P" if "t \<in> set (Q c' i)"
    unfolding set_tsk_need_resched_def using requeue_task_rt_spec [OF ok3 that, of c False] by (simp add: rt_ok_upd_task)
  then show "rt_ok nr (task_tick_rt e c t s) (if rot then requeue Q c' i t False else Q) P"
    unfolding run rot_def using ok1 ok2 ok3 by simp
  obtain h where h: "requeue_task_rt c t False s3 = s3\<lparr>runq := h\<rparr>" using requeue_runq by blast
  show "time_slice (tasks (task_tick_rt e c t s) t) =
       (if policy (tasks s t) \<noteq> SCHED_RR then time_slice (tasks s t) else if k = 0 then DEF_TIMESLICE e else k)"
    unfolding run h using f3 by (simp add: g set_tsk_need_resched_def upd_task_def)
  show "rot \<Longrightarrow> need_resched (tasks (task_tick_rt e c t s) t)"
    unfolding run rot_def by (simp add: set_tsk_need_resched_def upd_task_def)
qed

section \<open>Changing the affinity of a task\<close>

lemma enqueue_pushable_dep:
  assumes "enqueue_pushable_task c t s = Inr (s\<lparr>pushable := pt\<rparr>)" "pushable s' = pushable s" "prio_of s' t = prio_of s t"
  shows "enqueue_pushable_task c t s' = Inr (s'\<lparr>pushable := pt\<rparr>)"
proof -
  from assms(1) have "run_of_loop (plist_add (plist_node_init (plist_del (pushable s) t c) t (prio_of s t)) t c) = Inr pt"
    by (auto simp: enqueue_pushable_task_def run_bind_Inr_iff dest: arg_cong [of _ _ pushable])
  then show ?thesis using assms(2,3) by (simp add: enqueue_pushable_task_def)
qed

definition set_mask :: "sched_env \<Rightarrow> nat set \<Rightarrow> task \<Rightarrow> task" where
  "set_mask e m p = p\<lparr>cpus_allowed := m, nr_cpus_allowed := cpumask_weight e m\<rparr>"

lemma set_mask_fields [simp]:
  "prio (set_mask e m p) = prio p" "task_cpu (set_mask e m p) = task_cpu p" "on_rq (set_mask e m p) = on_rq p"
  "nr_cpus_allowed (set_mask e m p) = cpumask_weight e m" "cpus_allowed (set_mask e m p) = m"
  by (simp_all add: set_mask_def)

text \<open>The list of pushable tasks for the new affinity.\<close>

lemma set_mask_pushable:
  assumes p: "push_ok s Q P" and l: "lists_ok s Q" and t: "t \<in> rtasks Q c"
    and cur: "curr_of s c = t \<Longrightarrow> t \<notin> set (P c)"
  shows "\<exists>pt P'. (if \<not> task_current s c t
      then let s = (if nr_cpus_allowed (tasks s t) > 1 then dequeue_pushable_task c t s else s)
           in if cpumask_weight e m > 1 then enqueue_pushable_task c t s else Inr s
      else Inr s) = Inr (s\<lparr>pushable := pt\<rparr>) \<and> push_ok (upd_task t (set_mask e m) (s\<lparr>pushable := pt\<rparr>)) Q P' \<and>
    P' = (if curr_of s c \<noteq> t \<and> cpumask_weight e m > 1 then push_add s c t P else P(c := remove1 t (P c)))"
proof -
  have c: "task_cpu (tasks s t) = c" using t lists_okD(4) [OF l] by (auto simp: rtasks_def)
  let ?P0 = "P(c := remove1 t (P c))" and ?s0 = "dequeue_pushable_task c t s"
  have p0: "push_ok ?s0 Q ?P0" by (rule dequeue_pushable_spec [OF p l c])
  have dP: "distinct (P c)" using p plist_distinct by (auto simp: push_ok_def)
  have tP: "t \<notin> set (?P0 c')" for c' using dP push_ok_own [OF p l, of t c'] c by auto
  have mask: "push_ok (upd_task t (set_mask e m) s1) Q P1" if "push_ok s1 Q P1" "\<And>c'. t \<notin> set (P1 c')" for s1 P1
    using that unfolding push_ok_def upd_task_def by (auto split: if_splits)
  have off: "?s0 = s" "?P0 = P" if "t \<notin> set (P c)"
  proof -
    obtain own where ok: "plist_ok (pushable s) P own" using p by (auto simp: push_ok_def)
    have "t \<notin> set (P c')" for c' using push_ok_own [OF p l, of t c'] c that by auto
    then have "own t = None" using plist_ok_own [OF ok, of t] by (cases "own t") auto
    then show "?s0 = s" using plist_del_absent [OF ok] by (simp add: dequeue_pushable_task_def)
    show "?P0 = P" using that by (simp add: remove1_idem fun_upd_idem)
  qed
  have s0: "(if nr_cpus_allowed (tasks s t) > 1 then ?s0 else s) = ?s0"
  proof (cases "nr_cpus_allowed (tasks s t) > 1")
    case False
    then have "t \<notin> set (P c)" using p by (auto simp: push_ok_def)
    then show ?thesis using off(1) False by simp
  qed simp
  show ?thesis
  proof (cases "curr_of s c = t")
    case True
    then have o: "?s0 = s" "?P0 = P" using off cur by auto
    show ?thesis using True o mask [of ?s0 ?P0, OF p0 tP]
      by (intro exI [of _ "pushable s"] exI [of _ P]) (simp add: task_current_def)
  next
    case False
    show ?thesis
    proof (cases "cpumask_weight e m > 1")
      case w: True
      let ?s1 = "upd_task t (set_mask e m) ?s0"
      have l1: "lists_ok ?s1 Q"
        using l by (subst lists_ok_cong [where s = s]) (auto simp: upd_task_def dequeue_pushable_task_def)
      have "nr_cpus_allowed (tasks ?s1 t) > 1" using w by (simp add: upd_task_def)
      from enqueue_pushable_spec [OF mask [of ?s0 ?P0, OF p0 tP] l1 t this] obtain pt where
        pt: "enqueue_pushable_task c t ?s1 = Inr (?s1\<lparr>pushable := pt\<rparr>)" "push_ok (?s1\<lparr>pushable := pt\<rparr>) Q (push_add ?s1 c t ?P0)"
        by blast
      have e1: "enqueue_pushable_task c t ?s0 = Inr (s\<lparr>pushable := pt\<rparr>)"
        using enqueue_pushable_dep [OF pt(1), of ?s0] by (simp add: upd_task_def dequeue_pushable_task_def)
      have e2: "?s1\<lparr>pushable := pt\<rparr> = upd_task t (set_mask e m) (s\<lparr>pushable := pt\<rparr>)"
        by (simp add: upd_task_def dequeue_pushable_task_def)
      have e3: "push_add ?s1 c t ?P0 = push_add s c t P"
      proof -
        have "prio_of ?s1 = prio_of s" by (auto simp: upd_task_def dequeue_pushable_task_def)
        moreover have "remove1 t (remove1 t (P c)) = remove1 t (P c)" using dP by (simp add: remove1_idem)
        ultimately show ?thesis by (simp add: push_add_def)
      qed
      show ?thesis using False w e1 pt(2) unfolding e2 e3 Let_def s0
        by (intro exI [of _ pt] exI [of _ "push_add s c t P"]) (simp add: task_current_def)
    next
      case w: False
      then show ?thesis using False mask [of ?s0 ?P0, OF p0 tP] unfolding Let_def s0
        by (intro exI [of _ "plist_del (pushable s) t c"] exI [of _ ?P0])
          (simp add: task_current_def dequeue_pushable_task_def)
    qed
  qed
qed

lemma set_mask_inv:
  assumes inv: "rt_inv nr s Q" and t: "t \<in> rtasks Q c" and c: "c < nr"
    and k: "k = (if nr_cpus_allowed (tasks s t) \<le> 1 \<and> cpumask_weight e m > 1 then 1
      else if nr_cpus_allowed (tasks s t) > 1 \<and> cpumask_weight e m \<le> 1 then - 1 else 0)"
  defines "s2 \<equiv> upd_rt c (\<lambda>r. r\<lparr>rt_nr_migratory := rt_nr_migratory r + k\<rparr>) s"
  shows "rt_inv nr (upd_task t (set_mask e m) (update_rt_migration c s2)) Q"
    "k = - 1 \<Longrightarrow> rt_nr_migratory (rt_of s c) \<noteq> 0"
proof -
  note iv = rt_invD [OF inv]
  let ?M = "migratory s (rtasks Q c)" and ?s = "upd_task t (set_mask e m) (update_rt_migration c s2)"
  have fin: "finite ?M" using rtasks_finite [OF iv(1)] by (simp add: migratory_def)
  have tM: "t \<in> ?M \<longleftrightarrow> nr_cpus_allowed (tasks s t) > 1" using t by (simp add: migratory_def)
  have m0: "rt_nr_migratory (rt_of s c) = int (card ?M)" using iv(2) [OF c] by (simp add: counts_ok_def)
  show "rt_nr_migratory (rt_of s c) \<noteq> 0" if "k = - 1"
    using that k tM fin unfolding m0 by (auto split: if_splits)
  have m1: "migratory ?s (rtasks Q c) = (if cpumask_weight e m > 1 then insert t ?M else ?M - {t})"
    using t by (auto simp: migratory_def update_rt_migration_eq s2_def upd_task_def)
  have m2: "int (card ?M) + k = int (card (migratory ?s (rtasks Q c)))"
    unfolding m1 k using tM fin card_Suc_Diff1 [OF fin, of t] by (auto simp: insert_absorb)
  have tc: "task_cpu (tasks s t) = c" using rtasks_queue [OF iv(1) t] lists_okD(4) [OF iv(1)] by blast
  show "rt_inv nr ?s Q"
  proof (rule rt_inv_change [OF inv, where c = c])
    fix c' assume c': "c' \<noteq> c"
    then have "t \<notin> rtasks Q c'" using rtasks_queue [OF iv(1), of t c'] lists_okD(4) [OF iv(1), of t c'] tc by blast
    then show "migratory ?s (rtasks Q c') = migratory s (rtasks Q c')"
      by (auto simp: migratory_def update_rt_migration_eq s2_def upd_task_def)
  next
    show "lists_ok ?s Q" using iv(1)
      by (subst lists_ok_cong [where s = s]) (auto simp: update_rt_migration_eq s2_def upd_task_def)
    show "counts_ok ?s Q c" using iv(2) [OF c] m0 m2
      by (auto simp: counts_ok_def update_rt_migration_eq s2_def)
    show "heads_ok ?s Q c" using iv(3) [OF c] by (simp add: heads_ok_def update_rt_migration_eq s2_def)
    show "pri_at nr ?s (\<lambda>c. hp_curr (rt_of ?s c))"
      using iv(4) by (subst pri_at_cong [where s = s]) (auto simp: update_rt_migration_eq s2_def)
    have "over_ok nr s2 = over_ok nr s" by (rule over_ok_cong) (auto simp: s2_def)
    then have "over_ok nr (update_rt_migration c s2)" unfolding update_rt_migration_eq using iv(5) set_over_ok [OF _ c] by blast
    then show "over_ok nr ?s" by (simp add: over_ok_def over_cpus_def)
  qed (auto simp: update_rt_migration_eq s2_def)
qed

lemma set_cpus_allowed_rt_spec:
  assumes ok: "rt_ok nr s Q P" and rt: "rt_task s t" and c: "task_cpu (tasks s t) = c" "c < nr"
    and on: "on_rq (tasks s t) \<longleftrightarrow> queued Q t" and cur: "\<And>k. curr_of s k \<notin> set (P k)"
  shows "\<exists>s' P'. set_cpus_allowed_rt e t m s = Inr s' \<and> rt_ok nr s' Q P' \<and> tasks s' = (tasks s)(t := set_mask e m (tasks s t)) \<and>
    (\<forall>k. curr_of s' k = curr_of s k \<and> idle (rqs s' k) = idle (rqs s k) \<and> curr_of s k \<notin> set (P' k)) \<and> (\<forall>k. set (P' k) \<subseteq> (if k = c \<and> curr_of s c \<noteq> t then insert t (set (P k)) else set (P k))) \<and>
    local_cpu_mask s' = local_cpu_mask s"
proof -
  let ?w = "cpumask_weight e m"
  note inv = ok [unfolded rt_ok_def, THEN conjunct1] and p = ok [unfolded rt_ok_def, THEN conjunct2]
  note l = rt_invD(1) [OF inv]
  have fin: "(\<lambda>p. p\<lparr>cpus_allowed := m, nr_cpus_allowed := ?w\<rparr>) = set_mask e m" by (auto simp: set_mask_def)
  show ?thesis
  proof (cases "on_rq (tasks s t) \<and> ?w \<noteq> nr_cpus_allowed (tasks s t)")
    case True
    then obtain c' where "t \<in> rtasks Q c'" using on by (auto simp: queued_rtasks)
    then have t: "t \<in> rtasks Q c" using rtasks_queue [OF l] lists_okD(4) [OF l] c(1) by metis
    have cur': "curr_of s c = t \<Longrightarrow> t \<notin> set (P c)" using cur [of c] by auto
    from set_mask_pushable [OF p l t cur', of e m] obtain pt P' where
      pt: "(if \<not> task_current s c t
      then let s = (if nr_cpus_allowed (tasks s t) > 1 then dequeue_pushable_task c t s else s)
           in if ?w > 1 then enqueue_pushable_task c t s else Inr s else Inr s) = Inr (s\<lparr>pushable := pt\<rparr>)"
      and P': "push_ok (upd_task t (set_mask e m) (s\<lparr>pushable := pt\<rparr>)) Q P'"
        "P' = (if curr_of s c \<noteq> t \<and> ?w > 1 then push_add s c t P else P(c := remove1 t (P c)))" by blast
    have sP: "set (P' k) \<subseteq> (if k = c \<and> curr_of s c \<noteq> t then insert t (set (P k)) else set (P k))" for k
      using P'(2) set_remove1_subset [of t "P c"] by (auto simp: push_add_def pl_insert_set)
    have cP: "curr_of s k \<notin> set (P' k)" for k using sP [of k] cur [of k] by (auto split: if_splits)
    define s1 where "s1 = s\<lparr>pushable := pt\<rparr>"
    define k :: int where "k = (if nr_cpus_allowed (tasks s1 t) \<le> 1 \<and> ?w > 1 then 1
      else if nr_cpus_allowed (tasks s1 t) > 1 \<and> ?w \<le> 1 then - 1 else 0)"
    have inv1: "rt_inv nr s1 Q" using inv by (simp add: s1_def)
    note mi = set_mask_inv [OF inv1 t c(2), of k e m, OF k_def]
    define s2 where "s2 = upd_rt c (\<lambda>r. r\<lparr>rt_nr_migratory := rt_nr_migratory r + k\<rparr>) s1"
    have same: "upd_rt c (\<lambda>r. r\<lparr>rt_nr_migratory := rt_nr_migratory r\<rparr>) s1 = s1" by (rule upd_rt_idem) simp
    have T: "on_rq (tasks s t) = True" "(?w \<noteq> nr_cpus_allowed (tasks s t)) = True" using True by auto
    have "set_cpus_allowed_rt e t m s = run_bind
        (if nr_cpus_allowed (tasks s1 t) \<le> 1 \<and> ?w > 1
         then Inr (upd_rt c (\<lambda>r. r\<lparr>rt_nr_migratory := rt_nr_migratory r + 1\<rparr>) s1)
         else if nr_cpus_allowed (tasks s1 t) > 1 \<and> ?w \<le> 1
         then if rt_nr_migratory (rt_of s1 c) = 0 then Inl Bug
              else Inr (upd_rt c (\<lambda>r. r\<lparr>rt_nr_migratory := rt_nr_migratory r - 1\<rparr>) s1)
         else Inr s1)
        (\<lambda>s. Inr (upd_task t (set_mask e m) (update_rt_migration c s)))"
      by (simp only: set_cpus_allowed_rt_def Let_def fin c(1) pt [unfolded Let_def, folded s1_def] rt T
          not_True_eq_False if_False if_True simp_thms run_bind_simps)
    then have "set_cpus_allowed_rt e t m s = Inr (upd_task t (set_mask e m) (update_rt_migration c s2))"
      using mi(2) same by (auto simp: s2_def k_def)
    moreover have "push_ok (upd_task t (set_mask e m) (update_rt_migration c s2)) Q P'"
      using P'(1) by (subst push_ok_cong [where s = "upd_task t (set_mask e m) s1"])
        (auto simp: update_rt_migration_eq s2_def s1_def upd_task_def)
    ultimately show ?thesis using mi(1) [folded s2_def]
      by (intro exI [of _ "upd_task t (set_mask e m) (update_rt_migration c s2)"] exI [of _ P'])
        (use sP in \<open>simp add: rt_ok_def upd_task_def update_rt_migration_eq set_over_def upd_rt_def upd_rq_def upd_rd_def s2_def s1_def cP\<close>)
  next
    case False
    let ?s = "upd_task t (set_mask e m) s"
    have run: "set_cpus_allowed_rt e t m s = Inr ?s"
      unfolding set_cpus_allowed_rt_def Let_def fin using False rt by auto
    have same: "nr_cpus_allowed (tasks ?s t') = nr_cpus_allowed (tasks s t')" if "queued Q t'" for t'
      using False on that by (auto simp: upd_task_def)
    have mg: "migratory ?s (rtasks Q k) = migratory s (rtasks Q k)" for k
    proof -
      have "nr_cpus_allowed (tasks ?s t') = nr_cpus_allowed (tasks s t')" if "t' \<in> rtasks Q k" for t'
        using same queued_rtasks that by blast
      then show ?thesis by (auto simp: migratory_def)
    qed
    have "lists_ok ?s Q" using l by (subst lists_ok_cong [where s = s]) (auto simp: upd_task_def)
    then have "rt_inv nr ?s Q" using inv
      by (simp add: rt_inv_def counts_ok_def heads_ok_def mg pri_ok_def over_ok_def over_cpus_def)
    moreover have "push_ok ?s Q P"
    proof -
      have "nr_cpus_allowed (tasks ?s t') = nr_cpus_allowed (tasks s t')" if "t' \<in> set (P k)" for t' k
        using same [of t'] p that by (auto simp: push_ok_def queued_rtasks)
      then show ?thesis using p unfolding push_ok_def by (auto simp: upd_task_def)
    qed
    ultimately show ?thesis using run cur by (intro exI [of _ ?s] exI [of _ P]) (auto simp: rt_ok_def upd_task_def)
  qed
qed

end
