(* ===== verification/Sched_Push.thy ===== *)
theory Sched_Push
  imports Sched_Ops
begin

text \<open>
  Moving tasks between CPUs: the search for the CPU of lowest priority, and pushing. The environment is
  quiet when no other CPU changes the state while \<open>double_lock_balance\<close> has dropped the lock; then
  pushing a task moves the first pushable task to a CPU that runs at lower priority, and pushing all of
  them ends.
\<close>

section \<open>The CPU of lowest priority\<close>

text \<open>The CPUs of the domain of \<open>t\<close> that may run \<open>t\<close> and are at a lower priority than \<open>t\<close>.\<close>

definition targets :: "nat \<Rightarrow> sched \<Rightarrow> nat \<Rightarrow> nat set" where
  "targets nr s t = {c. c < nr \<and> c \<in> cpus_allowed (tasks s t) \<and> rd (rqs s c) = rd (rqs s (task_cpu (tasks s t))) \<and>
     online (rqs s c) \<and> prio_of s t < hp_curr (rt_of s c)}"

definition best_target :: "nat \<Rightarrow> sched \<Rightarrow> nat \<Rightarrow> nat \<Rightarrow> bool" where
  "best_target nr s t c \<longleftrightarrow> c \<in> targets nr s t \<and> (\<forall>d \<in> targets nr s t. hp_curr (rt_of s d) \<le> hp_curr (rt_of s c))"

lemma cpumask_first_spec: "cpumask_first e m < nr_cpu_ids e \<Longrightarrow> cpumask_first e m \<in> m"
  "i \<in> m \<Longrightarrow> i < nr_cpu_ids e \<Longrightarrow> cpumask_first e m < nr_cpu_ids e"
proof -
  let ?xs = "filter (\<lambda>i. i \<in> m) [0..<nr_cpu_ids e]"
  have f: "cpumask_first e m = (case ?xs of [] \<Rightarrow> nr_cpu_ids e | i # _ \<Rightarrow> i)" by (simp add: cpumask_first_def)
  have s: "set ?xs = {i. i < nr_cpu_ids e \<and> i \<in> m}" by auto
  show "cpumask_first e m < nr_cpu_ids e \<Longrightarrow> cpumask_first e m \<in> m" using f s by (cases ?xs) auto
  show "i \<in> m \<Longrightarrow> i < nr_cpu_ids e \<Longrightarrow> cpumask_first e m < nr_cpu_ids e" using f s by (cases ?xs) auto
qed

lemma find_domain_loop_mask:
  "find_domain_loop e m this sds = Some i \<Longrightarrow> (\<And>k. this = Some k \<Longrightarrow> k \<in> m) \<Longrightarrow> i \<in> m"
proof (induction sds)
  case (Cons sd sds)
  then show ?case using cpumask_first_spec(1) [of e "m \<inter> snd sd"]
    by (auto simp: Let_def split: if_splits option.splits)
qed simp

lemma convert_prio_less:
  assumes "0 \<le> h" "h \<le> MAX_RT_PRIO" "0 \<le> p" "p < MAX_RT_PRIO"
  shows "convert_prio h < convert_prio p \<longleftrightarrow> p < h" "0 \<le> convert_prio h"
    "0 \<le> h' \<Longrightarrow> h' \<le> MAX_RT_PRIO \<Longrightarrow> p < h \<Longrightarrow> p < h' \<Longrightarrow> convert_prio h \<le> convert_prio h' \<longleftrightarrow> h' \<le> h"
  using assms by (auto simp: convert_prio_def cpupri_consts)

lemma hp_range:
  assumes "rt_inv nr s Q" "c < nr"
  shows "0 \<le> hp_curr (rt_of s c)" "hp_curr (rt_of s c) \<le> MAX_RT_PRIO"
  using rt_invD(3) [OF assms] bits_spec(2) [of "hp_curr (rt_of s c)" "Q c"] by (auto simp: heads_ok_def least_def)

lemma cpupri_find_targets:
  assumes inv: "rt_inv nr s Q" and pr: "0 \<le> prio_of s t" "prio_of s t < MAX_RT_PRIO"
  defines "cp \<equiv> rd_cpupri (rd_of s (task_cpu (tasks s t)))"
  shows "fst (cpupri_find nr cp (prio_of s t) (cpus_allowed (tasks s t)) lm) \<longleftrightarrow> targets nr s t \<noteq> {}"
    "targets nr s t \<noteq> {} \<Longrightarrow> snd (cpupri_find nr cp (prio_of s t) (cpus_allowed (tasks s t)) (Some m)) = Some {c. best_target nr s t c}"
proof -
  let ?d = "rd (rqs s (task_cpu (tasks s t)))" and ?a = "cpus_allowed (tasks s t)" and ?p = "prio_of s t"
  have p: "cpupri_ok nr cp" "\<And>c. c < nr \<Longrightarrow> cpu_to_pri cp c =
      (if rd (rqs s c) = ?d \<and> online (rqs s c) then convert_prio (hp_curr (rt_of s c)) else CPUPRI_INVALID)"
    using rt_invD(4) [OF inv] by (auto simp: pri_at_def cp_def)
  have E: "lower_cpus nr cp ?p ?a = targets nr s t"
  proof (rule set_eqI)
    fix c
    show "c \<in> lower_cpus nr cp ?p ?a \<longleftrightarrow> c \<in> targets nr s t"
    proof (cases "c < nr \<and> rd (rqs s c) = ?d \<and> online (rqs s c)")
      case True
      then show ?thesis using p(2) [of c] convert_prio_less(1,2) [of "hp_curr (rt_of s c)" ?p] hp_range [OF inv, of c] pr
        by (auto simp: lower_cpus_def targets_def)
    next
      case False
      then show ?thesis using p(2) [of c] by (auto simp: lower_cpus_def targets_def CPUPRI_INVALID_def)
    qed
  qed
  note f = cpupri_find_spec [OF p(1), of ?p ?a, unfolded E]
  show "fst (cpupri_find nr cp ?p ?a lm) \<longleftrightarrow> targets nr s t \<noteq> {}" by (rule f(1))
  have "{c \<in> targets nr s t. \<forall>d \<in> targets nr s t. cpu_to_pri cp c \<le> cpu_to_pri cp d} = {c. best_target nr s t c}"
  proof -
    have "cpu_to_pri cp c \<le> cpu_to_pri cp d \<longleftrightarrow> hp_curr (rt_of s d) \<le> hp_curr (rt_of s c)"
      if "c \<in> targets nr s t" "d \<in> targets nr s t" for c d
      using that p(2) [of c] p(2) [of d] hp_range [OF inv, of c] hp_range [OF inv, of d] pr
        convert_prio_less(3) [of "hp_curr (rt_of s c)" ?p "hp_curr (rt_of s d)"]
      by (auto simp: targets_def)
    then show ?thesis by (auto simp: best_target_def)
  qed
  then show "snd (cpupri_find nr cp ?p ?a (Some m)) = Some {c. best_target nr s t c}" if "targets nr s t \<noteq> {}"
    using f(2) [OF that, of "Some m"] by simp
qed

lemma cpupri_find_loop_keeps: "\<exists>m'. snd (cpupri_find_loop nr cp p a is (Some m)) = Some m'"
  by (induction "is" arbitrary: m) (auto simp: Let_def)

lemma cpupri_find_keeps: "\<exists>m'. snd (cpupri_find nr cp p a (Some m)) = Some m'"
  unfolding cpupri_find_def by (rule cpupri_find_loop_keeps)

text \<open>No CPU loses its scratch mask.\<close>

definition keeps_masks :: "sched \<Rightarrow> (nat \<Rightarrow> nat set option) \<Rightarrow> bool" where
  "keeps_masks s lm \<longleftrightarrow> (\<forall>i. local_cpu_mask s i \<noteq> None \<longrightarrow> lm i \<noteq> None)"

lemma find_lowest_rq_spec:
  assumes inv: "rt_inv nr s Q" and pr: "0 \<le> prio_of s t" "prio_of s t < MAX_RT_PRIO" and n: "nr_cpu_ids e = nr"
    and m: "local_cpu_mask s (smp_processor_id e) \<noteq> None" and w: "nr_cpus_allowed (tasks s t) \<noteq> 1"
  shows "\<exists>r lm. find_lowest_rq e t s = (r, s\<lparr>local_cpu_mask := lm\<rparr>) \<and> (targets nr s t = {} \<longrightarrow> r = None) \<and>
    (targets nr s t \<noteq> {} \<longrightarrow> (\<exists>c. r = Some c \<and> best_target nr s t c)) \<and> keeps_masks s lm"
proof -
  obtain m0 where m0: "local_cpu_mask s (smp_processor_id e) = Some m0" using m by blast
  let ?cp = "rd_cpupri (rd_of s (task_cpu (tasks s t)))"
  obtain found lm where r: "cpupri_find nr ?cp (prio_of s t) (cpus_allowed (tasks s t)) (Some m0) = (found, lm)"
    by (cases "cpupri_find nr ?cp (prio_of s t) (cpus_allowed (tasks s t)) (Some m0)")
  note c = cpupri_find_targets [OF inv pr]
  show ?thesis
  proof (cases "targets nr s t = {}")
    case True
    then have "\<not> found" using c(1) [of "Some m0"] r by simp
    moreover have "lm \<noteq> None"
      using cpupri_find_keeps [of nr ?cp "prio_of s t" "cpus_allowed (tasks s t)" m0] r by auto
    ultimately show ?thesis using True r m0 n w
      by (intro exI [of _ None] exI [of _ "(local_cpu_mask s)(smp_processor_id e := lm)"]) (simp add: find_lowest_rq_def keeps_masks_def)
  next
    case False
    then have f: found "lm = Some {c. best_target nr s t c}" using c(1) [of "Some m0"] c(2) [OF False, of m0] r by auto
    let ?M = "{c. best_target nr s t c}"
    have lt: "k < nr" if "k \<in> ?M" for k using that by (auto simp: best_target_def targets_def)
    have ne: "?M \<noteq> {}"
    proof -
      let ?H = "\<lambda>c. hp_curr (rt_of s c)"
      have fin: "finite (?H ` targets nr s t)" by (simp add: targets_def)
      have "Max (?H ` targets nr s t) \<in> ?H ` targets nr s t" using Max_in [OF fin] False by simp
      then obtain c where c: "c \<in> targets nr s t" "Max (?H ` targets nr s t) = ?H c" by (rule imageE)
      then have "?H d \<le> ?H c" if "d \<in> targets nr s t" for d using Max_ge [OF fin, of "?H d"] that by simp
      then have "best_target nr s t c" using c(1) by (simp add: best_target_def)
      then show ?thesis by blast
    qed
    then have cf: "cpumask_first e ?M < nr_cpu_ids e" "cpumask_first e ?M \<in> ?M"
      using cpumask_first_spec(1) [of e ?M] cpumask_first_spec(2) [where e = e and m = ?M] lt n by auto
    let ?tc = "if smp_processor_id e \<in> ?M then Some (smp_processor_id e) else None"
    define r' where "r' = (if task_cpu (tasks s t) \<in> ?M then task_cpu (tasks s t)
      else case find_domain_loop e ?M ?tc (domains e (task_cpu (tasks s t))) of Some i \<Rightarrow> i
        | None \<Rightarrow> if smp_processor_id e \<in> ?M then smp_processor_id e else cpumask_first e ?M)"
    let ?ds = "find_domain_loop e ?M ?tc (domains e (task_cpu (tasks s t)))"
    have D: "i \<in> ?M" if "?ds = Some i" for i by (rule find_domain_loop_mask [OF that]) (simp split: if_splits)
    have "r' \<in> ?M"
    proof (cases "task_cpu (tasks s t) \<in> ?M")
      case False
      show ?thesis
      proof (cases ?ds)
        case None
        then show ?thesis using False cf(2) by (simp add: r'_def)
      next
        case (Some i)
        then show ?thesis using False D [OF Some] by (simp add: r'_def)
      qed
    qed (simp add: r'_def)
    moreover have "find_lowest_rq e t s = (Some r', s\<lparr>local_cpu_mask := (local_cpu_mask s)(smp_processor_id e := lm)\<rparr>)"
    proof (cases "task_cpu (tasks s t) \<in> ?M")
      case True
      then show ?thesis using r m0 n w f by (simp add: find_lowest_rq_def r'_def Let_def)
    next
      case False
      then show ?thesis using r m0 n w f cf(1)
        by (cases ?ds) (simp_all add: find_lowest_rq_def r'_def Let_def)
    qed
    moreover have "keeps_masks s ((local_cpu_mask s)(smp_processor_id e := lm))" using f(2) by (simp add: keeps_masks_def)
    ultimately show ?thesis using False by auto
  qed
qed

section \<open>Moving a task\<close>

lemma load_core:
  "rt_core s (if b then upd_rq c (\<lambda>q. q\<lparr>nr_uninterruptible := nr_uninterruptible q + k\<rparr>) s else s)"
  by (auto intro!: rt_core_intros rt_core_refl simp: core_rq_def)

lemma nr_running_core: "rt_core s (upd_rq c (\<lambda>q. q\<lparr>nr_running := nr_running q + k\<rparr>) s)"
  by (intro rt_core_intros rt_core_refl) (simp add: core_rq_def)

lemma deactivate_task_spec:
  assumes ok: "rt_ok nr s Q P" and t: "t \<in> set (Q c i)" and c: "c < nr" and rt: "rt_class (tasks s t)"
  shows "\<exists>s'. deactivate_task e c t flags s = Inr s' \<and> rq_frame s s' \<and>
    rt_ok nr s' (deq Q c i t) (P(c := remove1 t (P c)))"
proof -
  define s1 where "s1 = update_rq_clock e c (if contributes_to_load (tasks s t)
    then upd_rq c (\<lambda>q. q\<lparr>nr_uninterruptible := nr_uninterruptible q + 1\<rparr>) s else s)"
  have c1: "rt_core s s1" unfolding s1_def by (intro update_rq_clock_core load_core)
  have ok1: "rt_ok nr s1 Q P" using ok rt_ok_core [OF c1] by simp
  from dequeue_task_rt_spec [of nr s1 Q P t c i e flags, OF ok1 t c] obtain s2 where
    s2: "dequeue_task_rt e c t flags s1 = Inr s2" "rq_frame s1 s2" "rt_ok nr s2 (deq Q c i t) (P(c := remove1 t (P c)))" by blast
  let ?s = "upd_rq c (\<lambda>q. q\<lparr>nr_running := nr_running q - 1\<rparr>) s2"
  have "deactivate_task e c t flags s = Inr ?s"
    using s2(1) rt rt_core_fields(18) [OF c1] by (simp add: deactivate_task_def dequeue_task_def s1_def [symmetric] Let_def)
  moreover have c3: "rt_core s2 ?s" using nr_running_core [of s2 c "- 1"] by simp
  moreover have "rq_frame s ?s" using rq_frame_trans [OF rq_frame_core [OF c1] rq_frame_trans [OF s2(2) rq_frame_core [OF c3]]] .
  ultimately show ?thesis using s2(3) rt_ok_core [OF c3] by auto
qed

lemma activate_task_spec:
  assumes ok: "rt_ok nr s Q P" and n: "\<not> queued Q t" and pr: "0 \<le> prio_of s t" "prio_of s t < MAX_RT_PRIO"
    and c: "task_cpu (tasks s t) = c" "c < nr" and rt: "rt_class (tasks s t)"
  shows "\<exists>s'. activate_task e c t flags s = Inr s' \<and> rq_frame s s' \<and>
    rt_ok nr s' (enq Q c (prio_of s t) t (flags AND ENQUEUE_HEAD \<noteq> 0))
      (if curr_of s c \<noteq> t \<and> nr_cpus_allowed (tasks s t) > 1 then push_add s c t P else P)"
proof -
  define s1 where "s1 = update_rq_clock e c (if contributes_to_load (tasks s t)
    then upd_rq c (\<lambda>q. q\<lparr>nr_uninterruptible := nr_uninterruptible q - 1\<rparr>) s else s)"
  have c1: "rt_core s s1" unfolding s1_def 
    by (intro update_rq_clock_core load_core [where k = "- 1", unfolded add_uminus_conv_diff])
  note g = rt_core_fields [OF c1]
  have ok1: "rt_ok nr s1 Q P" using ok rt_ok_core [OF c1] by simp
  have pa: "push_add s1 c t P = push_add s c t P" by (simp add: push_add_def g)
  have p1: "0 \<le> prio_of s1 t" "prio_of s1 t < MAX_RT_PRIO" "task_cpu (tasks s1 t) = c" using pr c g by auto
  from enqueue_task_rt_spec [OF ok1 n p1 c(2), of flags, unfolded pa g] obtain s2 where
    s2: "enqueue_task_rt c t flags s1 = Inr s2" "rq_frame s1 s2"
      "rt_ok nr s2 (enq Q c (prio_of s t) t (flags AND ENQUEUE_HEAD \<noteq> 0))
        (if curr_of s c \<noteq> t \<and> nr_cpus_allowed (tasks s t) > 1 then push_add s c t P else P)"
    by blast
  let ?s = "upd_rq c (\<lambda>q. q\<lparr>nr_running := nr_running q + 1\<rparr>) s2"
  have "activate_task e c t flags s = Inr ?s"
    using s2(1) rt g by (simp add: activate_task_def enqueue_task_def s1_def [symmetric] Let_def)
  moreover have c3: "rt_core s2 ?s" by (rule nr_running_core)
  moreover have "rq_frame s ?s" using rq_frame_trans [OF rq_frame_core [OF c1] rq_frame_trans [OF s2(2) rq_frame_core [OF c3]]] .
  ultimately show ?thesis using s2(3) rt_ok_core [OF c3] by auto
qed

lemma set_task_cpu_ok:
  assumes ok: "rt_ok nr s Q P" and n: "\<not> queued Q t"
  shows "rt_ok nr (set_task_cpu t c s) Q P"
proof -
  let ?s = "set_task_cpu t c s"
  have e: "prio_of ?s t' = prio_of s t'" "nr_cpus_allowed (tasks ?s t') = nr_cpus_allowed (tasks s t')"
    "t' \<noteq> t \<Longrightarrow> task_cpu (tasks ?s t') = task_cpu (tasks s t')" "rqs ?s = rqs s" "rds ?s = rds s" "runq ?s = runq s"
    "pushable ?s = pushable s" for t'
    by (auto simp: set_task_cpu_def upd_task_def)
  have l: "lists_ok s Q" using ok by (simp add: rt_ok_def rt_inv_def)
  have "task_cpu (tasks ?s t') = k" if "t' \<in> set (Q k i)" for t' k i
    using lists_okD(4) [OF l that] n that e(3) [of t'] by (auto simp: queued_def)
  then have "lists_ok ?s Q" using l unfolding lists_ok_def e by blast
  moreover have "push_ok ?s Q P = push_ok s Q P" by (rule push_ok_cong) (simp_all add: e)
  ultimately show ?thesis
    using ok by (simp add: rt_ok_def rt_inv_def counts_ok_def heads_ok_def migratory_def e pri_ok_def over_ok_def over_cpus_def)
qed

text \<open>What moving a task from one CPU to another changes of the state.\<close>

definition move_frame :: "nat \<Rightarrow> sched \<Rightarrow> sched \<Rightarrow> bool" where
  "move_frame t s s' \<longleftrightarrow> (\<forall>c. curr_of s' c = curr_of s c \<and> idle (rqs s' c) = idle (rqs s c)) \<and> local_cpu_mask s' = local_cpu_mask s \<and>
     (\<forall>t'. prio_of s' t' = prio_of s t' \<and> on_rq (tasks s' t') = on_rq (tasks s t') \<and> rt_class (tasks s' t') = rt_class (tasks s t') \<and>
        on_cpu (tasks s' t') = on_cpu (tasks s t') \<and> cpus_allowed (tasks s' t') = cpus_allowed (tasks s t') \<and>
        nr_cpus_allowed (tasks s' t') = nr_cpus_allowed (tasks s t') \<and> (t' \<noteq> t \<longrightarrow> task_cpu (tasks s' t') = task_cpu (tasks s t')))"

lemma migrate_spec:
  assumes ok: "rt_ok nr s Q P" and t: "t \<in> set (Q c i)" and c: "c < nr" "dst < nr" and rt: "rt_class (tasks s t)"
    and cur: "curr_of s dst \<noteq> t" and al: "nr_cpus_allowed (tasks s t) > 1"
  shows "\<exists>s' s1. deactivate_task e c t 0 s = Inr s1 \<and> activate_task e dst t 0 (set_task_cpu t dst s1) = Inr s' \<and>
    move_frame t s s' \<and> task_cpu (tasks s' t) = dst \<and>
    rt_ok nr s' (enq (deq Q c i t) dst i t False) (push_add s dst t (P(c := remove1 t (P c))))"
proof -
  have l: "lists_ok s Q" using ok by (simp add: rt_ok_def rt_inv_def)
  note ti = lists_okD [OF l t]
  let ?Q = "deq Q c i t" and ?P = "P(c := remove1 t (P c))"
  from deactivate_task_spec [of nr s Q P t c i e 0, OF ok t c(1) rt] obtain s1 where
    s1: "deactivate_task e c t 0 s = Inr s1" "rq_frame s s1" "rt_ok nr s1 ?Q ?P" by blast
  note g = rq_frame_fields [OF s1(2)]
  have n: "\<not> queued ?Q t" by (simp add: deq_queued [OF l t])
  let ?s2 = "set_task_cpu t dst s1"
  have ok2: "rt_ok nr ?s2 ?Q ?P" by (rule set_task_cpu_ok [OF s1(3) n])
  have f2: "prio_of ?s2 t' = prio_of s t'" "task_cpu (tasks ?s2 t) = dst" "curr_of ?s2 k = curr_of s k"
    "nr_cpus_allowed (tasks ?s2 t') = nr_cpus_allowed (tasks s t')" "rt_class (tasks ?s2 t) = rt_class (tasks s t)" for t' k
    using g by (simp_all add: set_task_cpu_def upd_task_def)
  have "prio_of s1 = prio_of s" using g by auto
  then have pa: "push_add ?s2 dst t ?P = push_add s dst t ?P" using f2(1) by (simp add: push_add_def)
  have p2: "0 \<le> prio_of ?s2 t" "prio_of ?s2 t < MAX_RT_PRIO" using f2(1) [of t] ti by auto
  have r2: "rt_class (tasks ?s2 t)" using f2(5) rt by simp
  have fl: "(0 AND ENQUEUE_HEAD \<noteq> 0) = False" by (simp add: ENQUEUE_HEAD_def)
  have "(curr_of s dst \<noteq> t \<and> nr_cpus_allowed (tasks s t) > 1) = True" using cur al by simp
  from activate_task_spec [OF ok2 n p2 f2(2) c(2) r2, of e 0, unfolded pa f2 ti(3) fl this if_True] obtain s' where
    s': "activate_task e dst t 0 ?s2 = Inr s'" "rq_frame ?s2 s'"
      "rt_ok nr s' (enq ?Q dst i t False) (push_add s dst t ?P)" by blast
  note h = rq_frame_fields [OF s'(2)]
  have "move_frame t s s'"
    unfolding move_frame_def using g h s1(2) s'(2)
    by (simp add: rq_frame_def set_task_cpu_def upd_task_def)
  moreover have "task_cpu (tasks s' t) = dst" using h f2 by simp
  ultimately show ?thesis using s1(1) s' by blast
qed

section \<open>Pushing in a quiet environment\<close>

definition quiet :: "sched_env \<Rightarrow> bool" where
  "quiet e \<longleftrightarrow> (\<forall>a b s. snd (interference e a b s) = s)"

text \<open>The pushable tasks of \<open>c\<close> are runnable tasks of the class that run on no CPU.\<close>

definition push_ready :: "nat \<Rightarrow> sched \<Rightarrow> nat list \<Rightarrow> bool" where
  "push_ready c s ts \<longleftrightarrow> (\<forall>t \<in> set ts. on_rq (tasks s t) \<and> rt_class (tasks s t) \<and> \<not> on_cpu (tasks s t) \<and> (\<forall>k. curr_of s k \<noteq> t))"

lemma rt_ok_mask [simp]: "rt_ok nr (s\<lparr>local_cpu_mask := lm\<rparr>) Q P = rt_ok nr s Q P"
proof -
  let ?s = "s\<lparr>local_cpu_mask := lm\<rparr>"
  have "push_ok ?s Q P = push_ok s Q P" by (rule push_ok_cong) simp_all
  moreover have "lists_ok ?s Q = lists_ok s Q" by (rule lists_ok_cong) simp_all
  ultimately show ?thesis
    by (simp add: rt_ok_def rt_inv_def counts_ok_def heads_ok_def migratory_def pri_ok_def over_ok_def over_cpus_def)
qed

lemma push_member:
  assumes ok: "rt_ok nr s Q P" and t: "t \<in> set (P c)" and c: "c < nr"
  shows "t \<in> set (Q c (prio_of s t))" "task_cpu (tasks s t) = c" "0 \<le> prio_of s t" "prio_of s t < MAX_RT_PRIO"
    "nr_cpus_allowed (tasks s t) > 1" "c \<notin> targets nr s t"
proof -
  have l: "lists_ok s Q" and inv: "rt_inv nr s Q" and p: "push_ok s Q P" using ok by (auto simp: rt_ok_def rt_inv_def)
  have r: "t \<in> rtasks Q c" "nr_cpus_allowed (tasks s t) > 1" using p t by (auto simp: push_ok_def)
  then obtain i where i: "t \<in> set (Q c i)" by (auto simp: rtasks_def)
  note d = lists_okD [OF l i]
  show q: "t \<in> set (Q c (prio_of s t))" using i d by simp
  show "task_cpu (tasks s t) = c" "0 \<le> prio_of s t" "prio_of s t < MAX_RT_PRIO" using d by auto
  show "nr_cpus_allowed (tasks s t) > 1" by (rule r(2))
  have "hp_curr (rt_of s c) \<le> prio_of s t"
    using rt_invD(3) [OF inv c] q d by (auto simp: heads_ok_def least_def bits_def)
  then show "c \<notin> targets nr s t" by (simp add: targets_def)
qed

lemma pick_pushable_spec:
  assumes ok: "rt_ok nr s Q P" and r: "push_ready c s (P c)" and c: "c < nr"
  shows "pick_next_pushable_task c s = Inr (case P c of [] \<Rightarrow> None | t # _ \<Rightarrow> Some t)"
proof -
  obtain own where o: "plist_ok (pushable s) P own" using ok by (auto simp: rt_ok_def push_ok_def)
  show ?thesis
  proof (cases "P c")
    case Nil
    then show ?thesis using plist_head_empty_iff [OF o, of c] by (simp add: pick_next_pushable_task_def has_pushable_tasks_def)
  next
    case (Cons t ts)
    then have t: "t \<in> set (P c)" by simp
    show ?thesis using Cons plist_head_empty_iff [OF o, of c] plist_first_eq [OF o, of c] push_member [OF ok t c] r
      by (auto simp: pick_next_pushable_task_def has_pushable_tasks_def push_ready_def task_current_def rt_task_def rt_prio_def)
  qed
qed

lemma find_lock_spec:
  assumes ok: "rt_ok nr s Q P" and r: "push_ready c s (P c)" and c: "c < nr" and t: "t \<in> set (P c)"
    and n: "nr_cpu_ids e = nr" and m: "local_cpu_mask s (smp_processor_id e) \<noteq> None" and q: "quiet e"
  shows "\<exists>lm. find_lock_lowest_rq e t c s = (None, s\<lparr>local_cpu_mask := lm\<rparr>) \<and> targets nr s t = {} \<and>
       keeps_masks s lm \<or>
     (\<exists>d. find_lock_lowest_rq e t c s = (Some d, s\<lparr>local_cpu_mask := lm\<rparr>) \<and> best_target nr s t d \<and> d \<noteq> c \<and>
       keeps_masks s lm)"
proof -
  note pm = push_member [OF ok t c]
  have inv: "rt_inv nr s Q" using ok by (simp add: rt_ok_def)
  have w: "nr_cpus_allowed (tasks s t) \<noteq> 1" using pm by simp
  from find_lowest_rq_spec [OF inv pm(3,4) n m w] obtain r0 lm where
    f: "find_lowest_rq e t s = (r0, s\<lparr>local_cpu_mask := lm\<rparr>)" "targets nr s t = {} \<longrightarrow> r0 = None"
      "targets nr s t \<noteq> {} \<longrightarrow> (\<exists>d. r0 = Some d \<and> best_target nr s t d)" "keeps_masks s lm" by blast
  obtain k where k: "RT_MAX_TRIES = Suc k" by (simp add: RT_MAX_TRIES_def)
  show ?thesis
  proof (cases "targets nr s t = {}")
    case True
    then show ?thesis using f by (auto simp: find_lock_lowest_rq_def k)
  next
    case False
    then obtain d where d: "r0 = Some d" "best_target nr s t d" using f(3) by blast
    then have dt: "d \<in> targets nr s t" by (simp add: best_target_def)
    then have dc: "d \<noteq> c" using pm(6) by auto
    let ?s = "s\<lparr>local_cpu_mask := lm\<rparr>"
    obtain b where b: "double_lock_balance e c d ?s = (b, ?s)"
      using q by (metis double_lock_balance_def quiet_def prod.collapse)
    have "find_lock_lowest_rq e t c s = (Some d, ?s)"
      using f(1) d(1) dc b dt pm r t by (auto simp: find_lock_lowest_rq_def k targets_def push_ready_def task_running_def)
    then show ?thesis using d dc f(4) by blast
  qed
qed

definition push_frame :: "sched_env \<Rightarrow> nat \<Rightarrow> sched \<Rightarrow> sched \<Rightarrow> bool" where
  "push_frame e t s s' \<longleftrightarrow>
     (\<exists>lm. keeps_masks s lm \<and> move_frame t (s\<lparr>local_cpu_mask := lm\<rparr>) s')"

lemma move_frame_core: "rt_core s s' \<Longrightarrow> move_frame t s0 s \<Longrightarrow> move_frame t s0 s'"
proof -
  assume a: "rt_core s s'" and b: "move_frame t s0 s"
  have "local_cpu_mask s' = local_cpu_mask s" using rq_frame_core [OF a] by (simp add: rq_frame_def)
  with b show ?thesis by (simp add: move_frame_def rt_core_fields [OF a])
qed

lemma push_frame_keeps:
  assumes "push_frame e t s s'"
  shows "keeps_masks s (local_cpu_mask s')" "push_ready c s ts \<Longrightarrow> push_ready c s' ts"
    "curr_of s' k = curr_of s k" "prio_of s' t' = prio_of s t'" "rt_class (tasks s' t') = rt_class (tasks s t')"
  using assms by (auto simp: push_frame_def move_frame_def push_ready_def)

lemma resched_core: "rt_core s (resched_task t s)"
  by (intro rt_core_intros rt_core_refl)

text \<open>
  The outcomes of one push: nothing to do, the pushable task preempts the running one, no CPU is lower
  and the task leaves the pushable list, or it moves to a CPU of lowest priority.
\<close>

lemma push_rt_task_idle:
  assumes ok: "rt_ok nr s Q P" and r: "push_ready c s (P c)" and c: "c < nr" and z: "\<not> overload (rt_of s c) \<or> P c = []"
  shows "push_rt_task e c s = Inr (False, s)"
  using pick_pushable_spec [OF ok r c] z by (auto simp: push_rt_task_def)

lemma push_rt_task_preempt:
  assumes ok: "rt_ok nr s Q P" and r: "push_ready c s (P c)" and c: "c < nr"
    and o: "overload (rt_of s c)" and t: "P c = t # ts" and pr: "prio_of s t < prio_of s (curr_of s c)"
  shows "push_rt_task e c s = Inr (False, resched_task (curr_of s c) s)"
proof -
  have "t \<noteq> curr_of s c" using pr by auto
  then show ?thesis using pick_pushable_spec [OF ok r c] o t pr by (simp add: push_rt_task_def push_retry.simps [of e c t s])
qed

lemma push_rt_task_drop:
  assumes ok: "rt_ok nr s Q P" and r: "push_ready c s (P c)" and c: "c < nr"
    and n: "nr_cpu_ids e = nr" and m: "local_cpu_mask s (smp_processor_id e) \<noteq> None" and q: "quiet e"
    and o: "overload (rt_of s c)" and t: "P c = t # ts" and pr: "\<not> prio_of s t < prio_of s (curr_of s c)"
    and e: "targets nr s t = {}"
  shows "\<exists>s'. push_rt_task e c s = Inr (True, s') \<and> push_frame e t s s' \<and> rt_ok nr s' Q (P(c := ts))"
proof -
  have tm: "t \<in> set (P c)" using t by simp
  note pm = push_member [OF ok tm c]
  have nc: "t \<noteq> curr_of s c" using r tm by (auto simp: push_ready_def)
  from find_lock_spec [OF ok r c tm n m q] e obtain lm where
    f: "find_lock_lowest_rq e t c s = (None, s\<lparr>local_cpu_mask := lm\<rparr>)" "keeps_masks s lm"
    by (auto simp: best_target_def)
  let ?s = "s\<lparr>local_cpu_mask := lm\<rparr>" and ?d = "dequeue_pushable_task c t (s\<lparr>local_cpu_mask := lm\<rparr>)"
  have ok': "rt_ok nr ?s Q P" using ok by simp
  have r': "push_ready c ?s (P c)" using r by (simp add: push_ready_def)
  have "push_rt_task e c s = Inr (True, ?d)"
    using pick_pushable_spec [OF ok r c] pick_pushable_spec [OF ok' r' c] o t pr nc f pm
    by (simp add: push_rt_task_def push_retry.simps [of e c t s])
  moreover have "push_ok ?d Q (P(c := remove1 t (P c)))"
    by (rule dequeue_pushable_spec) (use ok' pm in \<open>auto simp: rt_ok_def rt_inv_def\<close>)
  then have "rt_ok nr ?d Q (P(c := ts))" using ok' t by (simp add: rt_ok_def dequeue_pushable_task_def)
  moreover have "push_frame e t s ?d" unfolding push_frame_def
    by (rule exI [of _ lm]) (simp add: f move_frame_def dequeue_pushable_task_def)
  ultimately show ?thesis by blast
qed

lemma push_rt_task_move:
  assumes ok: "rt_ok nr s Q P" and r: "push_ready c s (P c)" and c: "c < nr"
    and n: "nr_cpu_ids e = nr" and m: "local_cpu_mask s (smp_processor_id e) \<noteq> None" and q: "quiet e"
    and o: "overload (rt_of s c)" and t: "P c = t # ts" and pr: "\<not> prio_of s t < prio_of s (curr_of s c)"
    and e: "targets nr s t \<noteq> {}"
  shows "\<exists>d s'. push_rt_task e c s = Inr (True, s') \<and> best_target nr s t d \<and> d \<noteq> c \<and> push_frame e t s s' \<and>
    task_cpu (tasks s' t) = d \<and> need_resched (tasks s' (curr_of s d)) \<and>
    rt_ok nr s' (enq (deq Q c (prio_of s t) t) d (prio_of s t) t False) (push_add s d t (P(c := ts)))"
proof -
  have tm: "t \<in> set (P c)" using t by simp
  note pm = push_member [OF ok tm c]
  have nc: "t \<noteq> curr_of s k" "curr_of s k \<noteq> t" "rt_class (tasks s t)" for k using r tm by (auto simp: push_ready_def)
  from find_lock_spec [OF ok r c tm n m q] e obtain lm d where
    f: "find_lock_lowest_rq e t c s = (Some d, s\<lparr>local_cpu_mask := lm\<rparr>)" "keeps_masks s lm"
      "best_target nr s t d" "d \<noteq> c" by blast
  let ?s = "s\<lparr>local_cpu_mask := lm\<rparr>" and ?i = "prio_of s t"
  have ok': "rt_ok nr ?s Q P" using ok by simp
  have d: "d < nr" using f(3) by (simp add: best_target_def targets_def)
  have t': "t \<in> set (Q c ?i)" "rt_class (tasks ?s t)" "curr_of ?s d \<noteq> t" "nr_cpus_allowed (tasks ?s t) > 1"
    using pm nc by auto
  have pa: "push_add ?s = push_add s" by (simp add: push_add_def fun_eq_iff)
  have rm: "remove1 t (P c) = ts" using t by simp
  from migrate_spec [OF ok' t'(1) c d t'(2-4), of e] obtain s' s1 where
    mv: "deactivate_task e c t 0 ?s = Inr s1" "activate_task e d t 0 (set_task_cpu t d s1) = Inr s'"
      "move_frame t ?s s'" "task_cpu (tasks s' t) = d"
      "rt_ok nr s' (enq (deq Q c ?i t) d ?i t False) (push_add s d t (P(c := ts)))" unfolding pa rm by blast
  let ?r = "resched_task (curr_of s' d) s'"
  have cur: "curr_of s' d = curr_of s d" using mv(3) by (simp add: move_frame_def)
  have "push_rt_task e c s = Inr (True, ?r)"
    using pick_pushable_spec [OF ok r c] o t pr nc f mv by (simp add: push_rt_task_def push_retry.simps [of e c t s])
  moreover have "push_frame e t s ?r" unfolding push_frame_def
    using move_frame_core [OF resched_core mv(3)] f(2) by blast
  moreover have "need_resched (tasks ?r (curr_of s d))" using cur
    by (simp add: resched_task_def test_tsk_need_resched_def set_tsk_need_resched_def upd_task_def)
  moreover have "task_cpu (tasks ?r t) = d" using mv(4) rt_core_fields(21) [OF resched_core] by simp
  moreover have "rt_ok nr ?r (enq (deq Q c ?i t) d ?i t False) (push_add s d t (P(c := ts)))"
    using mv(5) rt_ok_core [OF resched_core] by simp
  ultimately show ?thesis using f(3,4) by blast
qed

lemma moved_queued:
  assumes "lists_ok s Q" "t \<in> set (Q c i)"
  shows "queued (enq (deq Q c i t) d j t b) t' \<longleftrightarrow> queued Q t'"
proof -
  have "queued Q t" using assms(2) by (auto simp: queued_def)
  moreover have "queued (enq Q' d j t b) t' \<longleftrightarrow> t' = t \<or> queued Q' t'" for Q'
    by (auto simp: queued_def enq_apply)
  ultimately show ?thesis using deq_queued [OF assms] by auto
qed

text \<open>
  The class and the core together: every CPU runs its current task, the queued tasks are the runnable
  tasks of the class, no pushable task is running, and every CPU keeps its idle task.
\<close>

definition idle_ok :: "sched \<Rightarrow> bool" where
  "idle_ok s \<longleftrightarrow> (\<forall>c. \<not> rt_class (tasks s (idle (rqs s c))) \<and> task_cpu (tasks s (idle (rqs s c))) = c)"

definition core_ok :: "nat \<Rightarrow> sched \<Rightarrow> rt_queues \<Rightarrow> (nat \<Rightarrow> nat list) \<Rightarrow> bool" where
  "core_ok nr s Q P \<longleftrightarrow> rt_ok nr s Q P \<and>
     (\<forall>k. on_cpu (tasks s (curr_of s k)) \<and> task_cpu (tasks s (curr_of s k)) = k) \<and>
     (\<forall>t. queued Q t \<longleftrightarrow> on_rq (tasks s t) \<and> rt_class (tasks s t)) \<and> (\<forall>k. \<forall>t \<in> set (P k). \<not> on_cpu (tasks s t)) \<and>
     (\<forall>t. on_cpu (tasks s t) \<longrightarrow> curr_of s (task_cpu (tasks s t)) = t) \<and> idle_ok s"

lemma core_okD:
  assumes "core_ok nr s Q P"
  shows "rt_ok nr s Q P" "on_cpu (tasks s (curr_of s k))" "task_cpu (tasks s (curr_of s k)) = k"
    "queued Q t \<longleftrightarrow> on_rq (tasks s t) \<and> rt_class (tasks s t)" "t \<in> set (P k) \<Longrightarrow> \<not> on_cpu (tasks s t)"
    "on_cpu (tasks s t) \<Longrightarrow> curr_of s (task_cpu (tasks s t)) = t" "idle_ok s"
  using assms by (auto simp: core_ok_def)

lemma core_push_ready:
  assumes ok: "core_ok nr s Q P"
  shows "push_ready c s (P c)"
proof -
  have "queued Q t" if "t \<in> set (P c)" for t
    using that core_okD(1) [OF ok] by (auto simp: rt_ok_def push_ok_def queued_rtasks)
  then show ?thesis unfolding push_ready_def using core_okD [OF ok] by blast
qed

lemma core_ok_core: "rt_core s s' \<Longrightarrow> core_ok nr s' Q P = core_ok nr s Q P"
  unfolding core_ok_def idle_ok_def by (simp add: rt_ok_core rt_core_fields)

lemma core_ok_move:
  assumes ok: "core_ok nr s Q P" and m: "move_frame t s s'" and r: "rt_ok nr s' Q' P'" and n: "\<not> on_cpu (tasks s t)" "rt_class (tasks s t)"
    and q: "\<And>t'. queued Q' t' = queued Q t'" and p: "\<And>k. set (P' k) \<subseteq> insert t (set (P k))"
  shows "core_ok nr s' Q' P'"
proof -
  have "curr_of s k \<noteq> t" for k using core_okD(2) [OF ok, of k] n(1) by auto
  moreover have "\<not> on_cpu (tasks s t')" if "t' \<in> set (P' k)" for t' k using core_okD(5) [OF ok, of t' k] p [of k] that n by auto
  moreover have "curr_of s' (task_cpu (tasks s' t')) = t'" if "on_cpu (tasks s' t')" for t'
    using m n that core_okD(6) [OF ok, of t'] by (cases "t' = t") (auto simp: move_frame_def)
  moreover have "idle_ok s'" using m n(2) core_okD(7) [OF ok] unfolding idle_ok_def move_frame_def by metis
  ultimately show ?thesis using m r core_okD(2-4) [OF ok] unfolding core_ok_def q by (simp add: move_frame_def)
qed

lemma core_ok_mask [simp]: "core_ok nr (s\<lparr>local_cpu_mask := lm\<rparr>) Q P = core_ok nr s Q P"
  by (simp add: core_ok_def idle_ok_def)

lemma core_ok_push:
  assumes ok: "core_ok nr s Q P" and m: "push_frame e t s s'" and r: "rt_ok nr s' Q' P'" and n: "\<not> on_cpu (tasks s t)" "rt_class (tasks s t)"
    and q: "\<And>t'. queued Q' t' = queued Q t'" and p: "\<And>k. set (P' k) \<subseteq> insert t (set (P k))"
  shows "core_ok nr s' Q' P'"
proof -
  from m obtain lm where m': "move_frame t (s\<lparr>local_cpu_mask := lm\<rparr>) s'" by (auto simp: push_frame_def)
  have "core_ok nr (s\<lparr>local_cpu_mask := lm\<rparr>) Q P" "\<not> on_cpu (tasks (s\<lparr>local_cpu_mask := lm\<rparr>) t)"
    "rt_class (tasks (s\<lparr>local_cpu_mask := lm\<rparr>) t)" using ok n by simp_all
  from core_ok_move [OF this(1) m' r this(2,3) q p] show ?thesis .
qed

text \<open>One push with something to do: the task leaves the pushable list, for another CPU or not.\<close>

lemma push_rt_task_step:
  assumes ok: "core_ok nr s Q P" and c: "c < nr" and n: "nr_cpu_ids e = nr"
    and m: "local_cpu_mask s (smp_processor_id e) \<noteq> None" and q: "quiet e"
    and o: "overload (rt_of s c)" and t: "P c = t # ts" and pr: "\<not> prio_of s t < prio_of s (curr_of s c)"
  shows "\<exists>s' Q' P'. push_rt_task e c s = Inr (True, s') \<and> push_frame e t s s' \<and> core_ok nr s' Q' P' \<and> P' c = ts \<and>
    rtasks Q' c \<subseteq> rtasks Q c \<and> queued Q' = queued Q"
proof -
  note r = core_push_ready [OF ok, of c] and rok = core_okD(1) [OF ok]
  have l: "lists_ok s Q" using rok by (simp add: rt_ok_def rt_inv_def)
  have tm: "t \<in> set (P c)" using t by simp
  have tq: "t \<in> set (Q c (prio_of s t))" by (rule push_member(1) [OF rok tm c])
  have "queued Q t" using tq by (auto simp: queued_def)
  then have nc: "\<not> on_cpu (tasks s t)" "rt_class (tasks s t)" using core_okD(4) [OF ok] core_okD(5) [OF ok tm] by auto
  show ?thesis
  proof (cases "targets nr s t = {}")
    case True
    from push_rt_task_drop [OF rok r c n m q o t pr True] obtain s' where
      s': "push_rt_task e c s = Inr (True, s')" "push_frame e t s s'" "rt_ok nr s' Q (P(c := ts))" by blast
    have "core_ok nr s' Q (P(c := ts))" by (rule core_ok_push [OF ok s'(2,3) nc]) (use t in auto)
    then show ?thesis using s' by (intro exI [of _ s'] exI [of _ Q] exI [of _ "P(c := ts)"]) simp
  next
    case False
    let ?i = "prio_of s t"
    from push_rt_task_move [OF rok r c n m q o t pr False] obtain d s' where
      s': "push_rt_task e c s = Inr (True, s')" "d \<noteq> c" "push_frame e t s s'"
      "rt_ok nr s' (enq (deq Q c ?i t) d ?i t False) (push_add s d t (P(c := ts)))" by blast
    let ?Q = "enq (deq Q c ?i t) d ?i t False" and ?P = "push_add s d t (P(c := ts))"
    have "core_ok nr s' ?Q ?P"
      by (rule core_ok_push [OF ok s'(3,4) nc moved_queued [OF l tq]])
        (use t set_remove1_subset [of t] in \<open>auto simp: push_add_def pl_insert_set split: if_splits\<close>)
    moreover have "rtasks ?Q c \<subseteq> rtasks Q c" using s'(2) deq_rtasks [OF l tq, of c] by (simp add: enq_rtasks)
    moreover have "?P c = ts" using s'(2) by (simp add: push_add_def)
    moreover have "queued ?Q = queued Q" using moved_queued [OF l tq] by (simp add: fun_eq_iff)
    ultimately show ?thesis using s'(1,3) by blast
  qed
qed

lemma push_loop_spec:
  assumes "core_ok nr s Q P" "c < nr" "nr_cpu_ids e = nr" "local_cpu_mask s (smp_processor_id e) \<noteq> None" "quiet e"
  shows "\<exists>s' Q' P'. push_loop e c s = Some (Inr s') \<and> core_ok nr s' Q' P' \<and> queued Q' = queued Q \<and> rtasks Q' c \<subseteq> rtasks Q c \<and>
    (\<forall>t. prio_of s' t = prio_of s t \<and> rt_class (tasks s' t) = rt_class (tasks s t)) \<and> (\<forall>k. curr_of s' k = curr_of s k) \<and> keeps_masks s (local_cpu_mask s') \<and>
    (overload (rt_of s' c) \<longrightarrow> P' c = [] \<or> prio_of s (hd (P' c)) < prio_of s (curr_of s c))"
  using assms
proof (induction "length (P c)" arbitrary: s Q P rule: less_induct)
  case less
  note ok = less.prems(1) and c = less.prems(2) and rok = core_okD(1) [OF less.prems(1)] and r = core_push_ready [OF less.prems(1)]
  note unf = push_loop.simps [of e c s]
  show ?case
  proof (cases "\<not> overload (rt_of s c) \<or> P c = []")
    case True
    then show ?thesis using push_rt_task_idle [OF rok r c True] ok unf by (auto simp: keeps_masks_def)
  next
    case False
    then obtain t ts where t: "P c = t # ts" and o: "overload (rt_of s c)" by (cases "P c") auto
    show ?thesis
    proof (cases "prio_of s t < prio_of s (curr_of s c)")
      case True
      let ?s = "resched_task (curr_of s c) s"
      have "core_ok nr ?s Q P" using core_ok_core [OF resched_core] ok by blast
      moreover have "push_loop e c s = Some (Inr ?s)"
        using push_rt_task_preempt [OF rok r c o t True] unf by simp
      moreover have "local_cpu_mask ?s = local_cpu_mask s" using rq_frame_core [OF resched_core] by (simp add: rq_frame_def)
      ultimately show ?thesis using True t rt_core_fields [OF resched_core]
        by (intro exI [of _ ?s] exI [of _ Q] exI [of _ P]) (auto simp: keeps_masks_def)
    next
      case F: False
      from push_rt_task_step [OF less.prems o t F] obtain s' Q' P' where
        s': "push_rt_task e c s = Inr (True, s')" "push_frame e t s s'" "core_ok nr s' Q' P'" "P' c = ts"
          "rtasks Q' c \<subseteq> rtasks Q c" "queued Q' = queued Q" by blast
      note k = push_frame_keeps [OF s'(2)]
      have len: "length (P' c) < length (P c)" using s'(4) t by simp
      have mk: "local_cpu_mask s' (smp_processor_id e) \<noteq> None" using k(1) less.prems(4) by (simp add: keeps_masks_def)
      from less.hyps [OF len s'(3) c less.prems(3) mk less.prems(5)] obtain s2 Q2 P2 where
        "push_loop e c s' = Some (Inr s2)" "core_ok nr s2 Q2 P2" "queued Q2 = queued Q'" "rtasks Q2 c \<subseteq> rtasks Q' c"
        "\<forall>t. prio_of s2 t = prio_of s' t \<and> rt_class (tasks s2 t) = rt_class (tasks s' t)" "\<forall>k. curr_of s2 k = curr_of s' k" "keeps_masks s' (local_cpu_mask s2)"
        "overload (rt_of s2 c) \<longrightarrow> P2 c = [] \<or> prio_of s' (hd (P2 c)) < prio_of s' (curr_of s' c)" by blast
      then show ?thesis using s'(1,5,6) unf k(3-5) k(1)
        by (intro exI [of _ s2] exI [of _ Q2] exI [of _ P2]) (auto simp: keeps_masks_def)
    qed
  qed
qed

section \<open>Pulling\<close>

text \<open>What a pull may do: nothing, or bring in tasks that are more urgent than what the CPU had.\<close>

definition rt_tasks_ok :: "nat \<Rightarrow> sched \<Rightarrow> (nat \<Rightarrow> bool) \<Rightarrow> bool" where
  "rt_tasks_ok nr s T \<longleftrightarrow> (\<exists>Q P. core_ok nr s Q P \<and> queued Q = T)"

definition mig_frame :: "sched \<Rightarrow> sched \<Rightarrow> bool" where
  "mig_frame s s' \<longleftrightarrow> (\<forall>c. curr_of s' c = curr_of s c) \<and> local_cpu_mask s' = local_cpu_mask s \<and>
     (\<forall>t. prio_of s' t = prio_of s t \<and> on_rq (tasks s' t) = on_rq (tasks s t) \<and> rt_class (tasks s' t) = rt_class (tasks s t) \<and>
        on_cpu (tasks s' t) = on_cpu (tasks s t))"

lemma mig_frame_move: "move_frame t s s' \<Longrightarrow> mig_frame s s'"
  by (simp add: move_frame_def mig_frame_def)

definition pulled :: "nat \<Rightarrow> nat \<Rightarrow> (nat \<Rightarrow> bool) \<Rightarrow> bool \<Rightarrow> sched \<Rightarrow> bool \<Rightarrow> sched \<Rightarrow> bool" where
  "pulled nr this T ret s ret' s' \<longleftrightarrow> rt_tasks_ok nr s' T \<and>
     (if ret' \<and> \<not> ret then hp_curr (rt_of s' this) < hp_curr (rt_of s this)
      else hp_curr (rt_of s' this) \<le> hp_curr (rt_of s this)) \<and>
     (\<not> ret' \<longrightarrow> s' = s) \<and> (ret \<longrightarrow> ret') \<and> mig_frame s s'"

lemma find_SomeD:
  assumes "find f xs = Some x"
  shows "f x" "x \<in> set xs"
  using assms by (induction xs) (auto split: if_splits)

lemma pull_step_spec:
  assumes ok: "core_ok nr s Q P" and c: "this < nr" "cpu < nr" and q: "quiet e"
  shows "\<exists>ret' s'. pull_step e this cpu ret s = Inr (ret', s') \<and> pulled nr this (queued Q) ret s ret' s'"
proof -
  note rok = core_okD(1) [OF ok]
  have inv: "rt_inv nr s Q" and l: "lists_ok s Q" using rok by (auto simp: rt_ok_def rt_inv_def)
  have stay: "pulled nr this (queued Q) ret s ret s" using ok by (auto simp: pulled_def rt_tasks_ok_def mig_frame_def)
  have dl: "snd (double_lock_balance e this cpu s) = s" using q by (simp add: quiet_def double_lock_balance_def)
  have fb: "fam (runq s) (rqA Q)" "bitmap (rt_of s cpu) = bits (Q cpu)"
    using lists_ok_fam [OF l] rt_invD(3) [OF inv c(2)] by (auto simp: heads_ok_def)
  note pk = pick_next_highest_spec [OF fb, of "int this"]
  show ?thesis
  proof (cases "find (\<lambda>t. pick_rt_task s cpu t (int this)) (concat (map (Q cpu) [0..MAX_RT_PRIO - 1]))")
    case None
    then show ?thesis using stay dl pk by (auto simp: pull_step_def)
  next
    case (Some t)
    note t = find_SomeD [OF Some]
    from t(2) obtain i where i: "t \<in> set (Q cpu i)" by auto
    have pr: "0 \<le> prio_of s t" "prio_of s t < MAX_RT_PRIO" "prio_of s t = i" using lists_okD [OF l i] by auto
    have "queued Q t" using i by (auto simp: queued_def)
    then have g: "rt_class (tasks s t)" "curr_of s this \<noteq> t" "nr_cpus_allowed (tasks s t) > 1" and nc: "\<not> on_cpu (tasks s t)"
      using t core_okD [OF ok] by (auto simp: pick_rt_task_def task_running_def)
    from migrate_spec [OF rok i c(2,1) g, of e] obtain s' s1 where
      mv: "deactivate_task e cpu t 0 s = Inr s1" "activate_task e this t 0 (set_task_cpu t this s1) = Inr s'"
        "move_frame t s s'"
        "rt_ok nr s' (enq (deq Q cpu i t) this i t False) (push_add s this t (P(cpu := remove1 t (P cpu))))" by blast
    let ?Q = "enq (deq Q cpu i t) this i t False"
    have "hp_curr (rt_of s' this) \<le> prio_of s t"
      using mv(4) rt_invD(3) [of nr s' ?Q this] c pr by (auto simp: rt_ok_def heads_ok_def least_def enq_bits)
    moreover have "core_ok nr s' ?Q (push_add s this t (P(cpu := remove1 t (P cpu))))"
      by (rule core_ok_move [OF ok mv(3,4) nc g(1) moved_queued [OF l i]])
        (auto simp: push_add_def pl_insert_set split: if_splits dest: notin_set_remove1)
    ultimately have "prio_of s t < hp_curr (rt_of s this) \<Longrightarrow> pulled nr this (queued Q) ret s True s'"
      using moved_queued [OF l i] mig_frame_move [OF mv(3)] unfolding pulled_def rt_tasks_ok_def by (auto simp: fun_eq_iff)
    then show ?thesis using stay dl pk Some mv by (auto simp: pull_step_def)
  qed
qed

lemma pulled_trans: "pulled nr this T ret s ret1 s1 \<Longrightarrow> pulled nr this T ret1 s1 ret' s' \<Longrightarrow> pulled nr this T ret s ret' s'"
  unfolding pulled_def by (cases ret'; cases ret1; cases ret; simp; (linarith | (elim conjE, simp add: mig_frame_def))?)

lemma pull_loop_spec:
  assumes "rt_tasks_ok nr s T" "this < nr" "\<forall>k \<in> set ks. k < nr" "quiet e"
  shows "\<exists>ret' s'. pull_loop e this ks ret s = Inr (ret', s') \<and> pulled nr this T ret s ret' s'"
  using assms
proof (induction ks arbitrary: s ret)
  case Nil
  then show ?case by (auto simp: pulled_def mig_frame_def)
next
  case (Cons k ks)
  show ?case
  proof (cases "k \<in> rto_mask (rd_of s this)")
    case True
    from Cons.prems(1) obtain Q P where "core_ok nr s Q P" "queued Q = T" by (auto simp: rt_tasks_ok_def)
    with pull_step_spec [OF this(1) Cons.prems(2) _ Cons.prems(4), of k ret] Cons.prems(3) obtain r1 s1 where
      s1: "pull_step e this k ret s = Inr (r1, s1)" "pulled nr this T ret s r1 s1" by auto
    then have "rt_tasks_ok nr s1 T" by (simp add: pulled_def)
    from Cons.IH [OF this Cons.prems(2) _ Cons.prems(4), of r1] Cons.prems(3) obtain ret' s' where
      "pull_loop e this ks r1 s1 = Inr (ret', s')" "pulled nr this T r1 s1 ret' s'" by auto
    then show ?thesis using True s1 pulled_trans [OF s1(2)] by auto
  next
    case False
    then show ?thesis using Cons.IH [OF Cons.prems(1,2) _ Cons.prems(4), of ret] Cons.prems(3) by simp
  qed
qed

lemma pull_rt_task_spec:
  assumes "rt_tasks_ok nr s T" "this < nr" "nr_cpu_ids e = nr" "quiet e"
  shows "\<exists>ret s'. pull_rt_task e this s = Inr (ret, s') \<and> pulled nr this T False s ret s'"
  using pull_loop_spec [OF assms(1,2) _ assms(4), of "[0..<nr]" False] assms(1,3)
  by (auto simp: pull_rt_task_def pulled_def mig_frame_def)

end
