(* ===== verification/Sched_Core.thy ===== *)
theory Sched_Core
  imports Sched_Push
begin

text \<open>
  The part of \<open>kernel/sched.c\<close> around the real-time class: initialising a run queue, taking it online
  and offline, waking a task, and one pass of \<open>schedule\<close>. The fair, stop and idle classes and the load
  balancer are parameters, collected in \<open>core_env\<close>.
\<close>

record core_env =
  cenv :: sched_env
  cfs_nr_running :: "nat \<Rightarrow> sched \<Rightarrow> int"
  stop_pick :: "nat \<Rightarrow> sched \<Rightarrow> nat option \<times> sched"
  fair_pick :: "nat \<Rightarrow> sched \<Rightarrow> nat option \<times> sched"
  idle_pick :: "nat \<Rightarrow> sched \<Rightarrow> nat option \<times> sched"
  other_put_prev :: "nat \<Rightarrow> nat \<Rightarrow> sched \<Rightarrow> sched"
  idle_balance :: "nat \<Rightarrow> sched \<Rightarrow> sched"

section \<open>Run queues\<close>

primrec init_queues :: "nat \<Rightarrow> int list \<Rightarrow> sched \<Rightarrow> sched" where
  "init_queues c [] s = s"
| "init_queues c (i # is) s =
     (let s = s\<lparr>runq := INIT_LIST_HEAD (runq s) (queue c i)\<rparr>
      in init_queues c is (upd_rt c (\<lambda>r. r\<lparr>bitmap := bitmap r - {i}\<rparr>) s))"

definition init_rt_rq :: "nat \<Rightarrow> sched \<Rightarrow> sched" where
  "init_rt_rq c s =
     (let s = init_queues c [0..MAX_RT_PRIO - 1] s;
          s = upd_rt c (\<lambda>r. r\<lparr>bitmap := insert MAX_RT_PRIO (bitmap r)\<rparr>) s;
          s = upd_rt c (\<lambda>r. r\<lparr>hp_curr := MAX_RT_PRIO, hp_next := MAX_RT_PRIO, rt_nr_migratory := 0, overload := False\<rparr>) s;
          s = s\<lparr>pushable := plist_head_init (pushable s) c\<rparr>
      in upd_rt c (\<lambda>r. r\<lparr>rt_time := 0, rt_throttled := False, rt_runtime := 0\<rparr>) s)"

definition set_rq_online :: "nat \<Rightarrow> sched \<Rightarrow> sched run" where
  "set_rq_online c s =
     (if \<not> online (rqs s c)
      then let s = upd_rd (rd (rqs s c)) (\<lambda>d. d\<lparr>rd_online := insert c (rd_online d)\<rparr>) s;
               s = upd_rq c (\<lambda>q. q\<lparr>online := True\<rparr>) s
           in rq_online_rt c s
      else Inr s)"

definition set_rq_offline :: "sched_env \<Rightarrow> nat \<Rightarrow> sched \<Rightarrow> sched run" where
  "set_rq_offline e c s =
     (if online (rqs s c)
      then run_bind (rq_offline_rt e c s)
        (\<lambda>s. let s = upd_rd (rd (rqs s c)) (\<lambda>d. d\<lparr>rd_online := rd_online d - {c}\<rparr>) s
             in Inr (upd_rq c (\<lambda>q. q\<lparr>online := False\<rparr>) s))
      else Inr s)"

section \<open>Wakeup and schedule\<close>

definition DEQUEUE_SLEEP :: int where "DEQUEUE_SLEEP = 1"

definition clear_tsk_need_resched :: "nat \<Rightarrow> sched \<Rightarrow> sched" where
  "clear_tsk_need_resched t = upd_task t (\<lambda>p. p\<lparr>need_resched := False\<rparr>)"

definition ttwu_activate :: "sched_env \<Rightarrow> nat \<Rightarrow> nat \<Rightarrow> int \<Rightarrow> sched \<Rightarrow> sched run" where
  "ttwu_activate e c t en_flags s =
     run_bind (activate_task e c t en_flags s) (\<lambda>s. Inr (upd_task t (\<lambda>p. p\<lparr>on_rq := True\<rparr>) s))"

definition pre_schedule :: "sched_env \<Rightarrow> nat \<Rightarrow> nat \<Rightarrow> sched \<Rightarrow> sched run" where
  "pre_schedule e c prev s = (if rt_class (tasks s prev) then pre_schedule_rt e c prev s else Inr s)"

definition post_schedule_run :: "sched_env \<Rightarrow> nat \<Rightarrow> sched \<Rightarrow> sched run" where
  "post_schedule_run e c s =
     (if post_schedule (rqs s c)
      then run_bind (if rt_class (tasks s (curr_of s c)) then post_schedule_rt e c s else Inr s)
             (\<lambda>s. Inr (upd_rq c (\<lambda>q. q\<lparr>post_schedule := False\<rparr>) s))
      else Inr s)"

definition put_prev_task :: "core_env \<Rightarrow> nat \<Rightarrow> nat \<Rightarrow> sched \<Rightarrow> sched run" where
  "put_prev_task e c prev s =
     (let s = (if on_rq (tasks s prev) \<or> skip_clock_update (rqs s c) < 0 then update_rq_clock (cenv e) c s else s)
      in if rt_class (tasks s prev) then put_prev_task_rt (cenv e) c prev s else Inr (other_put_prev e c prev s))"

text \<open>The loop over the classes, in the order stop, real-time, fair, idle.\<close>

definition pick_class :: "core_env \<Rightarrow> nat \<Rightarrow> sched \<Rightarrow> (nat \<times> sched) run" where
  "pick_class e c s =
     (case stop_pick e c s of (Some p, s) \<Rightarrow> Inr (p, s) | (None, s) \<Rightarrow>
        run_bind (pick_next_task_rt c s) (\<lambda>r. case r of (Some p, s) \<Rightarrow> Inr (p, s) | (None, s) \<Rightarrow>
          (case fair_pick e c s of (Some p, s) \<Rightarrow> Inr (p, s) | (None, s) \<Rightarrow>
            (case idle_pick e c s of (Some p, s) \<Rightarrow> Inr (p, s) | (None, s) \<Rightarrow> Inl Bug))))"

definition pick_next_task :: "core_env \<Rightarrow> nat \<Rightarrow> sched \<Rightarrow> (nat \<times> sched) run" where
  "pick_next_task e c s =
     (if nr_running (rqs s c) = cfs_nr_running e c s
      then case fair_pick e c s of (Some p, s) \<Rightarrow> Inr (p, s) | (None, s) \<Rightarrow> pick_class e c s
      else pick_class e c s)"

definition context_switch :: "nat \<Rightarrow> nat \<Rightarrow> sched \<Rightarrow> sched" where
  "context_switch prev next s =
     upd_task prev (\<lambda>p. p\<lparr>on_cpu := False\<rparr>) (upd_task next (\<lambda>p. p\<lparr>on_cpu := True\<rparr>) s)"

text \<open>
  One pass of \<open>schedule\<close> on CPU \<open>c\<close>. The flag \<open>sleep\<close> is the condition under which the previous task
  is deactivated: it has left the running state, is not being preempted and no signal is pending.
\<close>

definition schedule :: "core_env \<Rightarrow> nat \<Rightarrow> bool \<Rightarrow> sched \<Rightarrow> sched run" where
  "schedule e c sleep s =
     (let prev = curr_of s c
      in run_bind (if sleep
                   then run_bind (deactivate_task (cenv e) c prev DEQUEUE_SLEEP s)
                          (\<lambda>s. Inr (upd_task prev (\<lambda>p. p\<lparr>on_rq := False\<rparr>) s))
                   else Inr s)
        (\<lambda>s. run_bind (pre_schedule (cenv e) c prev s)
        (\<lambda>s. let s = (if nr_running (rqs s c) = 0 then idle_balance e c s else s)
             in run_bind (put_prev_task e c prev s)
        (\<lambda>s. run_bind (pick_next_task e c s)
        (\<lambda>(next, s).
           let s = clear_tsk_need_resched prev s;
               s = upd_rq c (\<lambda>q. q\<lparr>skip_clock_update := 0\<rparr>) s;
               s = (if prev \<noteq> next
                    then context_switch prev next (upd_rq c (\<lambda>q. q\<lparr>curr := next\<rparr>) s)
                    else s)
           in post_schedule_run (cenv e) c s)))))"

section \<open>What the core relies on\<close>

text \<open>The other classes and the load balancer leave the real-time class alone.\<close>

definition leaves_rt :: "sched \<Rightarrow> sched \<Rightarrow> bool" where
  "leaves_rt s s' \<longleftrightarrow> rt_core s s' \<and> (\<forall>c. rt_of s' c = rt_of s c)"

definition pick_ok :: "(nat \<Rightarrow> sched \<Rightarrow> nat option \<times> sched) \<Rightarrow> bool" where
  "pick_ok pick \<longleftrightarrow> (\<forall>c s. leaves_rt s (snd (pick c s)) \<and>
     (\<forall>p. idle_ok s \<longrightarrow> fst (pick c s) = Some p \<longrightarrow> \<not> rt_class (tasks s p) \<and> task_cpu (tasks s p) = c))"

definition others_ok :: "core_env \<Rightarrow> bool" where
  "others_ok e \<longleftrightarrow> pick_ok (stop_pick e) \<and> pick_ok (fair_pick e) \<and> pick_ok (idle_pick e) \<and>
     (\<forall>c s. fst (idle_pick e c s) \<noteq> None) \<and>
     (\<forall>c s. leaves_rt s (idle_balance e c s)) \<and> (\<forall>c t s. leaves_rt s (other_put_prev e c t s)) \<and>
     (\<forall>c t f s. \<exists>s'. other_enqueue (cenv e) c t f s = Inr s' \<and> leaves_rt s s') \<and>
     (\<forall>c t f s. \<exists>s'. other_dequeue (cenv e) c t f s = Inr s' \<and> leaves_rt s s') \<and>
     (\<forall>c s. nr_running (rqs s c) = cfs_nr_running e c s \<longrightarrow> rt_nr_running (rt_of s c) = 0)"

definition stop_busy :: "core_env \<Rightarrow> nat \<Rightarrow> bool" where
  "stop_busy e c \<longleftrightarrow> (\<exists>s. fst (stop_pick e c s) \<noteq> None)"

lemma pick_okD:
  assumes "pick_ok pick" "pick c s = (r, s')"
  shows "rt_core s s'" "rt_of s' k = rt_of s k" "idle_ok s \<Longrightarrow> r = Some p \<Longrightarrow> \<not> rt_class (tasks s p)"
    "idle_ok s \<Longrightarrow> r = Some p \<Longrightarrow> task_cpu (tasks s p) = c"
proof -
  have "leaves_rt s (snd (pick c s))" "\<And>p. idle_ok s \<Longrightarrow> fst (pick c s) = Some p \<Longrightarrow> \<not> rt_class (tasks s p) \<and> task_cpu (tasks s p) = c"
    using assms(1) by (auto simp: pick_ok_def)
  then show "rt_core s s'" "rt_of s' k = rt_of s k" "idle_ok s \<Longrightarrow> r = Some p \<Longrightarrow> \<not> rt_class (tasks s p)"
    "idle_ok s \<Longrightarrow> r = Some p \<Longrightarrow> task_cpu (tasks s p) = c"
    using assms(2) by (auto simp: leaves_rt_def)
qed

lemma others_okD:
  assumes "others_ok e"
  shows "pick_ok (stop_pick e)" "pick_ok (fair_pick e)" "pick_ok (idle_pick e)" "fst (idle_pick e c s) \<noteq> None"
    "rt_core s (idle_balance e c s)" "rt_core s (other_put_prev e c t s)"
    "\<exists>s'. other_enqueue (cenv e) c t f s = Inr s' \<and> rt_core s s'"
    "\<exists>s'. other_dequeue (cenv e) c t f s = Inr s' \<and> rt_core s s'"
    "nr_running (rqs s c) = cfs_nr_running e c s \<Longrightarrow> rt_nr_running (rt_of s c) = 0"
proof -
  note o = assms [unfolded others_ok_def]
  show "pick_ok (stop_pick e)" "pick_ok (fair_pick e)" "pick_ok (idle_pick e)" using o by blast+
  show "fst (idle_pick e c s) \<noteq> None" using o by simp
  show "rt_core s (idle_balance e c s)" "rt_core s (other_put_prev e c t s)" using o by (simp_all add: leaves_rt_def)
  show "\<exists>s'. other_enqueue (cenv e) c t f s = Inr s' \<and> rt_core s s'"
    "\<exists>s'. other_dequeue (cenv e) c t f s = Inr s' \<and> rt_core s s'" using o unfolding leaves_rt_def by meson+
  show "nr_running (rqs s c) = cfs_nr_running e c s \<Longrightarrow> rt_nr_running (rt_of s c) = 0" using o by simp
qed

section \<open>Frames\<close>

lemma rt_ok_upd_rq:
  assumes "\<And>q. rd (f q) = rd q" "\<And>q. online (f q) = online q" "\<And>q. rt (f q) = rt q"
  shows "rt_ok nr (upd_rq c f s) Q P = rt_ok nr s Q P"
proof -
  let ?s = "upd_rq c f s"
  have e: "rd (rqs ?s k) = rd (rqs s k)" "online (rqs ?s k) = online (rqs s k)" "rt_of ?s k = rt_of s k" "tasks ?s = tasks s"
    "runq ?s = runq s" "rds ?s = rds s" "pushable ?s = pushable s" for k
    using assms by (simp_all add: upd_rq_def)
  have "push_ok ?s Q P = push_ok s Q P" by (rule push_ok_cong) (simp_all add: e)
  moreover have "lists_ok ?s Q = lists_ok s Q" by (rule lists_ok_cong) (simp_all add: e)
  ultimately show ?thesis
    by (simp add: rt_ok_def rt_inv_def counts_ok_def heads_ok_def migratory_def pri_ok_def over_ok_def over_cpus_def e)
qed

lemma idle_ok_core: "rt_core s s' \<Longrightarrow> idle_ok s' = idle_ok s"
  by (simp add: idle_ok_def rt_core_fields)

lemma idle_ok_frame:
  assumes a: "rq_frame s s'"
  shows "idle_ok s' = idle_ok s"
proof -
  have "idle (rqs s' c) = idle (rqs s c)" for c using a by (simp add: rq_frame_def)
  then show ?thesis by (simp add: idle_ok_def rq_frame_fields [OF a])
qed

lemma idle_ok_upd_task:
  assumes "\<And>p. rt_class (f p) = rt_class p" "\<And>p. task_cpu (f p) = task_cpu p"
  shows "idle_ok (upd_task t f s) = idle_ok s"
proof -
  have "rt_class (tasks (upd_task t f s) t') = rt_class (tasks s t')" "task_cpu (tasks (upd_task t f s) t') = task_cpu (tasks s t')" for t'
    using assms by (simp_all add: upd_task_def)
  then show ?thesis by (simp add: idle_ok_def)
qed

lemma core_rtasks:
  assumes "core_ok nr s Q P"
  shows "t \<in> rtasks Q c \<longleftrightarrow> on_rq (tasks s t) \<and> rt_class (tasks s t) \<and> task_cpu (tasks s t) = c"
proof -
  have l: "lists_ok s Q" using core_okD(1) [OF assms] by (simp add: rt_ok_def rt_inv_def)
  have "t \<in> rtasks Q k \<Longrightarrow> task_cpu (tasks s t) = k" for k using lists_okD(4) [OF l] by (auto simp: rtasks_def)
  then show ?thesis using core_okD(4) [OF assms, of t] by (auto simp: queued_rtasks)
qed

lemma core_ok_other_on_rq:
  assumes ok: "core_ok nr s Q P" and t: "\<not> rt_class (tasks s t)"
  shows "core_ok nr (upd_task t (\<lambda>p. p\<lparr>on_rq := b\<rparr>) s) Q P"
proof -
  let ?s = "upd_task t (\<lambda>p. p\<lparr>on_rq := b\<rparr>) s"
  have f: "on_cpu (tasks ?s k) = on_cpu (tasks s k)" "task_cpu (tasks ?s k) = task_cpu (tasks s k)" "curr_of ?s k = curr_of s k"
    "on_rq (tasks ?s k) \<and> rt_class (tasks ?s k) \<longleftrightarrow> on_rq (tasks s k) \<and> rt_class (tasks s k)" for k
    using t by (simp_all add: upd_task_def)
  have "idle_ok ?s = idle_ok s" by (simp add: idle_ok_upd_task)
  then show ?thesis using ok unfolding core_ok_def f by (simp add: rt_ok_upd_task)
qed

section \<open>Putting the running task to sleep\<close>

lemma deactivate_other:
  assumes o: "others_ok e" and r: "\<not> rt_class (tasks s t)"
  shows "\<exists>s'. deactivate_task (cenv e) c t f s = Inr s' \<and> rt_core s s'"
proof -
  define s1 where "s1 = update_rq_clock (cenv e) c (if contributes_to_load (tasks s t)
    then upd_rq c (\<lambda>q. q\<lparr>nr_uninterruptible := nr_uninterruptible q + 1\<rparr>) s else s)"
  have c1: "rt_core s s1" unfolding s1_def by (intro update_rq_clock_core load_core)
  obtain s2 where s2: "other_dequeue (cenv e) c t f s1 = Inr s2" "rt_core s1 s2" using others_okD(8) [OF o] by blast
  have c3: "rt_core s2 (upd_rq c (\<lambda>q. q\<lparr>nr_running := nr_running q - 1\<rparr>) s2)" using nr_running_core [of s2 c "- 1"] by simp
  have "deactivate_task (cenv e) c t f s = Inr (upd_rq c (\<lambda>q. q\<lparr>nr_running := nr_running q - 1\<rparr>) s2)"
    using s2(1) r rt_core_fields(18) [OF c1] by (simp add: deactivate_task_def dequeue_task_def s1_def [symmetric] Let_def)
  then show ?thesis using rt_core_trans [OF c1 rt_core_trans [OF s2(2) c3]] by blast
qed

lemma sleep_spec:
  assumes ok: "core_ok nr s Q P" and c: "c < nr" and o: "others_ok e" and r: "on_rq (tasks s (curr_of s c))"
  defines "prev \<equiv> curr_of s c"
  shows "\<exists>s' Q'. run_bind (deactivate_task (cenv e) c prev f s) (\<lambda>s. Inr (upd_task prev (\<lambda>p. p\<lparr>on_rq := False\<rparr>) s)) = Inr s' \<and>
    core_ok nr s' Q' P \<and> (\<forall>k. curr_of s' k = curr_of s k) \<and> local_cpu_mask s' = local_cpu_mask s"
proof (cases "rt_class (tasks s prev)")
  case True
  have "prev \<in> rtasks Q c" using core_rtasks [OF ok] True r core_okD(3) [OF ok] by (simp add: prev_def)
  then obtain i where i: "prev \<in> set (Q c i)" by (auto simp: rtasks_def)
  note l = core_okD(1) [OF ok, unfolded rt_ok_def rt_inv_def, THEN conjunct1, THEN conjunct1]
  from deactivate_task_spec [of nr s Q P prev c i "cenv e" f, OF core_okD(1) [OF ok] i c True] obtain s1 where
    s1: "deactivate_task (cenv e) c prev f s = Inr s1" "rq_frame s s1" "rt_ok nr s1 (deq Q c i prev) (P(c := remove1 prev (P c)))"
    by blast
  have "prev \<notin> set (P c)" using core_okD(2,5) [OF ok] by (auto simp: prev_def)
  then have P: "P(c := remove1 prev (P c)) = P" by (simp add: remove1_idem fun_upd_idem)
  let ?s = "upd_task prev (\<lambda>p. p\<lparr>on_rq := False\<rparr>) s1"
  have "rt_ok nr ?s (deq Q c i prev) P" using s1(3) rt_ok_upd_task [of "\<lambda>p. p\<lparr>on_rq := False\<rparr>" nr prev s1] unfolding P by simp
  moreover have "idle_ok ?s" using core_okD(7) [OF ok] idle_ok_frame [OF s1(2)] by (simp add: idle_ok_upd_task)
  moreover have f: "on_cpu (tasks ?s t) = on_cpu (tasks s t)" "task_cpu (tasks ?s t) = task_cpu (tasks s t)"
    "rt_class (tasks ?s t) = rt_class (tasks s t)" "on_rq (tasks ?s t) \<longleftrightarrow> on_rq (tasks s t) \<and> t \<noteq> prev" "curr_of ?s k = curr_of s k" for t k
    using rq_frame_fields [OF s1(2)] by (simp_all add: upd_task_def)
  ultimately have "core_ok nr ?s (deq Q c i prev) P"
    unfolding core_ok_def f deq_queued [OF l i] using ok by (simp add: core_ok_def) blast
  moreover have "curr_of ?s k = curr_of s k" for k using rq_frame_fields [OF s1(2)] by simp
  moreover have "local_cpu_mask ?s = local_cpu_mask s" using s1(2) by (simp add: rq_frame_def upd_task_def)
  ultimately show ?thesis using s1(1) by auto
next
  case False
  obtain s1 where s1: "deactivate_task (cenv e) c prev f s = Inr s1" "rt_core s s1" using deactivate_other [OF o False] by blast
  note g = rt_core_fields [OF s1(2)]
  let ?s = "upd_task prev (\<lambda>p. p\<lparr>on_rq := False\<rparr>) s1"
  have "core_ok nr s1 Q P" using ok core_ok_core [OF s1(2)] by simp
  then have "core_ok nr ?s Q P" using False g(18) by (intro core_ok_other_on_rq) simp_all
  then show ?thesis using s1(1) g by (auto simp: upd_task_def)
qed

section \<open>Before the choice\<close>

lemma pre_schedule_spec:
  assumes ok: "core_ok nr s Q P" and c: "c < nr" and n: "nr_cpu_ids e = nr" and q: "quiet e"
  shows "\<exists>s' Q' P'. pre_schedule e c prev s = Inr s' \<and> core_ok nr s' Q' P' \<and> mig_frame s s'"
proof -
  have "rt_tasks_ok nr s (queued Q)" using ok by (auto simp: rt_tasks_ok_def)
  from pull_rt_task_spec [OF this c n q] obtain r s' where
    p: "pull_rt_task e c s = Inr (r, s')" "pulled nr c (queued Q) False s r s'" by blast
  then obtain Q' P' where "core_ok nr s' Q' P'" "mig_frame s s'" by (auto simp: pulled_def rt_tasks_ok_def)
  moreover have "mig_frame s s" by (simp add: mig_frame_def)
  ultimately show ?thesis using p(1) ok by (auto simp: pre_schedule_def pre_schedule_rt_def)
qed

text \<open>
  Between \<open>put_prev_task\<close> and the switch, the running task of \<open>c\<close> may be on the list of pushable tasks.
\<close>

definition core_mid :: "nat \<Rightarrow> sched \<Rightarrow> rt_queues \<Rightarrow> (nat \<Rightarrow> nat list) \<Rightarrow> nat \<Rightarrow> bool" where
  "core_mid nr s Q P c \<longleftrightarrow> rt_ok nr s Q P \<and>
     (\<forall>k. on_cpu (tasks s (curr_of s k)) \<and> task_cpu (tasks s (curr_of s k)) = k) \<and>
     (\<forall>t. queued Q t \<longleftrightarrow> on_rq (tasks s t) \<and> rt_class (tasks s t)) \<and>
     (\<forall>k. \<forall>t \<in> set (P k). on_cpu (tasks s t) \<longrightarrow> t = curr_of s c) \<and>
     (\<forall>t. on_cpu (tasks s t) \<longrightarrow> curr_of s (task_cpu (tasks s t)) = t) \<and> idle_ok s"

lemma put_prev_spec:
  assumes ok: "core_ok nr s Q P" and o: "others_ok e"
  shows "\<exists>s' P'. put_prev_task e c (curr_of s c) s = Inr s' \<and> core_mid nr s' Q P' c \<and> rq_frame s s'"
proof -
  let ?t = "curr_of s c"
  define s1 where "s1 = (if on_rq (tasks s ?t) \<or> skip_clock_update (rqs s c) < 0 then update_rq_clock (cenv e) c s else s)"
  have c1: "rt_core s s1" unfolding s1_def by (auto intro: update_rq_clock_core rt_core_refl)
  note g = rt_core_fields [OF c1]
  have ok1: "core_ok nr s1 Q P" using ok core_ok_core [OF c1] by simp
  show ?thesis
  proof (cases "rt_class (tasks s ?t)")
    case True
    have "queued Q ?t \<Longrightarrow> ?t \<in> rtasks Q c" using core_okD(3,4) [OF ok] core_rtasks [OF ok] by simp
    from put_prev_task_rt_spec [OF core_okD(1) [OF ok1] this, of "cenv e"] obtain s2 where
      s2: "put_prev_task_rt (cenv e) c ?t s1 = Inr s2" "rq_frame s1 s2"
        "rt_ok nr s2 Q (if queued Q ?t \<and> nr_cpus_allowed (tasks s1 ?t) > 1 then push_add s1 c ?t P else P)" by blast
    let ?P = "if queued Q ?t \<and> nr_cpus_allowed (tasks s1 ?t) > 1 then push_add s1 c ?t P else P"
    note h = rq_frame_fields [OF s2(2)]
    have "set (?P k) \<subseteq> insert ?t (set (P k))" for k
      by (auto simp: push_add_def pl_insert_set dest: notin_set_remove1)
    then have "t = ?t" if "t \<in> set (?P k)" "on_cpu (tasks s t)" for t k using that core_okD(5) [OF ok, of t k] by blast
    moreover have "idle_ok s2" using core_okD(7) [OF ok1] idle_ok_frame [OF s2(2)] by simp
    ultimately have "core_mid nr s2 Q ?P c"
      unfolding core_mid_def h g using s2(3) [unfolded g] core_okD(2-4,6) [OF ok] by blast
    moreover have "put_prev_task e c ?t s = Inr s2" using True s2(1) g by (simp add: put_prev_task_def s1_def [symmetric] Let_def)
    ultimately show ?thesis using rq_frame_trans [OF rq_frame_core [OF c1] s2(2)] by blast
  next
    case False
    let ?s = "other_put_prev e c ?t s1"
    have c2: "rt_core s1 ?s" using others_okD(6) [OF o] .
    have "core_ok nr ?s Q P" using ok1 core_ok_core [OF c2] by simp
    then have "core_mid nr ?s Q P c" by (auto simp: core_ok_def core_mid_def)
    moreover have "put_prev_task e c ?t s = Inr ?s" using False g by (simp add: put_prev_task_def s1_def [symmetric] Let_def)
    ultimately show ?thesis using rq_frame_core [OF rt_core_trans [OF c1 c2]] by blast
  qed
qed

section \<open>The choice\<close>

definition picked :: "core_env \<Rightarrow> nat \<Rightarrow> nat \<Rightarrow> sched \<Rightarrow> rt_queues \<Rightarrow> (nat \<Rightarrow> nat list) \<Rightarrow> nat \<Rightarrow> sched \<Rightarrow> bool" where
  "picked e nr c s Q P next s' \<longleftrightarrow> task_cpu (tasks s next) = c \<and> rq_frame s s' \<and>
     (next \<in> rtasks Q c \<and> (\<forall>t \<in> rtasks Q c. prio_of s next \<le> prio_of s t) \<and> rt_ok nr s' Q (P(c := remove1 next (P c))) \<or>
      \<not> rt_class (tasks s next) \<and> rt_ok nr s' Q P \<and> (rtasks Q c = {} \<or> rt_throttled (rt_of s' c) \<or> stop_busy e c))"

lemma picked_core: "rt_core s s1 \<Longrightarrow> picked e nr c s1 Q P next s' \<Longrightarrow> picked e nr c s Q P next s'"
  using rq_frame_trans [OF rq_frame_core, of s s1 s'] by (simp add: picked_def rt_core_fields)

lemma picked_other:
  assumes "rt_ok nr s Q P" "pick_ok pick" "pick c s = (Some p, s')" "idle_ok s" "rtasks Q c = {} \<or> rt_throttled (rt_of s c) \<or> stop_busy e c"
  shows "picked e nr c s Q P p s'"
  using pick_okD [OF assms(2,3)] assms(1,4,5) rt_ok_core [of s s'] rq_frame_core [of s s'] by (simp add: picked_def)

lemma pick_class_spec:
  assumes ok: "rt_ok nr s Q P" and c: "c < nr" and o: "others_ok e" and id: "idle_ok s"
  shows "\<exists>next s'. pick_class e c s = Inr (next, s') \<and> picked e nr c s Q P next s'"
proof -
  obtain r1 s1 where p1: "stop_pick e c s = (r1, s1)" by (cases "stop_pick e c s")
  note k1 = pick_okD [OF others_okD(1) [OF o] p1]
  have ok1: "rt_ok nr s1 Q P" using ok rt_ok_core [OF k1(1)] by simp
  let ?n = "if rtasks Q c = {} \<or> rt_throttled (rt_of s1 c) then None else Some (hd (Q c (hp_curr (rt_of s1 c))))"
  from pick_next_task_rt_spec [OF ok1 c] obtain s2 where
    p2: "pick_next_task_rt c s1 = Inr (?n, s2)" "rq_frame s1 s2"
      "rt_ok nr s2 Q (case ?n of None \<Rightarrow> P | Some t \<Rightarrow> P(c := remove1 t (P c)))" by blast
  show ?thesis
  proof (cases r1)
    case (Some p)
    then have "stop_busy e c" using p1 by (auto simp: stop_busy_def intro!: exI [of _ s])
    then show ?thesis using p1 Some picked_other [OF ok others_okD(1) [OF o], of c p s1 e] id by (auto simp: pick_class_def)
  next
    case r1: None
    show ?thesis
    proof (cases "rtasks Q c = {} \<or> rt_throttled (rt_of s1 c)")
      case False
      let ?t = "hd (Q c (hp_curr (rt_of s1 c)))"
      have inv1: "rt_inv nr s1 Q" using ok1 by (simp add: rt_ok_def)
      note hq = head_queue [OF inv1 c]
      have ne: "rtasks Q c \<noteq> {}" using False by simp
      have t: "?t \<in> set (Q c (hp_curr (rt_of s1 c)))" using hq(2) [OF ne] by simp
      note ti = lists_okD [OF rt_invD(1) [OF inv1] t]
      have "rt_ok nr s2 Q (P(c := remove1 ?t (P c)))" using p2(3) False by simp
      moreover have "?t \<in> rtasks Q c" using t by (auto simp: rtasks_def)
      ultimately have "picked e nr c s1 Q P ?t s2" using p2(2) ti hq(4) [OF ne] by (simp add: picked_def)
      then show ?thesis using picked_core [OF k1(1)] p1 r1 p2(1) False by (auto simp: pick_class_def)
    next
      case True
      then have n: "pick_next_task_rt c s1 = Inr (None, s2)" "rt_ok nr s2 Q P" using p2 by auto
      have s2: "s2 = upd_rq c (\<lambda>q. q\<lparr>post_schedule := has_pushable_tasks c s1\<rparr>) s1"
        using n(1) by (auto simp: pick_next_task_rt_def raw_pick_next_task_rt_def run_bind_Inr_iff Let_def split: if_splits option.splits)
      have c2: "rt_core s1 s2" unfolding s2 by (rule upd_rq_post_core)
      have i2: "idle_ok s2" using id idle_ok_core [OF k1(1)] idle_ok_core [OF c2] by simp
      have th: "rtasks Q c = {} \<or> rt_throttled (rt_of s2 c) \<or> stop_busy e c" using True by (auto simp: s2 upd_rq_def)
      obtain r3 s3 where p3: "fair_pick e c s2 = (r3, s3)" by (cases "fair_pick e c s2")
      note k3 = pick_okD [OF others_okD(2) [OF o] p3]
      obtain p4 s4 where p4: "idle_pick e c s3 = (Some p4, s4)" using others_okD(4) [OF o, of c s3] by (cases "idle_pick e c s3") auto
      have "picked e nr c s2 Q P (case r3 of Some p \<Rightarrow> p | None \<Rightarrow> p4) (case r3 of Some p \<Rightarrow> s3 | None \<Rightarrow> s4)"
      proof (cases r3)
        case (Some p)
        then show ?thesis using picked_other [OF n(2) others_okD(2) [OF o] _ i2 th, of p s3] p3 by simp
      next
        case None
        have "rt_ok nr s3 Q P" using n(2) rt_ok_core [OF k3(1)] by simp
        moreover have "idle_ok s3" using i2 idle_ok_core [OF k3(1)] by simp
        ultimately have "picked e nr c s3 Q P p4 s4" using picked_other [OF _ others_okD(3) [OF o] p4] th k3(2) by simp
        then show ?thesis
          using picked_core [OF k3(1)] None by simp
      qed
      then have "picked e nr c s Q P (case r3 of Some p \<Rightarrow> p | None \<Rightarrow> p4) (case r3 of Some p \<Rightarrow> s3 | None \<Rightarrow> s4)"
        by (rule picked_core [OF rt_core_trans [OF k1(1) c2]])
      then show ?thesis using p1 r1 n(1) p3 p4 by (cases r3) (auto simp: pick_class_def)
    qed
  qed
qed

lemma pick_next_spec:
  assumes ok: "rt_ok nr s Q P" and c: "c < nr" and o: "others_ok e" and id: "idle_ok s"
  shows "\<exists>next s'. pick_next_task e c s = Inr (next, s') \<and> picked e nr c s Q P next s'"
proof -
  obtain r s1 where p: "fair_pick e c s = (r, s1)" by (cases "fair_pick e c s")
  note k = pick_okD [OF others_okD(2) [OF o] p]
  have ok1: "rt_ok nr s1 Q P" using ok rt_ok_core [OF k(1)] by simp
  show ?thesis
  proof (cases "nr_running (rqs s c) = cfs_nr_running e c s")
    case True
    have inv: "rt_inv nr s Q" using ok by (simp add: rt_ok_def)
    have "int (card (rtasks Q c)) = 0" using others_okD(9) [OF o True] rt_invD(2) [OF inv c] by (simp add: counts_ok_def)
    then have "rtasks Q c = {}" using rtasks_finite [OF rt_invD(1) [OF inv], of c] by simp
    then have "r = Some q \<Longrightarrow> picked e nr c s Q P q s1" for q using picked_other [OF ok others_okD(2) [OF o], of c q s1 e] p id by simp
    moreover have "idle_ok s1" using id idle_ok_core [OF k(1)] by simp
    ultimately show ?thesis using True p pick_class_spec [OF ok1 c o] picked_core [OF k(1)]
      by (cases r) (auto simp: pick_next_task_def)
  next
    case False
    then show ?thesis using pick_class_spec [OF ok c o id] by (simp add: pick_next_task_def)
  qed
qed

section \<open>The switch\<close>

text \<open>What \<open>schedule\<close> does to the state between the choice and \<open>post_schedule\<close>.\<close>

definition switched :: "nat \<Rightarrow> nat \<Rightarrow> nat \<Rightarrow> sched \<Rightarrow> sched" where
  "switched c prev next s =
     (let s = clear_tsk_need_resched prev s;
          s = upd_rq c (\<lambda>q. q\<lparr>skip_clock_update := 0\<rparr>) s
      in if prev \<noteq> next then context_switch prev next (upd_rq c (\<lambda>q. q\<lparr>curr := next\<rparr>) s) else s)"

lemma switched_rt_ok: "rt_ok nr (switched c prev next s) Q P = rt_ok nr s Q P"
  by (simp add: switched_def context_switch_def clear_tsk_need_resched_def Let_def rt_ok_upd_task rt_ok_upd_rq)

lemma switched_fields:
  assumes "curr_of s c = prev"
  shows "curr_of (switched c prev next s) k = (if k = c then next else curr_of s k)"
    "on_cpu (tasks (switched c prev next s) t) = (if prev = next then on_cpu (tasks s t) else if t = prev then False
       else if t = next then True else on_cpu (tasks s t))"
    "prio_of (switched c prev next s) t = prio_of s t" "on_rq (tasks (switched c prev next s) t) = on_rq (tasks s t)"
    "rt_class (tasks (switched c prev next s) t) = rt_class (tasks s t)"
    "task_cpu (tasks (switched c prev next s) t) = task_cpu (tasks s t)"
    "local_cpu_mask (switched c prev next s) = local_cpu_mask s" "rt_of (switched c prev next s) k = rt_of s k"
    "idle (rqs (switched c prev next s) k) = idle (rqs s k)"
  using assms by (auto simp: switched_def context_switch_def clear_tsk_need_resched_def Let_def upd_defs)

lemma switched_core:
  assumes m: "core_mid nr s Q P c" and p: "picked e nr c s Q P next s'"
  shows "\<exists>P'. core_ok nr (switched c (curr_of s c) next s') Q P'"
proof -
  let ?prev = "curr_of s c" and ?s = "switched c (curr_of s c) next s'"
  have rok: "rt_ok nr s Q P" and cur: "\<And>k. on_cpu (tasks s (curr_of s k))" "\<And>k. task_cpu (tasks s (curr_of s k)) = k"
    and qu: "\<And>t. queued Q t \<longleftrightarrow> on_rq (tasks s t) \<and> rt_class (tasks s t)"
    and ps: "\<And>t k. t \<in> set (P k) \<Longrightarrow> on_cpu (tasks s t) \<Longrightarrow> t = curr_of s c"
    and oc: "\<And>t. on_cpu (tasks s t) \<Longrightarrow> curr_of s (task_cpu (tasks s t)) = t" and id: "idle_ok s" using m unfolding core_mid_def by blast+
  have fr: "rq_frame s s'" and tn: "task_cpu (tasks s next) = c" using p by (auto simp: picked_def)
  note g = rq_frame_fields [OF fr]
  note f = switched_fields [of s' c ?prev "next", OF g(9)]
  have l: "lists_ok s Q" and pu: "push_ok s Q P" using rok by (auto simp: rt_ok_def rt_inv_def)
  have dP: "distinct (P k)" for k using pu plist_distinct by (auto simp: push_ok_def)
  have pq: "queued Q t" "task_cpu (tasks s t) = k" if "t \<in> set (P k)" for t k
    using that pu push_ok_own [OF pu l that] by (auto simp: push_ok_def queued_rtasks)
  obtain P' where P': "rt_ok nr s' Q P'" "\<And>k. set (P' k) \<subseteq> set (P k) - {next}"
  proof (cases "rt_class (tasks s next)")
    case True
    then have "rt_ok nr s' Q (P(c := remove1 next (P c)))" using p by (auto simp: picked_def)
    moreover have "set ((P(c := remove1 next (P c))) k) \<subseteq> set (P k) - {next}" for k
      using pq(2) [of "next" k] tn dP [of c] by (auto simp: set_remove1_eq)
    ultimately show ?thesis using that by blast
  next
    case False
    then have "next \<notin> set (P k)" for k using pq(1) qu by blast
    moreover have "rt_ok nr s' Q P" using p False qu [of "next"] queued_rtasks [of Q "next"] by (auto simp: picked_def)
    ultimately show ?thesis using that by blast
  qed
  have "\<not> on_cpu (tasks ?s t)" if t: "t \<in> set (P' k)" for t k
  proof -
    have "t \<noteq> next" "t \<in> set (P k)" using P'(2) [of k] t by auto
    then show ?thesis using ps [of t k] f(2) [of t] g(8) [of t] by (auto split: if_splits)
  qed
  moreover have "on_cpu (tasks ?s (curr_of ?s k)) \<and> task_cpu (tasks ?s (curr_of ?s k)) = k" for k
    using cur [of k] cur(2) [of c] tn by (cases "k = c") (auto simp: f g)
  moreover have "rt_ok nr ?s Q P'" using P'(1) by (simp add: switched_rt_ok)
  moreover have "idle_ok ?s" using id idle_ok_frame [OF fr] f(5,6,9) by (simp add: idle_ok_def)
  moreover have "curr_of ?s (task_cpu (tasks ?s t)) = t" if "on_cpu (tasks ?s t)" for t
  proof (cases "t = next")
    case True
    then show ?thesis using tn f(1,6) g(2) by simp
  next
    case False
    then have "on_cpu (tasks s t)" "t \<noteq> ?prev" using that f(2) [of t] g(8) [of t] by (auto split: if_splits)
    then show ?thesis using oc [of t] False f(1,6) g(2,9) by auto
  qed
  ultimately show ?thesis using qu unfolding core_ok_def f(4,5) g by blast
qed

lemma post_schedule_spec:
  assumes ok: "core_ok nr s Q P" and c: "c < nr" and n: "nr_cpu_ids e = nr" and q: "quiet e"
    and m: "local_cpu_mask s (smp_processor_id e) \<noteq> None"
  shows "\<exists>s' Q' P'. post_schedule_run e c s = Inr s' \<and> core_ok nr s' Q' P' \<and> rtasks Q' c \<subseteq> rtasks Q c \<and>
    (\<forall>t. prio_of s' t = prio_of s t \<and> rt_class (tasks s' t) = rt_class (tasks s t)) \<and> (\<forall>k. curr_of s' k = curr_of s k) \<and>
    keeps_masks s (local_cpu_mask s') \<and> (\<not> rt_class (tasks s (curr_of s c)) \<longrightarrow> rt_of s' c = rt_of s c)"
proof -
  have clear: "core_ok nr (upd_rq c (\<lambda>q. q\<lparr>post_schedule := b\<rparr>) s1) Q1 P1 = core_ok nr s1 Q1 P1" for s1 Q1 P1 b
    using core_ok_core [OF upd_rq_post_core] .
  show ?thesis
  proof (cases "post_schedule (rqs s c) \<and> rt_class (tasks s (curr_of s c))")
    case True
    from push_loop_spec [OF ok c n m q] obtain s1 Q1 P1 where
      s1: "push_loop e c s = Some (Inr s1)" "core_ok nr s1 Q1 P1" "rtasks Q1 c \<subseteq> rtasks Q c"
        "\<forall>t. prio_of s1 t = prio_of s t \<and> rt_class (tasks s1 t) = rt_class (tasks s t)" "\<forall>k. curr_of s1 k = curr_of s k"
        "keeps_masks s (local_cpu_mask s1)" by blast
    let ?s = "upd_rq c (\<lambda>q. q\<lparr>post_schedule := False\<rparr>) s1"
    have "post_schedule_run e c s = Inr ?s"
      using True s1(1) by (simp add: post_schedule_run_def post_schedule_rt_def push_rt_tasks_def)
    moreover have "core_ok nr ?s Q1 P1" using s1(2) clear by simp
    ultimately show ?thesis using s1(3-) True
      by (intro exI [of _ ?s] exI [of _ Q1] exI [of _ P1]) (simp add: upd_rq_def)
  next
    case False
    then have "post_schedule_run e c s = Inr (if post_schedule (rqs s c) then upd_rq c (\<lambda>q. q\<lparr>post_schedule := False\<rparr>) s else s)"
      by (auto simp: post_schedule_run_def)
    then show ?thesis using ok clear
      by (intro exI [of _ "if post_schedule (rqs s c) then upd_rq c (\<lambda>q. q\<lparr>post_schedule := False\<rparr>) s else s"]
          exI [of _ Q] exI [of _ P]) (simp add: upd_rq_def keeps_masks_def)
  qed
qed

text \<open>
  The states of the scheduler as a whole, and the runnable real-time tasks of a CPU.
\<close>

definition sched_ok :: "nat \<Rightarrow> sched \<Rightarrow> bool" where
  "sched_ok nr s \<longleftrightarrow> (\<exists>Q P. core_ok nr s Q P) \<and> (\<forall>i < nr. local_cpu_mask s i \<noteq> None)"

definition runnable_rt :: "sched \<Rightarrow> nat \<Rightarrow> nat \<Rightarrow> bool" where
  "runnable_rt s c t \<longleftrightarrow> on_rq (tasks s t) \<and> rt_class (tasks s t) \<and> task_cpu (tasks s t) = c"

lemma schedule_tail:
  assumes m: "core_mid nr s Q P c" and c: "c < nr" and o: "others_ok e" and n: "nr_cpu_ids (cenv e) = nr"
    and q: "quiet (cenv e)" and i: "smp_processor_id (cenv e) < nr" and lm: "\<forall>i < nr. local_cpu_mask s i \<noteq> None"
  shows "\<exists>next s1 s'. pick_next_task e c s = Inr (next, s1) \<and> post_schedule_run (cenv e) c (switched c (curr_of s c) next s1) = Inr s' \<and>
    sched_ok nr s' \<and> curr_of s' c = next \<and>
    (rt_class (tasks s' next) \<longrightarrow> (\<forall>t. runnable_rt s' c t \<longrightarrow> prio_of s' next \<le> prio_of s' t)) \<and>
    (\<not> rt_class (tasks s' next) \<longrightarrow> (\<forall>t. \<not> runnable_rt s' c t) \<or> rt_throttled (rt_of s' c) \<or> stop_busy e c)"
proof -
  have rok: "rt_ok nr s Q P" and id: "idle_ok s" using m by (simp_all add: core_mid_def)
  from pick_next_spec [OF rok c o id] obtain nx s1 where
    s1: "pick_next_task e c s = Inr (nx, s1)" "picked e nr c s Q P nx s1" by blast
  from switched_core [OF m s1(2)] obtain P1 where ok2: "core_ok nr (switched c (curr_of s c) nx s1) Q P1" by blast
  have fr: "rq_frame s s1" using s1(2) by (simp add: picked_def)
  note g = rq_frame_fields [OF fr]
  note f = switched_fields [of s1 c "curr_of s c" nx, OF g(9)]
  let ?s2 = "switched c (curr_of s c) nx s1"
  have lm2: "local_cpu_mask ?s2 = local_cpu_mask s" using f(7) fr by (simp add: rq_frame_def)
  from post_schedule_spec [OF ok2 c n q] lm i lm2 obtain s' Q' P' where
    s': "post_schedule_run (cenv e) c ?s2 = Inr s'" "core_ok nr s' Q' P'" "rtasks Q' c \<subseteq> rtasks Q c"
      "\<forall>t. prio_of s' t = prio_of ?s2 t \<and> rt_class (tasks s' t) = rt_class (tasks ?s2 t)" "\<forall>k. curr_of s' k = curr_of ?s2 k"
      "keeps_masks ?s2 (local_cpu_mask s')" "\<not> rt_class (tasks ?s2 (curr_of ?s2 c)) \<longrightarrow> rt_of s' c = rt_of ?s2 c" by auto
  have run: "runnable_rt s' c t \<longleftrightarrow> t \<in> rtasks Q' c" for t using core_rtasks [OF s'(2)] by (simp add: runnable_rt_def)
  have qu: "queued Q nx \<Longrightarrow> rt_class (tasks s nx)" using m by (simp add: core_mid_def)
  have "sched_ok nr s'" using s'(2,6) lm unfolding sched_ok_def keeps_masks_def lm2 by blast
  moreover have "curr_of s' c = nx" using s'(5) f(1) by simp
  moreover have "prio_of s' nx \<le> prio_of s' t" if "rt_class (tasks s' nx)" "runnable_rt s' c t" for t
    using s1(2) that s'(3,4) f g unfolding run picked_def by auto
  moreover have "(\<forall>t. \<not> runnable_rt s' c t) \<or> rt_throttled (rt_of s' c) \<or> stop_busy e c" if "\<not> rt_class (tasks s' nx)"
    using s1(2) that s'(3,4,7) f g qu unfolding run picked_def by (auto simp: queued_rtasks)
  ultimately show ?thesis using s1(1) s'(1) by blast
qed

lemma schedule_spec:
  assumes ok: "sched_ok nr s" and c: "c < nr" and o: "others_ok e" and n: "nr_cpu_ids (cenv e) = nr"
    and q: "quiet (cenv e)" and i: "smp_processor_id (cenv e) < nr" and sl: "sleep \<Longrightarrow> on_rq (tasks s (curr_of s c))"
  shows "\<exists>s'. schedule e c sleep s = Inr s' \<and> sched_ok nr s' \<and>
    (rt_class (tasks s' (curr_of s' c)) \<longrightarrow> (\<forall>t. runnable_rt s' c t \<longrightarrow> prio_of s' (curr_of s' c) \<le> prio_of s' t)) \<and>
    (\<not> rt_class (tasks s' (curr_of s' c)) \<longrightarrow> (\<forall>t. \<not> runnable_rt s' c t) \<or> rt_throttled (rt_of s' c) \<or> stop_busy e c)"
proof -
  let ?prev = "curr_of s c"
  obtain Q P where co: "core_ok nr s Q P" and lm: "\<forall>i < nr. local_cpu_mask s i \<noteq> None" using ok by (auto simp: sched_ok_def)
  obtain s1 Q1 where s1: "(if sleep then run_bind (deactivate_task (cenv e) c ?prev DEQUEUE_SLEEP s)
        (\<lambda>s. Inr (upd_task ?prev (\<lambda>p. p\<lparr>on_rq := False\<rparr>) s)) else Inr s) = Inr s1"
      "core_ok nr s1 Q1 P" "curr_of s1 c = ?prev" "local_cpu_mask s1 = local_cpu_mask s"
    using sleep_spec [OF co c o, of DEQUEUE_SLEEP] sl co by (cases sleep) auto
  obtain s2 Q2 P2 where s2: "pre_schedule (cenv e) c ?prev s1 = Inr s2" "core_ok nr s2 Q2 P2" "mig_frame s1 s2"
    using pre_schedule_spec [OF s1(2) c n q] by blast
  define s3 where "s3 = (if nr_running (rqs s2 c) = 0 then idle_balance e c s2 else s2)"
  have c3: "rt_core s2 s3" unfolding s3_def using others_okD(5) [OF o] rt_core_refl by auto
  have ok3: "core_ok nr s3 Q2 P2" using s2(2) core_ok_core [OF c3] by simp
  have p3: "curr_of s3 c = ?prev" using s1(3) s2(3) rt_core_fields(7) [OF c3] by (simp add: mig_frame_def)
  obtain s4 P4 where s4: "put_prev_task e c ?prev s3 = Inr s4" "core_mid nr s4 Q2 P4 c" "rq_frame s3 s4"
    using put_prev_spec [OF ok3 o, of c] unfolding p3 by blast
  have p4: "curr_of s4 c = ?prev" using rq_frame_fields(9) [OF s4(3)] p3 by simp
  have lm4: "\<forall>i < nr. local_cpu_mask s4 i \<noteq> None"
    using lm s1(4) s2(3) rt_core_fields(4) [OF c3] s4(3) by (simp add: mig_frame_def rq_frame_def)
  from schedule_tail [OF s4(2) c o n q i lm4] obtain nx s5 s' where
    s5: "pick_next_task e c s4 = Inr (nx, s5)" "post_schedule_run (cenv e) c (switched c ?prev nx s5) = Inr s'"
      "sched_ok nr s'" "curr_of s' c = nx"
      "rt_class (tasks s' nx) \<longrightarrow> (\<forall>t. runnable_rt s' c t \<longrightarrow> prio_of s' nx \<le> prio_of s' t)"
      "\<not> rt_class (tasks s' nx) \<longrightarrow> (\<forall>t. \<not> runnable_rt s' c t) \<or> rt_throttled (rt_of s' c) \<or> stop_busy e c" unfolding p4 by blast
  have "schedule e c sleep s = Inr s'"
    unfolding schedule_def Let_def s1(1) run_bind_simps s2(1) s3_def [symmetric] s4(1) s5(1)
    using s5(2) by (simp add: switched_def Let_def)
  then show ?thesis using s5(3-) by blast
qed

end
