(* ===== verification/Sched_Run.thy ===== *)
theory Sched_Run
  imports Sched_Core
begin

text \<open>
  Whole runs of the scheduler: the state after boot, the events that act on it (a CPU comes online, a
  task wakes up, a CPU enters \<open>schedule\<close>, yields, takes a timer tick, a task changes its affinity) and
  the invariant every run keeps.
\<close>

section \<open>Events\<close>

lemma enq_queued: "queued (enq Q d j t b) t' \<longleftrightarrow> t' = t \<or> queued Q t'"
  by (auto simp: queued_def enq_apply)

lemma wake_spec:
  assumes ok: "core_ok nr s Q P" and o: "others_ok e" and t: "\<not> on_rq (tasks s t)" "\<not> on_cpu (tasks s t)"
    and c: "task_cpu (tasks s t) < nr" and pr: "rt_class (tasks s t) \<Longrightarrow> 0 \<le> prio_of s t \<and> prio_of s t < MAX_RT_PRIO"
  shows "\<exists>s' Q' P'. ttwu_activate (cenv e) (task_cpu (tasks s t)) t f s = Inr s' \<and> core_ok nr s' Q' P' \<and>
    local_cpu_mask s' = local_cpu_mask s"
proof (cases "rt_class (tasks s t)")
  case True
  let ?c = "task_cpu (tasks s t)"
  have n: "\<not> queued Q t" using core_okD(4) [OF ok] t by simp
  have pr': "0 \<le> prio_of s t" "prio_of s t < MAX_RT_PRIO" using pr [OF True] by auto
  let ?Q = "enq Q ?c (prio_of s t) t (f AND ENQUEUE_HEAD \<noteq> 0)"
  let ?P = "if curr_of s ?c \<noteq> t \<and> nr_cpus_allowed (tasks s t) > 1 then push_add s ?c t P else P"
  from activate_task_spec [OF core_okD(1) [OF ok] n pr' refl c True, of "cenv e" f] obtain s1 where
    s1: "activate_task (cenv e) ?c t f s = Inr s1" "rq_frame s s1" "rt_ok nr s1 ?Q ?P" by blast
  note g = rq_frame_fields [OF s1(2)]
  let ?s = "upd_task t (\<lambda>p. p\<lparr>on_rq := True\<rparr>) s1"
  have "rt_ok nr ?s ?Q ?P" using s1(3) by (simp add: rt_ok_upd_task)
  moreover have "\<not> on_cpu (tasks ?s t')" if "t' \<in> set (?P k)" for t' k
  proof -
    have "t' = t \<or> t' \<in> set (P k)" using that by (auto simp: push_add_def pl_insert_set split: if_splits dest: notin_set_remove1)
    then show ?thesis using core_okD(5) [OF ok, of t' k] t(2) g(8) by (auto simp: upd_task_def)
  qed
  moreover have "queued ?Q t' \<longleftrightarrow> on_rq (tasks ?s t') \<and> rt_class (tasks ?s t')" for t'
  proof -
    show ?thesis using enq_queued [of Q ?c "prio_of s t" t "f AND ENQUEUE_HEAD \<noteq> 0" t'] core_okD(4) [OF ok, of t'] True g(5,6) by (auto simp: upd_task_def)
  qed
  moreover have "on_cpu (tasks ?s (curr_of ?s k)) \<and> task_cpu (tasks ?s (curr_of ?s k)) = k" for k
    using core_okD(2,3) [OF ok] g by (auto simp: upd_task_def)
  moreover have "curr_of ?s (task_cpu (tasks ?s t')) = t'" if "on_cpu (tasks ?s t')" for t'
    using that core_okD(6) [OF ok, of t'] g by (auto simp: upd_task_def split: if_splits)
  moreover have "idle_ok ?s" using core_okD(7) [OF ok] idle_ok_frame [OF s1(2)] by (simp add: idle_ok_upd_task)
  ultimately have "core_ok nr ?s ?Q ?P" unfolding core_ok_def by blast
  moreover have "local_cpu_mask ?s = local_cpu_mask s" using s1(2) by (simp add: rq_frame_def upd_task_def)
  ultimately show ?thesis using s1(1) by (auto simp: ttwu_activate_def)
next
  case False
  let ?c = "task_cpu (tasks s t)"
  define s1 where "s1 = update_rq_clock (cenv e) ?c (if contributes_to_load (tasks s t)
    then upd_rq ?c (\<lambda>q. q\<lparr>nr_uninterruptible := nr_uninterruptible q - 1\<rparr>) s else s)"
  have c1: "rt_core s s1" unfolding s1_def
    by (intro update_rq_clock_core load_core [where k = "- 1", unfolded add_uminus_conv_diff])
  obtain s2 where s2: "other_enqueue (cenv e) ?c t f s1 = Inr s2" "rt_core s1 s2" using others_okD(7) [OF o] by blast
  let ?s3 = "upd_rq ?c (\<lambda>q. q\<lparr>nr_running := nr_running q + 1\<rparr>) s2"
  have c3: "rt_core s ?s3" using rt_core_trans [OF c1 rt_core_trans [OF s2(2) nr_running_core]] .
  let ?s = "upd_task t (\<lambda>p. p\<lparr>on_rq := True\<rparr>) ?s3"
  have "ttwu_activate (cenv e) ?c t f s = Inr ?s"
    using s2(1) False rt_core_fields(18) [OF c1]
    by (simp add: ttwu_activate_def activate_task_def enqueue_task_def s1_def [symmetric] Let_def)
  moreover have "core_ok nr ?s3 Q P" using ok core_ok_core [OF c3] by simp
  then have "core_ok nr ?s Q P" using False rt_core_fields(18) [OF c3, of t] by (intro core_ok_other_on_rq) simp_all
  moreover have "local_cpu_mask ?s = local_cpu_mask s" using rt_core_fields(4) [OF c3] by (simp add: upd_task_def)
  ultimately show ?thesis by blast
qed

lemma core_ok_requeue:
  assumes ok: "core_ok nr s Q P" and t: "t \<in> set (Q c i)"
  shows "core_ok nr (requeue_task_rt c' t head s) (requeue Q c i t head) P"
proof -
  have l: "lists_ok s Q" using core_okD(1) [OF ok] by (simp add: rt_ok_def rt_inv_def)
  obtain h where h: "requeue_task_rt c' t head s = s\<lparr>runq := h\<rparr>" using requeue_runq by blast
  have "queued (requeue Q c i t head) = queued Q" by (simp add: fun_eq_iff queued_def requeue_set [OF l t])
  then show ?thesis using ok requeue_task_rt_spec [OF core_okD(1) [OF ok] t, of c' head] unfolding core_ok_def idle_ok_def h by simp
qed

lemma yield_spec:
  assumes ok: "core_ok nr s Q P"
  shows "\<exists>Q'. core_ok nr (yield_task_rt c s) Q' P \<and> local_cpu_mask (yield_task_rt c s) = local_cpu_mask s"
proof -
  have l: "lists_ok s Q" using core_okD(1) [OF ok] by (simp add: rt_ok_def rt_inv_def)
  obtain h where h: "yield_task_rt c s = s\<lparr>runq := h\<rparr>" unfolding yield_task_rt_def using requeue_runq by blast
  show ?thesis
  proof (cases "queued Q (curr_of s c)")
    case True
    then obtain k i where "curr_of s c \<in> set (Q k i)" by (auto simp: queued_def)
    from core_ok_requeue [OF ok this, of c False] h show ?thesis by (auto simp: yield_task_rt_def)
  next
    case False
    then show ?thesis using ok requeue_absent [OF l] by (auto simp: yield_task_rt_def)
  qed
qed

lemma tick_fields:
  "curr_of (task_tick_rt e c t s) k = curr_of s k" "on_cpu (tasks (task_tick_rt e c t s) t') = on_cpu (tasks s t')"
  "on_rq (tasks (task_tick_rt e c t s) t') = on_rq (tasks s t')" "rt_class (tasks (task_tick_rt e c t s) t') = rt_class (tasks s t')"
  "task_cpu (tasks (task_tick_rt e c t s) t') = task_cpu (tasks s t')" "prio_of (task_tick_rt e c t s) t' = prio_of s t'"
  "policy (tasks (task_tick_rt e c t s) t') = policy (tasks s t')"
  "local_cpu_mask (task_tick_rt e c t s) = local_cpu_mask s" "hp_curr (rt_of (task_tick_rt e c t s) k) = hp_curr (rt_of s k)"
  "t' \<noteq> t \<Longrightarrow> time_slice (tasks (task_tick_rt e c t s) t') = time_slice (tasks s t')"
  "idle (rqs (task_tick_rt e c t s) k) = idle (rqs s k)"
proof -
  define s1 where "s1 = watchdog e t (update_curr_rt e c s)"
  have c1: "rt_core s s1" unfolding s1_def by (intro watchdog_core update_curr_rt_core)
  note g = rt_core_fields [OF c1]
  have r: "\<exists>h. requeue_task_rt c t False s' = s'\<lparr>runq := h\<rparr>" for s' using requeue_runq by blast
  obtain f h where f: "task_tick_rt e c t s = (upd_task t f s1)\<lparr>runq := h\<rparr>"
      "\<And>p. on_cpu (f p) = on_cpu p \<and> on_rq (f p) = on_rq p \<and> rt_class (f p) = rt_class p \<and> task_cpu (f p) = task_cpu p \<and>
        prio (f p) = prio p \<and> policy (f p) = policy p"
  proof -
    let ?s2 = "upd_task t (\<lambda>p. p\<lparr>time_slice := u32 (time_slice p - 1)\<rparr>) s1"
    let ?s3 = "upd_task t (\<lambda>p. p\<lparr>time_slice := DEF_TIMESLICE e\<rparr>) ?s2"
    obtain h where h: "requeue_task_rt c t False ?s3 = ?s3\<lparr>runq := h\<rparr>" using r by blast
    consider "task_tick_rt e c t s = s1" | "task_tick_rt e c t s = ?s2" | "task_tick_rt e c t s = ?s3"
      | "task_tick_rt e c t s = set_tsk_need_resched t (?s3\<lparr>runq := h\<rparr>)"
      unfolding task_tick_rt_def Let_def s1_def [symmetric] h by meson
    then show ?thesis
    proof cases
      case 1
      then show ?thesis using that [where f = "\<lambda>p. p" and h = "runq s1"] by (simp add: upd_task_def)
    next
      case 2
      then show ?thesis using that [where f = "\<lambda>p. p\<lparr>time_slice := u32 (time_slice p - 1)\<rparr>" and h = "runq s1"] by (simp add: upd_task_def)
    next
      case 3
      then show ?thesis using that [where f = "\<lambda>p. p\<lparr>time_slice := DEF_TIMESLICE e\<rparr>" and h = "runq s1"] by (simp add: upd_task_def)
    next
      case 4
      then show ?thesis using that [where f = "\<lambda>p. p\<lparr>time_slice := DEF_TIMESLICE e, need_resched := True\<rparr>" and h = h]
        by (simp add: upd_task_def set_tsk_need_resched_def)
    qed
  qed
  show "curr_of (task_tick_rt e c t s) k = curr_of s k" "on_cpu (tasks (task_tick_rt e c t s) t') = on_cpu (tasks s t')"
    "on_rq (tasks (task_tick_rt e c t s) t') = on_rq (tasks s t')" "rt_class (tasks (task_tick_rt e c t s) t') = rt_class (tasks s t')"
    "task_cpu (tasks (task_tick_rt e c t s) t') = task_cpu (tasks s t')" "prio_of (task_tick_rt e c t s) t' = prio_of s t'"
    "policy (tasks (task_tick_rt e c t s) t') = policy (tasks s t')"
    "local_cpu_mask (task_tick_rt e c t s) = local_cpu_mask s" "hp_curr (rt_of (task_tick_rt e c t s) k) = hp_curr (rt_of s k)"
    "t' \<noteq> t \<Longrightarrow> time_slice (tasks (task_tick_rt e c t s) t') = time_slice (tasks s t')"
    "idle (rqs (task_tick_rt e c t s) k) = idle (rqs s k)"
    unfolding f(1) using f(2) g by (simp_all add: upd_task_def)
qed

lemma tick_spec:
  assumes ok: "core_ok nr s Q P"
  shows "\<exists>Q'. core_ok nr (task_tick_rt e c t s) Q' P"
proof -
  have l: "lists_ok s Q" using core_okD(1) [OF ok] by (simp add: rt_ok_def rt_inv_def)
  let ?c = "task_cpu (tasks s t)" and ?i = "prio_of s t"
  define rot where "rot \<longleftrightarrow> policy (tasks s t) = SCHED_RR \<and> u32 (time_slice (tasks s t) - 1) = 0 \<and> t \<in> set (Q ?c ?i) \<and> length (Q ?c ?i) > 1"
  let ?Q = "if rot then requeue Q ?c ?i t False else Q"
  have "rt_ok nr (task_tick_rt e c t s) ?Q P" using task_tick_rt_spec(1) [OF core_okD(1) [OF ok], of e c t] by (simp add: rot_def)
  moreover have "queued ?Q = queued Q" using requeue_set [OF l, of t ?c ?i] by (auto simp: fun_eq_iff queued_def rot_def)
  ultimately have "core_ok nr (task_tick_rt e c t s) ?Q P" using ok unfolding core_ok_def idle_ok_def tick_fields by simp
  then show ?thesis by blast
qed

lemma set_rq_online_inv:
  assumes inv: "rt_inv nr s Q" and c: "c < nr" and off: "\<not> online (rqs s c)"
  shows "\<exists>s'. set_rq_online c s = Inr s' \<and> rt_inv nr s' Q \<and> tasks s' = tasks s \<and> runq s' = runq s \<and> pushable s' = pushable s \<and>
    local_cpu_mask s' = local_cpu_mask s \<and> (\<forall>k. curr_of s' k = curr_of s k \<and> idle (rqs s' k) = idle (rqs s k))"
proof -
  note iv = rt_invD [OF inv]
  let ?d = "rd (rqs s c)"
  define s1 where "s1 = upd_rq c (\<lambda>q. q\<lparr>online := True\<rparr>) (upd_rd ?d (\<lambda>d. d\<lparr>rd_online := insert c (rd_online d)\<rparr>) s)"
  have f1: "rd (rqs s1 k) = rd (rqs s k)" "online (rqs s1 k) = (k = c \<or> online (rqs s k))" "rt_of s1 k = rt_of s k"
    "rd_cpupri (rds s1 d) = rd_cpupri (rds s d)" "rto_mask (rds s1 d) = rto_mask (rds s d)" "rto_count (rds s1 d) = rto_count (rds s d)"
    "curr_of s1 k = curr_of s k" "idle (rqs s1 k) = idle (rqs s k)" for k d
    by (simp_all add: s1_def upd_rq_def upd_rd_def)
  define s2 where "s2 = (if overload (rt_of s1 c) then rt_set_overload c s1 else s1)"
  have f2: "rqs s2 = rqs s1" "rd_cpupri (rds s2 d) = rd_cpupri (rds s d)"
    "rto_mask (rds s2 d) = (if d = ?d \<and> overload (rt_of s c) then insert c (rto_mask (rds s d)) else rto_mask (rds s d))"
    "rto_count (rds s2 d) = (if d = ?d \<and> overload (rt_of s c) then rto_count (rds s d) + 1 else rto_count (rds s d))" for d
    by (auto simp: s2_def rt_set_overload_def f1 Let_def)
  define s3 where "s3 = raw_enable_runtime c s2"
  have f3: "rds s3 = rds s2" "rd (rqs s3 k) = rd (rqs s k)" "online (rqs s3 k) = (k = c \<or> online (rqs s k))"
    "core_rt (rt_of s3 k) = core_rt (rt_of s k)" "curr_of s3 k = curr_of s k" "idle (rqs s3 k) = idle (rqs s k)" for k
    by (auto simp: s3_def raw_enable_runtime_def f1 f2 core_rt_def upd_rt_def upd_rq_def)
  have g3: "tasks s3 = tasks s" "runq s3 = runq s" "pushable s3 = pushable s" "local_cpu_mask s3 = local_cpu_mask s"
    by (auto simp: s3_def raw_enable_runtime_def s2_def rt_set_overload_def s1_def upd_rq_def upd_rd_def upd_rt_def Let_def)
  have h3: "hp_curr (rt_of s3 k) = hp_curr (rt_of s k)" "overload (rt_of s3 k) = overload (rt_of s k)"
    "bitmap (rt_of s3 k) = bitmap (rt_of s k)" for k using f3(4) [of k] by (simp_all add: core_rt_def)
  have p3: "pri_at nr s3 ((\<lambda>k. hp_curr (rt_of s k))(c := - 1))"
    using iv(4) off unfolding pri_at_def by (auto simp: f2 f3 convert_prio_def cpupri_consts)
  have "- 1 \<le> hp_curr (rt_of s3 c)" using hp_range(1) [OF inv c] h3 by simp
  from rd_cpupri_set_spec [OF p3 c _ this] f3(3) obtain cp where
    r: "rd_cpupri_set c (hp_curr (rt_of s3 c)) s3 = Inr (upd_rd (rd (rqs s3 c)) (\<lambda>d. d\<lparr>rd_cpupri := cp\<rparr>) s3)"
      "pri_at nr (upd_rd (rd (rqs s3 c)) (\<lambda>d. d\<lparr>rd_cpupri := cp\<rparr>) s3) ((\<lambda>k. hp_curr (rt_of s k))(c := - 1, c := hp_curr (rt_of s3 c)))"
    by auto
  let ?s = "upd_rd (rd (rqs s3 c)) (\<lambda>d. d\<lparr>rd_cpupri := cp\<rparr>) s3"
  have run: "set_rq_online c s = Inr ?s"
    using off r(1) unfolding set_rq_online_def rq_online_rt_def Let_def s1_def [symmetric] s2_def [symmetric] s3_def [symmetric] by simp
  have "over_ok nr ?s"
  proof -
    have ov: "over_cpus nr ?s d = (if d = ?d \<and> overload (rt_of s c) then insert c (over_cpus nr s d) else over_cpus nr s d)" for d
      using c by (auto simp: over_cpus_def f3 h3)
    have "c \<notin> over_cpus nr s d" for d using off by (simp add: over_cpus_def)
    then show ?thesis using iv(5) unfolding over_ok_def ov by (auto simp: f2 f3)
  qed
  moreover have "pri_ok nr ?s" using r(2) unfolding pri_ok_at by (subst pri_at_cong) (auto simp: h3)
  moreover have "lists_ok ?s Q" using iv(1) by (subst lists_ok_cong [where s = s]) (simp_all add: g3)
  moreover have "counts_ok ?s Q k \<and> heads_ok ?s Q k" if "k < nr" for k
    using iv(2,3) [OF that] f3(4) [of k] by (simp add: counts_ok_def heads_ok_def migratory_def g3 core_rt_def)
  ultimately have "rt_inv nr ?s Q" by (simp add: rt_inv_def)
  then show ?thesis using run f3(5,6) g3 by (auto simp: upd_rd_def)
qed

lemma online_spec:
  assumes ok: "core_ok nr s Q P" and c: "c < nr"
  shows "\<exists>s'. set_rq_online c s = Inr s' \<and> core_ok nr s' Q P \<and> local_cpu_mask s' = local_cpu_mask s"
proof (cases "online (rqs s c)")
  case True
  then show ?thesis using ok by (simp add: set_rq_online_def)
next
  case False
  have "rt_inv nr s Q" using core_okD(1) [OF ok] by (simp add: rt_ok_def)
  from set_rq_online_inv [OF this c False] obtain s' where
    s': "set_rq_online c s = Inr s'" "rt_inv nr s' Q" "tasks s' = tasks s" "pushable s' = pushable s"
      "local_cpu_mask s' = local_cpu_mask s" "\<And>k. curr_of s' k = curr_of s k" "\<And>k. idle (rqs s' k) = idle (rqs s k)" by blast
  have "push_ok s' Q P = push_ok s Q P" by (rule push_ok_cong) (simp_all add: s')
  then have "core_ok nr s' Q P" using ok s'(2) unfolding core_ok_def rt_ok_def idle_ok_def by (simp add: s')
  then show ?thesis using s' by blast
qed

lemma affinity_spec:
  assumes ok: "core_ok nr s Q P" and t: "rt_class (tasks s t)" "rt_task s t" "task_cpu (tasks s t) < nr"
  shows "\<exists>s' P'. set_cpus_allowed_rt e t m s = Inr s' \<and> core_ok nr s' Q P' \<and> local_cpu_mask s' = local_cpu_mask s"
proof -
  let ?c = "task_cpu (tasks s t)"
  have on: "on_rq (tasks s t) \<longleftrightarrow> queued Q t" using core_okD(4) [OF ok] t(1) by simp
  have cur: "curr_of s k \<notin> set (P k)" for k using core_okD(2,5) [OF ok] by blast
  from set_cpus_allowed_rt_spec [where t = t and P = P, OF core_okD(1) [OF ok] t(2) refl t(3) on cur, of e m] obtain s' P' where
    s': "set_cpus_allowed_rt e t m s = Inr s'" "rt_ok nr s' Q P'" "tasks s' = (tasks s)(t := set_mask e m (tasks s t))"
      "\<forall>k. curr_of s' k = curr_of s k \<and> idle (rqs s' k) = idle (rqs s k)" "\<forall>k. set (P' k) \<subseteq> (if k = ?c \<and> curr_of s ?c \<noteq> t then insert t (set (P k)) else set (P k))"
      "local_cpu_mask s' = local_cpu_mask s" by blast
  have f: "on_cpu (tasks s' t') = on_cpu (tasks s t')" "task_cpu (tasks s' t') = task_cpu (tasks s t')"
    "on_rq (tasks s' t') = on_rq (tasks s t')" "rt_class (tasks s' t') = rt_class (tasks s t')" for t'
    unfolding s'(3) by (simp_all add: set_mask_def)
  have "\<not> on_cpu (tasks s t')" if "t' \<in> set (P' k)" for t' k
  proof (cases "t' \<in> set (P k)")
    case False
    then have "t' = t" "curr_of s ?c \<noteq> t" using that s'(5) by (auto split: if_splits)
    then show ?thesis using core_okD(6) [OF ok, of t] by auto
  qed (use core_okD(5) [OF ok] in blast)
  then have "core_ok nr s' Q P'" unfolding core_ok_def idle_ok_def f using s'(2,4) core_okD(2-4,6,7) [OF ok] by (simp add: idle_ok_def)
  then show ?thesis using s'(1,6) by blast
qed

section \<open>Boot\<close>

text \<open>
  The state before any run queue is set up: everything zero, the list nodes of the tasks initialised
  (as \<open>sched_fork\<close> does), one root domain that spans all CPUs, every CPU offline and running its idle task.
  The even numbers are the idle tasks, the odd ones the other tasks.
\<close>

definition zero_rt :: rt_rq where
  "zero_rt = \<lparr>bitmap = {}, rt_nr_running = 0, hp_curr = 0, hp_next = 0, rt_nr_migratory = 0, rt_nr_total = 0,
     overload = False, rt_throttled = False, rt_time = 0, rt_runtime = 0\<rparr>"

definition zero_rq :: "nat \<Rightarrow> rq" where
  "zero_rq c = \<lparr>nr_running = 0, skip_clock_update = 0, rt = zero_rt, nr_uninterruptible = 0, curr = 2 * c, idle = 2 * c,
     clock = 0, clock_task = 0, rd = 0, post_schedule = False, online = False\<rparr>"

definition sched_zero :: "nat \<Rightarrow> (nat \<Rightarrow> task) \<Rightarrow> sched" where
  "sched_zero nr tk = \<lparr>tasks = tk, rqs = zero_rq,
     rds = (\<lambda>_. \<lparr>span = {..<nr}, rd_online = {}, rto_mask = {}, rto_count = 0, rd_cpupri = cpupri_init\<rparr>),
     runq = \<lparr>nxt = id, prv = id\<rparr>, pushable = plist_boot, rt_b_period = 1000000000, rt_b_runtime = 950000000,
     rt_b_active = False, sysctl_sched_rt_runtime = 950000, scheduler_running = True, cpu_online_mask = {},
     local_cpu_mask = (\<lambda>_. None)\<rparr>"

definition sched_boot :: "sched_env \<Rightarrow> (nat \<Rightarrow> task) \<Rightarrow> sched" where
  "sched_boot e tk = init_sched_rt_class e (fold init_rt_rq [0..<nr_cpu_ids e] (sched_zero (nr_cpu_ids e) tk))"

definition boot_tasks :: "(nat \<Rightarrow> task) \<Rightarrow> bool" where
  "boot_tasks tk \<longleftrightarrow> (\<forall>c. on_cpu (tk (2 * c)) \<and> task_cpu (tk (2 * c)) = c \<and> \<not> rt_class (tk (2 * c)) \<and> \<not> on_cpu (tk (2 * c + 1))) \<and>
     (\<forall>t. \<not> (on_rq (tk t) \<and> rt_class (tk t)))"

definition self_linked :: "'a lheap" where
  "self_linked = \<lparr>nxt = id, prv = id\<rparr>"

lemma init_self_linked: "INIT_LIST_HEAD self_linked n = self_linked"
  by (simp add: INIT_LIST_HEAD_def set_next_def set_prev_def self_linked_def fun_eq_iff)

lemma init_queues_eq:
  "runq s = self_linked \<Longrightarrow> init_queues c is s = upd_rt c (\<lambda>r. r\<lparr>bitmap := bitmap r - set is\<rparr>) s"
proof (induction "is" arbitrary: s)
  case Nil
  have "upd_rt c (\<lambda>r. r\<lparr>bitmap := bitmap r - set []\<rparr>) s = s" by (rule upd_rt_idem) simp
  then show ?case by simp
next
  case (Cons i "is")
  have same: "s\<lparr>runq := INIT_LIST_HEAD (runq s) (queue c i)\<rparr> = s" using Cons.prems by (simp add: init_self_linked)
  show ?case unfolding init_queues.simps Let_def same
    by (subst Cons.IH) (simp_all add: Cons.prems upd_rt_upd_rt Diff_insert2 [symmetric])
qed

definition fresh_rt :: "rt_rq \<Rightarrow> rt_rq" where
  "fresh_rt r = r\<lparr>bitmap := insert MAX_RT_PRIO (bitmap r - {0..MAX_RT_PRIO - 1}), hp_curr := MAX_RT_PRIO, hp_next := MAX_RT_PRIO,
     rt_nr_migratory := 0, overload := False, rt_time := 0, rt_throttled := False, rt_runtime := 0\<rparr>"

lemma init_rt_rq_eq:
  assumes "runq s = self_linked" "pushable s = plist_boot"
  shows "init_rt_rq c s = upd_rt c fresh_rt s"
proof -
  have p: "plist_head_init plist_boot c = plist_boot"
    by (simp add: plist_head_init_def plist_boot_def INIT_LIST_HEAD_def set_next_def set_prev_def fun_eq_iff)
  have same: "s'\<lparr>pushable := plist_boot\<rparr> = s'" if "pushable s' = plist_boot" for s' using that by simp
  show ?thesis using assms unfolding init_rt_rq_def Let_def
    by (simp add: init_queues_eq p same upd_rt_upd_rt fresh_rt_def [abs_def])
qed

lemma boot_fold:
  "fold init_rt_rq [0..<n] (sched_zero nr tk) =
   (sched_zero nr tk)\<lparr>rqs := (\<lambda>c. if c < n then (zero_rq c)\<lparr>rt := fresh_rt zero_rt\<rparr> else zero_rq c)\<rparr>"
proof (induction n)
  case 0
  show ?case by (simp add: sched_zero_def)
next
  case (Suc n)
  show ?case unfolding upt_Suc_append [OF le0] fold_append comp_apply Suc fold.simps id_apply
    by (subst init_rt_rq_eq) (auto simp: sched_zero_def self_linked_def upd_rt_def upd_rq_def zero_rq_def fun_eq_iff)
qed

lemma boot_core:
  assumes tk: "boot_tasks tk" and n: "nr_cpu_ids e = nr"
  shows "core_ok nr (sched_boot e tk) (\<lambda>_ _. []) (\<lambda>_. [])" "\<forall>i < nr. local_cpu_mask (sched_boot e tk) i \<noteq> None"
proof -
  let ?s = "sched_boot e tk"
  have f: "tasks ?s = tk" "runq ?s = self_linked" "pushable ?s = plist_boot" "rd_cpupri (rds ?s d) = cpupri_init"
    "rto_mask (rds ?s d) = {}" "rto_count (rds ?s d) = 0" "online (rqs ?s c) = False" "curr_of ?s c = 2 * c" "idle (rqs ?s c) = 2 * c"
    "c < nr \<Longrightarrow> rt_of ?s c = fresh_rt zero_rt" for c d
    unfolding sched_boot_def init_sched_rt_class_def boot_fold n by (auto simp: sched_zero_def zero_rq_def self_linked_def)
  have nq: "queued (\<lambda>_ _. []) t = False" "rtasks (\<lambda>_ _. []) c = {}" for t c by (simp_all add: queued_def rtasks_def)
  have "fam self_linked (rqA (\<lambda>_ _. []))"
    by (auto simp: fam_def self_linked_def rqA_def is_list_def nq split: lptr.splits rt_node.splits if_splits)
  then have "lists_ok ?s (\<lambda>_ _. [])" by (simp add: lists_ok_def f)
  moreover have "counts_ok ?s (\<lambda>_ _. []) c \<and> heads_ok ?s (\<lambda>_ _. []) c" if "c < nr" for c
    by (auto simp: counts_ok_def heads_ok_def f(10) [OF that] fresh_rt_def zero_rt_def nq migratory_def least_def bits_def)
  moreover have "pri_ok nr ?s" using cpupri_init_ok by (simp add: pri_ok_def f cpupri_init_def)
  moreover have "over_ok nr ?s" by (simp add: over_ok_def over_cpus_def f)
  moreover have "push_ok ?s (\<lambda>_ _. []) (\<lambda>_. [])" unfolding push_ok_def f using plist_boot_ok by auto
  ultimately have "rt_ok nr ?s (\<lambda>_ _. []) (\<lambda>_. [])" by (simp add: rt_ok_def rt_inv_def)
  moreover have "2 * task_cpu (tk t) = t" if "on_cpu (tk t)" for t
    using tk that by (cases "even t") (auto simp: boot_tasks_def elim!: evenE oddE)
  ultimately show "core_ok nr ?s (\<lambda>_ _. []) (\<lambda>_. [])" using tk by (auto simp: core_ok_def idle_ok_def f nq boot_tasks_def)
  show "\<forall>i < nr. local_cpu_mask ?s i \<noteq> None" using n by (simp add: sched_boot_def init_sched_rt_class_def)
qed

section \<open>Runs\<close>

definition env_ok :: "nat \<Rightarrow> core_env \<Rightarrow> bool" where
  "env_ok nr e \<longleftrightarrow> others_ok e \<and> quiet (cenv e) \<and> nr_cpu_ids (cenv e) = nr \<and> smp_processor_id (cenv e) < nr"

inductive sched_step :: "nat \<Rightarrow> sched \<Rightarrow> sched run \<Rightarrow> bool" for nr where
  go_online: "c < nr \<Longrightarrow> sched_step nr s (set_rq_online c s)"
| wake_up: "env_ok nr e \<Longrightarrow> \<not> on_rq (tasks s t) \<Longrightarrow> \<not> on_cpu (tasks s t) \<Longrightarrow> task_cpu (tasks s t) < nr \<Longrightarrow>
    (rt_class (tasks s t) \<Longrightarrow> 0 \<le> prio_of s t \<and> prio_of s t < MAX_RT_PRIO) \<Longrightarrow>
    sched_step nr s (ttwu_activate (cenv e) (task_cpu (tasks s t)) t flags s)"
| reschedule: "env_ok nr e \<Longrightarrow> c < nr \<Longrightarrow> (sleep \<Longrightarrow> on_rq (tasks s (curr_of s c))) \<Longrightarrow> sched_step nr s (schedule e c sleep s)"
| yield: "sched_step nr s (Inr (yield_task_rt c s))"
| tick: "sched_step nr s (Inr (task_tick_rt e c (curr_of s c) s))"
| affinity: "rt_class (tasks s t) \<Longrightarrow> rt_task s t \<Longrightarrow> task_cpu (tasks s t) < nr \<Longrightarrow> sched_step nr s (set_cpus_allowed_rt e t m s)"

inductive_cases sched_stepE: "sched_step nr s r"

inductive sched_reach :: "nat \<Rightarrow> sched \<Rightarrow> sched run \<Rightarrow> bool" for nr s0 where
  start: "sched_reach nr s0 (Inr s0)"
| step: "sched_reach nr s0 (Inr s) \<Longrightarrow> sched_step nr s r \<Longrightarrow> sched_reach nr s0 r"

lemma sched_okI: "core_ok nr s' Q P \<Longrightarrow> local_cpu_mask s' = local_cpu_mask s \<Longrightarrow> sched_ok nr s \<Longrightarrow> sched_ok nr s'"
  by (auto simp: sched_ok_def)

lemma sched_step_ok:
  assumes ok: "sched_ok nr s" and st: "sched_step nr s r"
  shows "\<exists>s'. r = Inr s' \<and> sched_ok nr s'"
proof -
  obtain Q P where co: "core_ok nr s Q P" using ok by (auto simp: sched_ok_def)
  from st show ?thesis
  proof cases
    case (go_online c)
    then show ?thesis using online_spec [OF co] sched_okI ok by blast
  next
    case (wake_up e t flags)
    then have o: "others_ok e" by (simp add: env_ok_def)
    from wake_spec [OF co o wake_up(3-6), of flags] show ?thesis using wake_up(1) sched_okI ok by blast
  next
    case (reschedule e c sleep)
    then show ?thesis using schedule_spec [OF ok, of c e sleep] by (auto simp: env_ok_def)
  next
    case (yield c)
    then show ?thesis using yield_spec [OF co, of c] sched_okI ok by blast
  next
    case (tick e c)
    then show ?thesis using tick_spec [OF co, of e c "curr_of s c"] sched_okI [OF _ tick_fields(8)] ok by blast
  next
    case (affinity t e m)
    then show ?thesis using affinity_spec [OF co, of t e m] sched_okI ok by blast
  qed
qed

lemma sched_reach_ok: "sched_reach nr s0 r \<Longrightarrow> sched_ok nr s0 \<Longrightarrow> \<exists>s'. r = Inr s' \<and> sched_ok nr s'"
proof (induction rule: sched_reach.induct)
  case (step s r)
  then show ?case using sched_step_ok [of nr s r] by blast
qed simp

lemma boot_ok: "boot_tasks tk \<Longrightarrow> nr_cpu_ids e = nr \<Longrightarrow> sched_ok nr (sched_boot e tk)"
  using boot_core [of tk e nr] by (auto simp: sched_ok_def)

end
