(* ===== verification/Sched_Bw.thy ===== *)
theory Sched_Bw
  imports Sched_Ops
begin

text \<open>
  Real-time bandwidth: run queues lend each other runtime (\<open>do_balance_runtime\<close>) and take it back when a
  CPU is disabled (\<open>__disable_runtime\<close>). With one root domain, the runtime of the enabled run queues
  always sums up to what they started with, so that nobody is left wanting when a CPU goes away. The
  hypotheses keep the 64-bit arithmetic away from the sign bit: the assigned runtimes and the clocks
  stay below \<open>2 ^ 63\<close> nanoseconds (292 years).
\<close>

abbreviation runtime_of :: "sched \<Rightarrow> nat \<Rightarrow> int" where "runtime_of s i \<equiv> rt_runtime (rt_of s i)"
abbreviation time_of :: "sched \<Rightarrow> nat \<Rightarrow> int" where "time_of s i \<equiv> rt_time (rt_of s i)"

definition enabled :: "nat \<Rightarrow> sched \<Rightarrow> nat set" where
  "enabled nr s = {i. i < nr \<and> runtime_of s i \<noteq> RUNTIME_INF}"

definition total_runtime :: "nat \<Rightarrow> sched \<Rightarrow> int" where
  "total_runtime nr s = (\<Sum>i \<in> enabled nr s. runtime_of s i)"

definition times_ok :: "nat \<Rightarrow> sched \<Rightarrow> bool" where
  "times_ok nr s \<longleftrightarrow> (\<forall>i < nr. 0 \<le> time_of s i \<and> time_of s i < 2 ^ 63)"

definition bw_bounds :: "nat \<Rightarrow> sched \<Rightarrow> bool" where
  "bw_bounds nr s \<longleftrightarrow> (\<forall>i \<in> enabled nr s. 0 \<le> runtime_of s i) \<and> total_runtime nr s < 2 ^ 63 \<and>
     0 \<le> rt_b_period s \<and> rt_b_period s < 2 ^ 63"

definition bw_inv :: "nat \<Rightarrow> sched \<Rightarrow> bool" where
  "bw_inv nr s \<longleftrightarrow> bw_bounds nr s \<and> 0 \<le> rt_b_runtime s \<and> rt_b_runtime s * int nr < 2 ^ 63 \<and>
     total_runtime nr s = rt_b_runtime s * int (card (enabled nr s))"

lemma enabled_finite [simp]: "finite (enabled nr s)"
  by (simp add: enabled_def)

lemma bw_bounds_each:
  assumes "bw_bounds nr s" "i \<in> enabled nr s"
  shows "0 \<le> runtime_of s i" "runtime_of s i < 2 ^ 63"
proof -
  show "0 \<le> runtime_of s i" using assms by (simp add: bw_bounds_def)
  have "runtime_of s i \<le> total_runtime nr s"
    unfolding total_runtime_def using assms by (intro member_le_sum) (auto simp: bw_bounds_def)
  then show "runtime_of s i < 2 ^ 63" using assms(1) by (simp add: bw_bounds_def)
qed

lemma below_inf: "0 \<le> v \<Longrightarrow> v < 2 ^ 63 \<Longrightarrow> v \<noteq> RUNTIME_INF"
  by (simp add: RUNTIME_INF_def)

text \<open>Moving \<open>d\<close> nanoseconds from run queue \<open>i\<close> to run queue \<open>c\<close>.\<close>

definition move_runtime :: "nat \<Rightarrow> nat \<Rightarrow> int \<Rightarrow> sched \<Rightarrow> sched" where
  "move_runtime i c d s = upd_rt c (\<lambda>r. r\<lparr>rt_runtime := u64 (rt_runtime r + d)\<rparr>)
     (upd_rt i (\<lambda>r. r\<lparr>rt_runtime := u64 (rt_runtime r - d)\<rparr>) s)"

lemma move_runtime_fields [simp]:
  "rt_b_period (move_runtime i c d s) = rt_b_period s" "rt_b_runtime (move_runtime i c d s) = rt_b_runtime s"
  "time_of (move_runtime i c d s) k = time_of s k" "rds (move_runtime i c d s) = rds s"
  "rd (rqs (move_runtime i c d s) k) = rd (rqs s k)"
  "scheduler_running (move_runtime i c d s) = scheduler_running s"
  "rt_throttled (rt_of (move_runtime i c d s) k) = rt_throttled (rt_of s k)"
  by (auto simp: move_runtime_def upd_defs)

lemma move_runtime_spec:
  assumes b: "bw_bounds nr s" and i: "i \<in> enabled nr s" "c \<in> enabled nr s" "i \<noteq> c"
    and d: "d \<le> runtime_of s i" "- runtime_of s c \<le> d"
  shows "runtime_of (move_runtime i c d s) k =
      (if k = c then runtime_of s c + d else if k = i then runtime_of s i - d else runtime_of s k)"
    "enabled nr (move_runtime i c d s) = enabled nr s"
    "total_runtime nr (move_runtime i c d s) = total_runtime nr s"
    "bw_bounds nr (move_runtime i c d s)"
proof -
  let ?s = "move_runtime i c d s"
  have two: "runtime_of s i + runtime_of s c \<le> total_runtime nr s"
  proof -
    have "(\<Sum>k \<in> {i, c}. runtime_of s k) \<le> total_runtime nr s"
      unfolding total_runtime_def using i b by (intro sum_mono2) (auto simp: bw_bounds_def)
    then show ?thesis using i(3) by simp
  qed
  have tot: "total_runtime nr s < 2 ^ 63" using b by (simp add: bw_bounds_def)
  note ri = bw_bounds_each [OF b i(1)] and rc = bw_bounds_each [OF b i(2)]
  have u: "u64 (runtime_of s i - d) = runtime_of s i - d" "u64 (runtime_of s c + d) = runtime_of s c + d"
    using ri rc d two tot by (auto intro!: u64_id)
  show r: "runtime_of ?s k = (if k = c then runtime_of s c + d else if k = i then runtime_of s i - d else runtime_of s k)" for k
    using u i(3) by (simp add: move_runtime_def)
  have "runtime_of s i - d \<noteq> RUNTIME_INF" "runtime_of s c + d \<noteq> RUNTIME_INF"
    using ri rc d two tot by (auto simp: RUNTIME_INF_def)
  then show e: "enabled nr ?s = enabled nr s" using i unfolding enabled_def r by auto
  let ?E = "enabled nr s - {i, c}"
  have split: "enabled nr s = insert i (insert c ?E)" using i by auto
  have "total_runtime nr s = runtime_of s i + runtime_of s c + (\<Sum>k \<in> ?E. runtime_of s k)"
    unfolding total_runtime_def by (subst split) (use i(3) in simp)
  moreover have "total_runtime nr ?s = runtime_of ?s i + runtime_of ?s c + (\<Sum>k \<in> ?E. runtime_of ?s k)"
    unfolding total_runtime_def e by (subst split) (use i(3) in simp)
  moreover have "(\<Sum>k \<in> ?E. runtime_of ?s k) = (\<Sum>k \<in> ?E. runtime_of s k)" by (rule sum.cong) (auto simp: r)
  ultimately show t: "total_runtime nr ?s = total_runtime nr s" using i(3) unfolding r by simp
  show "bw_bounds nr ?s" using b d unfolding bw_bounds_def e t by (auto simp: r)
qed

section \<open>Borrowing\<close>

lemma balance_loop_step:
  assumes "i \<noteq> c" "runtime_of s i \<noteq> RUNTIME_INF"
  shows "balance_loop c w p (i # is) m s =
    (let diff = s64 (runtime_of s i - time_of s i)
     in if diff > 0
        then let diff = s64 (u64 diff div w);
                 diff = (if u64 (runtime_of s c + diff) > p then s64 (p - runtime_of s c) else diff);
                 s = move_runtime i c diff s
             in if runtime_of s c = p then (True, s) else balance_loop c w p is True s
        else balance_loop c w p is m s)"
  using assms by (simp add: Let_def move_runtime_def)

text \<open>How much moves: at most the spare time of the lender, and never more than fills the period.\<close>

lemma balance_diff:
  assumes b: "bw_bounds nr s" and i: "i \<in> enabled nr s" "c \<in> enabled nr s" "i \<noteq> c"
    and t: "0 \<le> time_of s i" "time_of s i < 2 ^ 63" and w: "1 \<le> w"
    and pos: "0 < s64 (runtime_of s i - time_of s i)"
  defines "q \<equiv> s64 (u64 (s64 (runtime_of s i - time_of s i)) div w)"
  defines "d \<equiv> if u64 (runtime_of s c + q) > rt_b_period s then s64 (rt_b_period s - runtime_of s c) else q"
  shows "d \<le> runtime_of s i" "- runtime_of s c \<le> d" "runtime_of s c \<le> rt_b_period s \<Longrightarrow> 0 \<le> d \<and> runtime_of s c + d \<le> rt_b_period s"
proof -
  note ri = bw_bounds_each [OF b i(1)] and rc = bw_bounds_each [OF b i(2)]
  have p: "0 \<le> rt_b_period s" "rt_b_period s < 2 ^ 63" using b by (auto simp: bw_bounds_def)
  have s: "s64 (runtime_of s i - time_of s i) = runtime_of s i - time_of s i" using ri t by (intro s64_id) auto
  have q1: "0 \<le> (runtime_of s i - time_of s i) div w" "(runtime_of s i - time_of s i) div w \<le> runtime_of s i - time_of s i"
    using pos w zdiv_mono2 [of "runtime_of s i - time_of s i" 1 w] unfolding s by (auto simp: pos_imp_zdiv_nonneg_iff)
  have q: "q = (runtime_of s i - time_of s i) div w"
  proof -
    have "u64 (runtime_of s i - time_of s i) = runtime_of s i - time_of s i" using pos ri t unfolding s by (intro u64_id) auto
    moreover have "s64 ((runtime_of s i - time_of s i) div w) = (runtime_of s i - time_of s i) div w"
      using q1 ri t by (intro s64_id) auto
    ultimately show ?thesis unfolding q_def s by simp
  qed
  have qb: "0 \<le> q" "q \<le> runtime_of s i" using q1 t unfolding q by auto
  have u: "u64 (runtime_of s c + q) = runtime_of s c + q" using rc qb ri by (intro u64_id) auto
  have sp: "s64 (rt_b_period s - runtime_of s c) = rt_b_period s - runtime_of s c" using p rc by (intro s64_id) auto
  have d: "d = (if runtime_of s c + q > rt_b_period s then rt_b_period s - runtime_of s c else q)"
    unfolding d_def u sp ..
  show "d \<le> runtime_of s i" "- runtime_of s c \<le> d" "runtime_of s c \<le> rt_b_period s \<Longrightarrow> 0 \<le> d \<and> runtime_of s c + d \<le> rt_b_period s"
    using qb p rc unfolding d by auto
qed

lemma balance_loop_spec:
  assumes "bw_bounds nr s" "times_ok nr s" "c \<in> enabled nr s" "set is \<subseteq> {..<nr}" "1 \<le> w" "p = rt_b_period s"
  shows "\<exists>m' s'. balance_loop c w p is m s = (m', s') \<and> bw_bounds nr s' \<and> total_runtime nr s' = total_runtime nr s \<and>
    enabled nr s' = enabled nr s \<and> rt_b_runtime s' = rt_b_runtime s \<and>
    (runtime_of s c \<le> p \<longrightarrow> runtime_of s c \<le> runtime_of s' c \<and> runtime_of s' c \<le> p)"
  using assms
proof (induction "is" arbitrary: m s)
  case Nil
  then show ?case by simp
next
  case (Cons i "is")
  have IH: "\<exists>m' s'. balance_loop c w p is k s1 = (m', s') \<and> bw_bounds nr s' \<and> total_runtime nr s' = total_runtime nr s \<and>
    enabled nr s' = enabled nr s \<and> rt_b_runtime s' = rt_b_runtime s \<and>
    (runtime_of s c \<le> p \<longrightarrow> runtime_of s c \<le> runtime_of s' c \<and> runtime_of s' c \<le> p)"
    if "bw_bounds nr s1" "times_ok nr s1" "enabled nr s1 = enabled nr s" "total_runtime nr s1 = total_runtime nr s"
      "rt_b_period s1 = rt_b_period s" "rt_b_runtime s1 = rt_b_runtime s"
      "runtime_of s c \<le> p \<Longrightarrow> runtime_of s c \<le> runtime_of s1 c \<and> runtime_of s1 c \<le> p" for s1 k
    using Cons.IH [of s1 k] Cons.prems that by fastforce
  show ?case
  proof (cases "i = c \<or> runtime_of s i = RUNTIME_INF")
    case True
    then have e: "balance_loop c w p (i # is) m s = balance_loop c w p is m s" by simp
    show ?thesis unfolding e by (rule IH [OF Cons.prems(1,2)]) simp_all
  next
    case False
    then have i: "i \<noteq> c" "runtime_of s i \<noteq> RUNTIME_INF" "i \<in> enabled nr s" using Cons.prems by (auto simp: enabled_def)
    have t: "0 \<le> time_of s i" "time_of s i < 2 ^ 63" using Cons.prems by (auto simp: times_ok_def)
    define q where "q = s64 (u64 (s64 (runtime_of s i - time_of s i)) div w)"
    define d where "d = (if u64 (runtime_of s c + q) > p then s64 (p - runtime_of s c) else q)"
    let ?s = "move_runtime i c d s"
    show ?thesis
    proof (cases "0 < s64 (runtime_of s i - time_of s i)")
      case True
      note dd = balance_diff [OF Cons.prems(1) i(3) Cons.prems(3) i(1) t Cons.prems(5) True, folded q_def, folded Cons.prems(6), folded d_def]
      note mv = move_runtime_spec [OF Cons.prems(1) i(3) Cons.prems(3) i(1) dd(1,2)]
      have step: "balance_loop c w p (i # is) m s =
          (if runtime_of ?s c = p then (True, ?s) else balance_loop c w p is True ?s)"
        using True balance_loop_step [OF i(1,2)] by (simp add: Let_def d_def q_def)
      have t': "times_ok nr ?s" using Cons.prems(2) by (simp add: times_ok_def)
      have grow: "runtime_of s c \<le> p \<Longrightarrow> runtime_of s c \<le> runtime_of ?s c \<and> runtime_of ?s c \<le> p"
        using dd(3) mv(1) by simp
      show ?thesis
      proof (cases "runtime_of ?s c = p")
        case True
        then show ?thesis unfolding step using mv(2,3,4) grow by (intro exI [of _ True]) simp
      next
        case False
        then show ?thesis unfolding step using IH [OF mv(4) t' mv(2,3) _ _ grow, of True] by simp
      qed
    next
      case False
      then have e: "balance_loop c w p (i # is) m s = balance_loop c w p is m s"
        using balance_loop_step [OF i(1,2)] by (simp add: Let_def)
      show ?thesis unfolding e by (rule IH [OF Cons.prems(1,2)]) simp_all
    qed
  qed
qed

text \<open>One root domain with all CPUs.\<close>

definition one_domain :: "nat \<Rightarrow> sched \<Rightarrow> bool" where
  "one_domain nr s \<longleftrightarrow> (\<forall>c. span (rd_of s c) = {..<nr})"

lemma cpumask_weight_all: "cpumask_weight e {..<nr_cpu_ids e} = int (nr_cpu_ids e)"
  by (simp add: cpumask_weight_def)

lemma balance_runtime_spec:
  assumes inv: "bw_inv nr s" and t: "times_ok nr s" and c: "c < nr" and d: "one_domain nr s" and n: "nr_cpu_ids e = nr"
  shows "bw_inv nr (snd (balance_runtime e c s))" "total_runtime nr (snd (balance_runtime e c s)) = total_runtime nr s"
    "enabled nr (snd (balance_runtime e c s)) = enabled nr s"
    "runtime_of s c \<le> rt_b_period s \<Longrightarrow> runtime_of s c \<le> runtime_of (snd (balance_runtime e c s)) c \<and>
       runtime_of (snd (balance_runtime e c s)) c \<le> rt_b_period s"
proof -
  have "bw_inv nr s' \<and> total_runtime nr s' = total_runtime nr s \<and> enabled nr s' = enabled nr s \<and>
      (runtime_of s c \<le> rt_b_period s \<longrightarrow> runtime_of s c \<le> runtime_of s' c \<and> runtime_of s' c \<le> rt_b_period s)"
    if s': "s' = snd (balance_runtime e c s)" for s'
  proof (cases "time_of s c > runtime_of s c")
    case True
    have "runtime_of s c \<noteq> RUNTIME_INF" using True t c by (auto simp: times_ok_def RUNTIME_INF_def)
    then have ce: "c \<in> enabled nr s" using c by (simp add: enabled_def)
    have b: "bw_bounds nr s" using inv by (simp add: bw_inv_def)
    have sp: "span (rd_of s (smp_processor_id e)) = {..<nr_cpu_ids e}" using d n by (simp add: one_domain_def)
    have w: "1 \<le> cpumask_weight e {..<nr_cpu_ids e}" using c n cpumask_weight_all [of e] by simp
    have l: "set (filter (\<lambda>i. i \<in> {..<nr_cpu_ids e}) [0..<nr_cpu_ids e]) \<subseteq> {..<nr}" using n by auto
    from balance_loop_spec [OF b t ce l w refl, of False] obtain m' s1 where
      r: "do_balance_runtime e c s = (m', s1)" "bw_bounds nr s1" "total_runtime nr s1 = total_runtime nr s"
        "enabled nr s1 = enabled nr s" "rt_b_runtime s1 = rt_b_runtime s"
        "runtime_of s c \<le> rt_b_period s \<longrightarrow> runtime_of s c \<le> runtime_of s1 c \<and> runtime_of s1 c \<le> rt_b_period s"
      unfolding do_balance_runtime_def Let_def sp by blast
    have "s' = s1" using True r(1) s' by (simp add: balance_runtime_def)
    then show ?thesis using r(2-6) inv unfolding bw_inv_def by metis
  next
    case False
    then show ?thesis using s' inv by (simp add: balance_runtime_def)
  qed
  then show "bw_inv nr (snd (balance_runtime e c s))" "total_runtime nr (snd (balance_runtime e c s)) = total_runtime nr s"
    "enabled nr (snd (balance_runtime e c s)) = enabled nr s"
    "runtime_of s c \<le> rt_b_period s \<Longrightarrow> runtime_of s c \<le> runtime_of (snd (balance_runtime e c s)) c \<and>
       runtime_of (snd (balance_runtime e c s)) c \<le> rt_b_period s"
    by blast+
qed

section \<open>Reclaiming\<close>

text \<open>The run queues the loop of \<open>__disable_runtime\<close> can take from.\<close>

abbreviation others :: "nat \<Rightarrow> nat list \<Rightarrow> sched \<Rightarrow> nat set" where
  "others c is s \<equiv> {i \<in> set is. i \<noteq> c \<and> runtime_of s i \<noteq> RUNTIME_INF}"

definition take_runtime :: "nat \<Rightarrow> int \<Rightarrow> sched \<Rightarrow> sched" where
  "take_runtime i d s = upd_rt i (\<lambda>r. r\<lparr>rt_runtime := u64 (rt_runtime r - d)\<rparr>) s"

lemma take_runtime_fields [simp]:
  "rt_b_period (take_runtime i d s) = rt_b_period s" "rt_b_runtime (take_runtime i d s) = rt_b_runtime s"
  "scheduler_running (take_runtime i d s) = scheduler_running s"
  "0 \<le> runtime_of s i - d \<Longrightarrow> runtime_of s i - d < 2 ^ 63 \<Longrightarrow>
    runtime_of (take_runtime i d s) k = (if k = i then runtime_of s i - d else runtime_of s k)"
  by (simp_all add: take_runtime_def upd_defs u64_id)

lemma disable_loop_step:
  assumes "i \<noteq> c" "runtime_of s i \<noteq> RUNTIME_INF"
  shows "disable_loop c (i # is) want s =
    (let d = if want > 0 then min (s64 (runtime_of s i)) want else want
     in if s64 (want - d) = 0 then (0, take_runtime i d s) else disable_loop c is (s64 (want - d)) (take_runtime i d s))"
proof -
  have z: "s64 0 = 0" by (simp add: s64_id)
  show ?thesis using assms by (cases "want > 0") (simp_all add: Let_def take_runtime_def z)
qed

lemma disable_loop_spec:
  assumes "distinct is" "\<forall>i \<in> others c is s. 0 \<le> runtime_of s i"
    "(\<Sum>i \<in> others c is s. runtime_of s i) - want < 2 ^ 63" "- (2 ^ 63) < want" "want < 2 ^ 63" "want \<noteq> 0"
    "(\<Sum>i \<in> others c is s. runtime_of s i) < 2 ^ 63"
    "want > 0 \<Longrightarrow> want \<le> (\<Sum>i \<in> others c is s. runtime_of s i)" "want < 0 \<Longrightarrow> others c is s \<noteq> {}"
  shows "\<exists>s'. disable_loop c is want s = (0, s') \<and> (\<forall>i. i \<notin> others c is s \<longrightarrow> runtime_of s' i = runtime_of s i) \<and>
    (\<forall>i \<in> others c is s. 0 \<le> runtime_of s' i \<and> runtime_of s' i < 2 ^ 63) \<and> rt_b_runtime s' = rt_b_runtime s \<and> rt_b_period s' = rt_b_period s \<and>
    (\<Sum>i \<in> others c is s. runtime_of s' i) = (\<Sum>i \<in> others c is s. runtime_of s i) - want"
  using assms
proof (induction "is" arbitrary: want s)
  case Nil
  then show ?case by (cases "want > 0") auto
next
  case (Cons i "is")
  show ?case
  proof (cases "i = c \<or> runtime_of s i = RUNTIME_INF")
    case True
    then have o: "others c (i # is) s = others c is s" by auto
    have e: "disable_loop c (i # is) want s = disable_loop c is want s" using True by simp
    show ?thesis unfolding o e using Cons.IH [of s want] Cons.prems unfolding o by simp
  next
    case False
    then have i: "i \<noteq> c" "runtime_of s i \<noteq> RUNTIME_INF" by auto
    let ?O = "others c is s"
    have o: "others c (i # is) s = insert i ?O" and iO: "i \<notin> ?O" using i Cons.prems(1) by auto
    have sm: "(\<Sum>k \<in> others c (i # is) s. f k) = f i + (\<Sum>k \<in> ?O. f k)" for f :: "nat \<Rightarrow> int"
      unfolding o using iO by simp
    have ri: "0 \<le> runtime_of s i" and rO: "\<forall>k \<in> ?O. 0 \<le> runtime_of s k" using Cons.prems(2) unfolding o by auto
    have S0: "0 \<le> (\<Sum>k \<in> ?O. runtime_of s k)" using rO by (intro sum_nonneg) auto
    have rb: "runtime_of s i < 2 ^ 63" using Cons.prems(7) S0 unfolding sm by linarith
    have kb: "runtime_of s k < 2 ^ 63" if "k \<in> ?O" for k
    proof -
      have "runtime_of s k \<le> (\<Sum>k \<in> ?O. runtime_of s k)" using that rO by (intro member_le_sum) auto
      then show ?thesis using Cons.prems(7) ri unfolding sm by linarith
    qed
    define d where "d = (if want > 0 then min (runtime_of s i) want else want)"
    have sr: "s64 (runtime_of s i) = runtime_of s i" using ri rb by (intro s64_id) auto
    have sd: "s64 (want - d) = want - d" using ri rb Cons.prems(4,5) by (intro s64_id) (auto simp: d_def)
    have b: "0 \<le> runtime_of s i - d" "runtime_of s i - d < 2 ^ 63"
      using ri rb Cons.prems(3,6) S0 unfolding sm by (auto simp: d_def)
    let ?s = "take_runtime i d s"
    have r: "runtime_of ?s k = (if k = i then runtime_of s i - d else runtime_of s k)" for k using b by simp
    have O': "others c is ?s = ?O" using Cons.prems(1) unfolding r by auto
    have sum': "(\<Sum>k \<in> ?O. runtime_of ?s k) = (\<Sum>k \<in> ?O. runtime_of s k)" by (rule sum.cong) (use iO r in auto)
    have step: "disable_loop c (i # is) want s = (if want - d = 0 then (0, ?s) else disable_loop c is (want - d) ?s)"
      unfolding disable_loop_step [OF i] Let_def sr d_def [symmetric] sd ..
    show ?thesis
    proof (cases "want - d = 0")
      case True
      then show ?thesis unfolding step using sm b rO r sum' kb o iO by (intro exI [of _ ?s]) auto
    next
      case False
      then have w: "want > 0" "d = runtime_of s i" "d < want" by (auto simp: d_def min_def split: if_splits)
      have "\<exists>s'. disable_loop c is (want - d) ?s = (0, s') \<and> (\<forall>k. k \<notin> ?O \<longrightarrow> runtime_of s' k = runtime_of ?s k) \<and>
        (\<forall>k \<in> ?O. 0 \<le> runtime_of s' k \<and> runtime_of s' k < 2 ^ 63) \<and> rt_b_runtime s' = rt_b_runtime s \<and> rt_b_period s' = rt_b_period s \<and>
        (\<Sum>k \<in> ?O. runtime_of s' k) = (\<Sum>k \<in> ?O. runtime_of s k) - (want - d)"
        using Cons.IH [of ?s "want - d"] Cons.prems w ri rO False S0 unfolding O' sum' sm
        by (auto simp: r)
      then obtain s' where s': "disable_loop c is (want - d) ?s = (0, s')" "\<forall>k. k \<notin> ?O \<longrightarrow> runtime_of s' k = runtime_of ?s k"
        "\<forall>k \<in> ?O. 0 \<le> runtime_of s' k \<and> runtime_of s' k < 2 ^ 63" "rt_b_runtime s' = rt_b_runtime s" "rt_b_period s' = rt_b_period s"
        "(\<Sum>k \<in> ?O. runtime_of s' k) = (\<Sum>k \<in> ?O. runtime_of s k) - (want - d)" by blast
      have "runtime_of s' i = 0" using s'(2) iO r w(2) by simp
      then show ?thesis unfolding step using False s' r w o iO sm by (intro exI [of _ s']) auto
    qed
  qed
qed

text \<open>Taking a run queue out of the pool.\<close>

lemma bw_inv_remove:
  assumes inv: "bw_inv nr s" and c: "c \<in> enabled nr s"
    and r: "\<And>i. i \<notin> enabled nr s - {c} \<Longrightarrow> i \<noteq> c \<Longrightarrow> runtime_of s' i = runtime_of s i" "runtime_of s' c = RUNTIME_INF"
      "\<And>i. i \<in> enabled nr s - {c} \<Longrightarrow> 0 \<le> runtime_of s' i \<and> runtime_of s' i < 2 ^ 63"
    and sm: "(\<Sum>i \<in> enabled nr s - {c}. runtime_of s' i) = rt_b_runtime s * int (card (enabled nr s) - 1)"
    and b: "rt_b_runtime s' = rt_b_runtime s" "rt_b_period s' = rt_b_period s"
  shows "bw_inv nr s'"
proof -
  have e: "enabled nr s' = enabled nr s - {c}"
  proof (rule set_eqI)
    fix i
    consider "i = c" | "i \<in> enabled nr s - {c}" | "i \<noteq> c" "i \<notin> enabled nr s - {c}" by blast
    then show "i \<in> enabled nr s' \<longleftrightarrow> i \<in> enabled nr s - {c}"
    proof cases
      case 2
      then have "runtime_of s' i \<noteq> RUNTIME_INF" using r(3) below_inf by blast
      with 2 show ?thesis by (simp add: enabled_def)
    next
      case 3
      then show ?thesis using r(1) [of i] by (auto simp: enabled_def)
    qed (simp add: enabled_def r(2))
  qed
  have k: "card (enabled nr s - {c}) = card (enabled nr s) - 1" using c by simp
  have "int (card (enabled nr s) - 1) \<le> int nr"
  proof -
    have "card (enabled nr s) \<le> card {..<nr}" by (rule card_mono) (auto simp: enabled_def)
    then show ?thesis by simp
  qed
  then have "rt_b_runtime s * int (card (enabled nr s) - 1) \<le> rt_b_runtime s * int nr"
    using inv by (intro mult_left_mono) (auto simp: bw_inv_def)
  then show ?thesis using inv sm r(3) b unfolding bw_inv_def bw_bounds_def total_runtime_def e k by auto
qed

lemma set_inf_fields [simp]:
  "runtime_of (upd_rt c (\<lambda>r. r\<lparr>rt_runtime := v\<rparr>) s) i = (if i = c then v else runtime_of s i)"
  "rt_b_runtime (upd_rt c f s) = rt_b_runtime s" "rt_b_period (upd_rt c f s) = rt_b_period s"
  "scheduler_running (upd_rt c f s) = scheduler_running s"
  by (simp_all add: upd_defs)

lemma raw_disable_runtime_spec:
  assumes inv: "bw_inv nr s" and c: "c < nr" and d: "one_domain nr s" and n: "nr_cpu_ids e = nr"
    and run: "scheduler_running s"
  shows "\<exists>s'. raw_disable_runtime e c s = Inr s' \<and> bw_inv nr s' \<and> runtime_of s' c = RUNTIME_INF"
proof -
  let ?inf = "upd_rt c (\<lambda>r. r\<lparr>rt_runtime := RUNTIME_INF\<rparr>)" and ?B = "rt_b_runtime s" and ?E = "enabled nr s"
  note iv = inv [unfolded bw_inv_def]
  have bb: "bw_bounds nr s" using iv by blast
  show ?thesis
  proof (cases "runtime_of s c = RUNTIME_INF")
    case True
    then have "?inf s = s" by (intro upd_rt_idem) (metis rt_rq.surjective rt_rq.update_convs(10))
    then show ?thesis using True run inv by (simp add: raw_disable_runtime_def)
  next
    case False
    then have ce: "c \<in> ?E" using c by (simp add: enabled_def)
    note rc = bw_bounds_each [OF bb ce]
    have card1: "1 \<le> card ?E" using ce card_gt_0_iff [of ?E] by (auto simp: Suc_leI)
    have tot: "(\<Sum>i \<in> ?E - {c}. runtime_of s i) = ?B * int (card ?E) - runtime_of s c"
      using iv ce sum.remove [of ?E c "runtime_of s"] by (simp add: total_runtime_def)
    have cm: "?B * int (card ?E) = ?B + ?B * int (card ?E - 1)" using card1 by (simp add: algebra_simps of_nat_diff)
    have le: "?B * int (card ?E) < 2 ^ 63" using iv bb by (simp add: bw_bounds_def)
    have B0: "0 \<le> ?B" "0 \<le> ?B * int (card ?E - 1)" using iv by auto
    show ?thesis
    proof (cases "runtime_of s c = ?B")
      case True
      have "bw_inv nr (?inf s)"
      proof (rule bw_inv_remove [OF inv ce])
        show "0 \<le> runtime_of (?inf s) i \<and> runtime_of (?inf s) i < 2 ^ 63" if "i \<in> ?E - {c}" for i
          using that bw_bounds_each [OF bb, of i] by auto
        have "(\<Sum>i \<in> ?E - {c}. runtime_of (?inf s) i) = (\<Sum>i \<in> ?E - {c}. runtime_of s i)" by (rule sum.cong) auto
        then show "(\<Sum>i \<in> ?E - {c}. runtime_of (?inf s) i) = ?B * int (card ?E - 1)" using tot cm True by simp
      qed auto
      then show ?thesis using True run by (simp add: raw_disable_runtime_def)
    next
      case ne: False
      define want where "want = ?B - runtime_of s c"
      have Bl: "?B < 2 ^ 63" using cm le B0 by linarith
      have sw: "s64 (?B - runtime_of s c) = want" unfolding want_def using rc B0 Bl by (intro s64_id) auto
      let ?is = "filter (\<lambda>i. i \<in> span (rd_of s c)) [0..<nr_cpu_ids e]"
      have iss: "set ?is = {..<nr}" "distinct ?is" using d n by (auto simp: one_domain_def)
      have O: "others c ?is s = ?E - {c}" using iss(1) by (auto simp: enabled_def)
      have "\<exists>s'. disable_loop c ?is want s = (0, s') \<and> (\<forall>i. i \<notin> ?E - {c} \<longrightarrow> runtime_of s' i = runtime_of s i) \<and>
        (\<forall>i \<in> ?E - {c}. 0 \<le> runtime_of s' i \<and> runtime_of s' i < 2 ^ 63) \<and> rt_b_runtime s' = ?B \<and> rt_b_period s' = rt_b_period s \<and>
        (\<Sum>i \<in> ?E - {c}. runtime_of s' i) = (\<Sum>i \<in> ?E - {c}. runtime_of s i) - want"
      proof (rule disable_loop_spec [OF iss(2), of c s want, unfolded O])
        show "\<forall>i \<in> ?E - {c}. 0 \<le> runtime_of s i" using bw_bounds_each(1) [OF bb] by blast
        show "(\<Sum>i \<in> ?E - {c}. runtime_of s i) - want < 2 ^ 63" "want \<noteq> 0" "want < 2 ^ 63"
          "(\<Sum>i \<in> ?E - {c}. runtime_of s i) < 2 ^ 63" "- (2 ^ 63) < want"
          "want > 0 \<Longrightarrow> want \<le> (\<Sum>i \<in> ?E - {c}. runtime_of s i)"
          unfolding tot want_def using le cm B0 ne rc by linarith+
        show "?E - {c} \<noteq> {}" if "want < 0"
        proof
          assume e: "?E - {c} = {}"
          then have "?E = {c}" using ce by blast
          then have "card ?E = 1" by simp
          then show False using tot that unfolding e want_def by simp
        qed
      qed
      then obtain s' where s': "disable_loop c ?is want s = (0, s')" "\<forall>i. i \<notin> ?E - {c} \<longrightarrow> runtime_of s' i = runtime_of s i"
        "\<forall>i \<in> ?E - {c}. 0 \<le> runtime_of s' i \<and> runtime_of s' i < 2 ^ 63" "rt_b_runtime s' = ?B" "rt_b_period s' = rt_b_period s"
        "(\<Sum>i \<in> ?E - {c}. runtime_of s' i) = (\<Sum>i \<in> ?E - {c}. runtime_of s i) - want" by blast
      have "bw_inv nr (?inf s')"
      proof (rule bw_inv_remove [OF inv ce])
        have "(\<Sum>i \<in> ?E - {c}. runtime_of (?inf s') i) = (\<Sum>i \<in> ?E - {c}. runtime_of s' i)" by (rule sum.cong) auto
        then show "(\<Sum>i \<in> ?E - {c}. runtime_of (?inf s') i) = ?B * int (card ?E - 1)" using s'(6) tot cm want_def by simp
      qed (use s' in auto)
      then show ?thesis using False ne run s'(1) by (simp add: raw_disable_runtime_def sw)
    qed
  qed
qed

text \<open>Putting a disabled run queue back.\<close>

lemma raw_enable_runtime_spec:
  assumes inv: "bw_inv nr s" and c: "c < nr" "runtime_of s c = RUNTIME_INF" and run: "scheduler_running s"
  shows "bw_inv nr (raw_enable_runtime c s)" "runtime_of (raw_enable_runtime c s) c = rt_b_runtime s"
proof -
  let ?s = "raw_enable_runtime c s" and ?B = "rt_b_runtime s" and ?E = "enabled nr s"
  note iv = inv [unfolded bw_inv_def]
  have s: "?s = upd_rt c (\<lambda>r. r\<lparr>rt_runtime := ?B, rt_time := 0, rt_throttled := False\<rparr>) s" using run by (simp add: raw_enable_runtime_def)
  have r: "runtime_of ?s i = (if i = c then ?B else runtime_of s i)" for i unfolding s by simp
  then show "runtime_of ?s c = ?B" by simp
  have cE: "c \<notin> ?E" using c by (simp add: enabled_def)
  have "card (insert c ?E) \<le> card {..<nr}" by (rule card_mono) (use c in \<open>auto simp: enabled_def\<close>)
  then have k: "card ?E + 1 \<le> nr" using cE by simp
  then have "int (card ?E) + 1 \<le> int nr" by linarith
  then have le: "?B * (int (card ?E) + 1) \<le> ?B * int nr" using iv by (intro mult_left_mono) auto
  have "?B * 1 \<le> ?B * int nr" using iv k by (intro mult_left_mono) auto
  then have "?B \<noteq> RUNTIME_INF" using iv by (auto simp: RUNTIME_INF_def)
  then have e: "enabled nr ?s = insert c ?E" using c unfolding enabled_def r by auto
  have "(\<Sum>i \<in> ?E. runtime_of ?s i) = (\<Sum>i \<in> ?E. runtime_of s i)" by (rule sum.cong) (use cE r in auto)
  then have t: "total_runtime nr ?s = ?B + total_runtime nr s" unfolding total_runtime_def e using cE r by simp
  have f: "rt_b_runtime ?s = ?B" "rt_b_period ?s = rt_b_period s" unfolding s by simp_all
  show "bw_inv nr ?s" using iv le cE unfolding bw_inv_def bw_bounds_def t f e
    by (auto simp: r algebra_simps)
qed

text \<open>
  Enabling a run queue that is enabled sets its runtime back to the bandwidth: what it has lent is
  created again, what it has borrowed is lost.
\<close>

lemma enable_enabled_total:
  assumes inv: "bw_inv nr s" and c: "c \<in> enabled nr s" and run: "scheduler_running s"
  shows "total_runtime nr (enable_runtime c s) = total_runtime nr s + (rt_b_runtime s - runtime_of s c)"
proof -
  let ?s = "enable_runtime c s" and ?B = "rt_b_runtime s"
  have r: "runtime_of ?s i = (if i = c then ?B else runtime_of s i)" for i
    using run by (simp add: enable_runtime_def raw_enable_runtime_def)
  have "?B * 1 \<le> ?B * int nr" using inv c by (intro mult_left_mono) (auto simp: bw_inv_def enabled_def)
  then have "?B \<noteq> RUNTIME_INF" using inv by (auto simp: bw_inv_def RUNTIME_INF_def)
  then have e: "enabled nr ?s = enabled nr s" using c unfolding enabled_def r by auto
  have "(\<Sum>i \<in> enabled nr s - {c}. runtime_of ?s i) = (\<Sum>i \<in> enabled nr s - {c}. runtime_of s i)"
    by (rule sum.cong) (use r in auto)
  moreover have "runtime_of ?s c = ?B" using r [of c] by simp
  ultimately show ?thesis unfolding total_runtime_def e
    using sum.remove [OF enabled_finite c, of "runtime_of ?s"] sum.remove [OF enabled_finite c, of "runtime_of s"] by linarith
qed

section \<open>The period timer and the charging of tasks\<close>

lemma bw_inv_cong:
  assumes "\<And>i. runtime_of s' i = runtime_of s i" "rt_b_runtime s' = rt_b_runtime s" "rt_b_period s' = rt_b_period s"
  shows "bw_inv nr s' = bw_inv nr s"
  using assms by (simp add: bw_inv_def bw_bounds_def total_runtime_def enabled_def)

definition bw_state :: "nat \<Rightarrow> sched \<Rightarrow> bool" where
  "bw_state nr s \<longleftrightarrow> bw_inv nr s \<and> one_domain nr s \<and> scheduler_running s"

lemma balance_loop_times:
  "time_of (snd (balance_loop c w p is m s)) i = time_of s i \<and>
   scheduler_running (snd (balance_loop c w p is m s)) = scheduler_running s \<and>
   rt_b_runtime (snd (balance_loop c w p is m s)) = rt_b_runtime s \<and>
   rt_b_period (snd (balance_loop c w p is m s)) = rt_b_period s"
proof (induction "is" arbitrary: m s)
  case (Cons k "is")
  show ?case
  proof (cases "k = c \<or> runtime_of s k = RUNTIME_INF")
    case False
    then have k: "k \<noteq> c" "runtime_of s k \<noteq> RUNTIME_INF" by auto
    show ?thesis unfolding balance_loop_step [OF k] Let_def using Cons.IH by simp
  qed (use Cons.IH in simp)
qed simp

lemma balance_runtime_keeps:
  "time_of (snd (balance_runtime e c s)) i = time_of s i"
  "scheduler_running (snd (balance_runtime e c s)) = scheduler_running s"
  "one_domain nr (snd (balance_runtime e c s)) = one_domain nr s"
proof -
  show "time_of (snd (balance_runtime e c s)) i = time_of s i"
    "scheduler_running (snd (balance_runtime e c s)) = scheduler_running s"
    using balance_loop_times by (simp_all add: balance_runtime_def do_balance_runtime_def Let_def)
  note f = rt_core_fields [OF balance_runtime_core [OF rt_core_refl, of s e c]]
  show "one_domain nr (snd (balance_runtime e c s)) = one_domain nr s" by (simp add: one_domain_def f)
qed

lemma bw_state_balance:
  assumes "bw_state nr s" "times_ok nr s" "c < nr" "nr_cpu_ids e = nr"
  shows "bw_state nr (snd (balance_runtime e c s))" "times_ok nr (snd (balance_runtime e c s))"
  using assms balance_runtime_spec(1) [of nr s c e] balance_runtime_keeps [where e = e and c = c and s = s]
  by (auto simp: bw_state_def times_ok_def)

lemma bw_state_upd_rt:
  assumes "bw_state nr s" "\<And>r. rt_runtime (f r) = rt_runtime r"
  shows "bw_state nr (upd_rt c f s)"
proof -
  have "bw_inv nr (upd_rt c f s) = bw_inv nr s" using assms(2) by (intro bw_inv_cong) auto
  moreover have "scheduler_running (upd_rt c f s) = scheduler_running s" by (simp add: upd_defs)
  ultimately show ?thesis using assms(1) by (simp add: bw_state_def one_domain_def)
qed

lemma bw_state_frame:
  assumes "\<And>i. rt_of s' i = rt_of s i" "rt_b_runtime s' = rt_b_runtime s" "rt_b_period s' = rt_b_period s"
    "rds s' = rds s" "\<And>i. rd (rqs s' i) = rd (rqs s i)" "scheduler_running s' = scheduler_running s"
  shows "bw_state nr s' = bw_state nr s" "times_ok nr s' = times_ok nr s"
proof -
  have "bw_inv nr s' = bw_inv nr s" by (rule bw_inv_cong) (use assms in auto)
  then show "bw_state nr s' = bw_state nr s" by (simp add: bw_state_def one_domain_def assms)
  show "times_ok nr s' = times_ok nr s" by (simp add: times_ok_def assms)
qed

lemma resched_frame:
  "bw_state nr (resched_task t s) = bw_state nr s" "times_ok nr (resched_task t s) = times_ok nr s"
  by (rule bw_state_frame; simp add: resched_task_def set_tsk_need_resched_def upd_task_def)+

lemma period_timer_step_bw:
  assumes b: "bw_state nr s" and t: "times_ok nr s" and i: "i < nr" and n: "nr_cpu_ids e = nr"
  shows "bw_state nr (snd (period_timer_step e overrun i idl s)) \<and> times_ok nr (snd (period_timer_step e overrun i idl s))"
proof -
  define s1 where "s1 = (if rt_throttled (rt_of s i) then snd (balance_runtime e i s) else s)"
  have b1: "bw_state nr s1" "times_ok nr s1" using bw_state_balance [OF b t i n] b t by (auto simp: s1_def)
  define s2 where "s2 = upd_rt i (\<lambda>r. r\<lparr>rt_time := rt_time r - min (rt_time r) (u64 (overrun * runtime_of s1 i))\<rparr>) s1"
  have u: "0 \<le> u64 k" for k by (simp add: u64_def)
  have b2: "bw_state nr s2" "times_ok nr s2"
    using bw_state_upd_rt [OF b1(1)] b1(2) u [of "overrun * runtime_of s1 i"]
    by (auto simp: s2_def times_ok_def min_def split: if_splits)
  define s3 where "s3 = upd_rt i (\<lambda>r. r\<lparr>rt_throttled := False\<rparr>) s2"
  have b3: "bw_state nr s3" "times_ok nr s3"
    using bw_state_upd_rt [OF b2(1)] b2(2) by (auto simp: s3_def times_ok_def)
  let ?s4 = "upd_rq i (\<lambda>q. q\<lparr>skip_clock_update := - 1\<rparr>) s3"
  have "bw_state nr ?s4 = bw_state nr s3" "times_ok nr ?s4 = times_ok nr s3"
    by (rule bw_state_frame; simp add: upd_rq_def)+
  with b3 have b4: "bw_state nr ?s4" "times_ok nr ?s4" by auto
  show ?thesis
    using b t b2 b3 b4
    by (simp add: period_timer_step_def Let_def s1_def [symmetric] s2_def [symmetric] s3_def [symmetric]
        sched_rt_rq_enqueue_def resched_frame)
qed

lemma period_timer_loop_bw:
  "bw_state nr s \<Longrightarrow> times_ok nr s \<Longrightarrow> set is \<subseteq> {..<nr} \<Longrightarrow> nr_cpu_ids e = nr \<Longrightarrow>
   bw_state nr (snd (period_timer_loop e overrun is idl s)) \<and> times_ok nr (snd (period_timer_loop e overrun is idl s))"
proof (induction "is" arbitrary: idl s)
  case (Cons i "is")
  obtain idl' s' where s': "period_timer_step e overrun i idl s = (idl', s')" by (cases "period_timer_step e overrun i idl s")
  have "bw_state nr s' \<and> times_ok nr s'"
    using period_timer_step_bw [of nr s i e overrun idl] Cons.prems s' by simp
  then show ?case using Cons s' by simp
qed simp

lemma do_sched_rt_period_timer_bw:
  assumes "bw_state nr s" "times_ok nr s" "nr_cpu_ids e = nr"
  shows "bw_state nr (snd (do_sched_rt_period_timer e overrun s))"
    "times_ok nr (snd (do_sched_rt_period_timer e overrun s))"
  using assms period_timer_loop_bw [OF assms(1,2) _ assms(3), of "filter (\<lambda>i. i \<in> cpu_online_mask s) [0..<nr_cpu_ids e]"]
  by (auto simp: do_sched_rt_period_timer_def)

lemma exceeded_bw:
  assumes b: "bw_state nr s" and t: "times_ok nr s" and c: "c < nr" and n: "nr_cpu_ids e = nr"
  shows "bw_state nr (snd (sched_rt_runtime_exceeded e c s))"
proof -
  define s1 where "s1 = snd (balance_runtime e c s)"
  have b1: "bw_state nr s1" unfolding s1_def by (rule bw_state_balance(1) [OF b t c n])
  have "bw_state nr (upd_rt c (\<lambda>r. r\<lparr>rt_throttled := True\<rparr>) s1)" by (rule bw_state_upd_rt [OF b1]) simp
  moreover obtain m where "balance_runtime e c s = (m, s1)" by (cases "balance_runtime e c s") (simp add: s1_def)
  ultimately show ?thesis using b b1 by (auto simp: sched_rt_runtime_exceeded_def Let_def)
qed

lemma exceeded_times: "time_of (snd (sched_rt_runtime_exceeded e c s)) i = time_of s i"
proof -
  obtain m s1 where "balance_runtime e c s = (m, s1)" by (cases "balance_runtime e c s")
  then show ?thesis using balance_runtime_keeps(1) [of e c s i] by (auto simp: sched_rt_runtime_exceeded_def Let_def)
qed

lemma update_curr_rt_bw:
  assumes b: "bw_state nr s" and t: "times_ok nr (update_curr_rt e c s)"
    and c: "task_cpu (tasks s (curr_of s c)) < nr" and n: "nr_cpu_ids e = nr"
  shows "bw_state nr (update_curr_rt e c s)"
proof -
  let ?q = "task_cpu (tasks s (curr_of s c))"
  have b2: "bw_state nr (charge_task c s) = bw_state nr s"
    unfolding charge_task_def by (rule bw_state_frame) (simp_all add: upd_task_def)
  have b3: "bw_state nr (charge_rq c s)" unfolding charge_rq_def by (rule bw_state_upd_rt) (use b b2 in auto)
  obtain x s4 where x: "sched_rt_runtime_exceeded e ?q (charge_rq c s) = (x, s4)"
    by (cases "sched_rt_runtime_exceeded e ?q (charge_rq c s)")
  note run = update_curr_rt_eq [OF x]
  have t4: "time_of s4 i = time_of (charge_rq c s) i" for i using exceeded_times [of e ?q "charge_rq c s" i] x by simp
  show ?thesis
  proof (cases "rt_class (tasks s (curr_of s c)) \<and> rt_bandwidth_enabled (charge_task c s) \<and> sched_rt_runtime ?q s \<noteq> RUNTIME_INF")
    case True
    then have u: "update_curr_rt e c s = (if x then resched_task (curr_of s c) s4 else s4)" unfolding run by simp
    then have "times_ok nr s4" using t by (auto simp: resched_frame split: if_splits)
    then have "times_ok nr (charge_rq c s)" by (simp add: times_ok_def t4)
    from exceeded_bw [OF b3 this c n] x show ?thesis unfolding u by (simp add: resched_frame)
  next
    case False
    then show ?thesis unfolding run using b b2 by auto
  qed
qed

text \<open>
  The life of the pool: the period timer, charging the running task of a CPU, a CPU going away or
  coming back, in any order. A queue comes back when it is disabled, or while it has exactly its own
  runtime, as in the second of the two calls made when a CPU comes online (\<open>set_rq_online\<close>, then
  \<open>update_runtime\<close>) if no runtime was lent in between. A step into a \<open>BUG_ON\<close> has the result \<open>Inl\<close>.
\<close>

inductive bw_step :: "nat \<Rightarrow> sched \<Rightarrow> sched run \<Rightarrow> bool" for nr where
  timer: "nr_cpu_ids e = nr \<Longrightarrow> bw_step nr s (Inr (snd (do_sched_rt_period_timer e overrun s)))"
| charge: "nr_cpu_ids e = nr \<Longrightarrow> task_cpu (tasks s (curr_of s c)) < nr \<Longrightarrow> bw_step nr s (Inr (update_curr_rt e c s))"
| disable: "nr_cpu_ids e = nr \<Longrightarrow> c < nr \<Longrightarrow> bw_step nr s (disable_runtime e c s)"
| enable: "c < nr \<Longrightarrow> runtime_of s c = RUNTIME_INF \<or> runtime_of s c = rt_b_runtime s \<Longrightarrow> bw_step nr s (Inr (enable_runtime c s))"

inductive_cases bw_stepE: "bw_step nr s r"

inductive bw_reach :: "nat \<Rightarrow> sched \<Rightarrow> sched run \<Rightarrow> bool" for nr s0 where
  start: "bw_reach nr s0 (Inr s0)"
| step: "bw_reach nr s0 (Inr s) \<Longrightarrow> times_ok nr s \<Longrightarrow> bw_step nr s r \<Longrightarrow>
    (\<And>s'. r = Inr s' \<Longrightarrow> times_ok nr s') \<Longrightarrow> bw_reach nr s0 r"

lemma disable_loop_keeps:
  "scheduler_running (snd (disable_loop c is want s)) = scheduler_running s \<and> rds (snd (disable_loop c is want s)) = rds s \<and>
   rd (rqs (snd (disable_loop c is want s)) i) = rd (rqs s i)"
proof (induction "is" arbitrary: want s)
  case (Cons k "is")
  have "scheduler_running (take_runtime k d s) = scheduler_running s \<and> rds (take_runtime k d s) = rds s \<and>
    rd (rqs (take_runtime k d s) i) = rd (rqs s i)" for d
    by (simp add: take_runtime_def upd_defs)
  then show ?case
  proof (cases "k = c \<or> runtime_of s k = RUNTIME_INF")
    case False
    then have k: "k \<noteq> c" "runtime_of s k \<noteq> RUNTIME_INF" by auto
    show ?thesis unfolding disable_loop_step [OF k] Let_def using Cons.IH by (simp add: take_runtime_def upd_defs)
  qed (use Cons.IH in simp)
qed simp

lemma raw_disable_keeps:
  assumes "raw_disable_runtime e c s = Inr s'"
  shows "scheduler_running s' = scheduler_running s" "one_domain nr s' = one_domain nr s"
proof -
  let ?is = "filter (\<lambda>i. i \<in> span (rd_of s c)) [0..<nr_cpu_ids e]"
  obtain w s1 where l: "disable_loop c ?is (s64 (rt_b_runtime s - runtime_of s c)) s = (w, s1)"
    by (cases "disable_loop c ?is (s64 (rt_b_runtime s - runtime_of s c)) s")
  have k: "scheduler_running s1 = scheduler_running s" "rds s1 = rds s" "\<And>i. rd (rqs s1 i) = rd (rqs s i)"
    using disable_loop_keeps [of c ?is "s64 (rt_b_runtime s - runtime_of s c)" s] l by auto
  have "s' = s \<or> s' = upd_rt c (\<lambda>r. r\<lparr>rt_runtime := RUNTIME_INF\<rparr>) s \<or> s' = upd_rt c (\<lambda>r. r\<lparr>rt_runtime := RUNTIME_INF\<rparr>) s1"
    using assms l by (auto simp: raw_disable_runtime_def Let_def split: if_splits)
  then show "scheduler_running s' = scheduler_running s" "one_domain nr s' = one_domain nr s"
    using k by (auto simp: one_domain_def)
qed

lemma bw_step_state:
  assumes b: "bw_state nr s" "times_ok nr s" and st: "bw_step nr s r" and t: "\<And>s'. r = Inr s' \<Longrightarrow> times_ok nr s'"
  shows "\<exists>s'. r = Inr s' \<and> bw_state nr s'"
  using st
proof cases
  case (timer e overrun)
  then show ?thesis using do_sched_rt_period_timer_bw(1) [OF b] by simp
next
  case (charge e c)
  then show ?thesis using update_curr_rt_bw [OF b(1)] t by simp
next
  case (disable e c)
  then obtain s' where s': "raw_disable_runtime e c s = Inr s'" "bw_inv nr s'"
    using raw_disable_runtime_spec [of nr s c e] b by (auto simp: bw_state_def)
  then show ?thesis using disable(1) raw_disable_keeps [OF s'(1)] b by (auto simp: bw_state_def disable_runtime_def)
next
  case (enable c)
  have "one_domain nr (enable_runtime c s) = one_domain nr s" "scheduler_running (enable_runtime c s) = scheduler_running s"
    by (simp_all add: enable_runtime_def raw_enable_runtime_def one_domain_def)
  moreover have "bw_inv nr (enable_runtime c s) = bw_inv nr s" if "runtime_of s c = rt_b_runtime s"
    by (rule bw_inv_cong) (use that in \<open>simp_all add: enable_runtime_def raw_enable_runtime_def\<close>)
  ultimately show ?thesis using enable raw_enable_runtime_spec(1) [of nr s c] b by (auto simp: bw_state_def enable_runtime_def)
qed

lemma bw_reach_state:
  "bw_reach nr s0 r \<Longrightarrow> bw_state nr s0 \<Longrightarrow> times_ok nr s0 \<Longrightarrow> \<exists>s'. r = Inr s' \<and> bw_state nr s'"
proof (induction rule: bw_reach.induct)
  case (step s r)
  then show ?case using bw_step_state [of nr s r] by blast
qed simp

end
