(* ===== verification/Sched_Thms.thy ===== *)
theory Sched_Thms
  imports Sched_Run Sched_Bw
begin

text \<open>
  The properties of the real-time scheduling class and of \<open>schedule\<close>, each with an instance on a small
  system: two CPUs whose idle tasks are 0 and 2, real-time tasks with odd numbers, and a load balancer
  and other classes that do nothing.
\<close>

definition demo_env :: sched_env where
  "demo_env = \<lparr>nr_cpu_ids = 2, HZ = 100, smp_processor_id = 0, sched_clock_cpu = (\<lambda>_ _. 0), domains = (\<lambda>_. []),
     interference = (\<lambda>_ _ s. (False, s)), other_enqueue = (\<lambda>_ _ _ s. Inr s), other_dequeue = (\<lambda>_ _ _ s. Inr s)\<rparr>"

definition demo_core :: core_env where
  "demo_core = \<lparr>cenv = demo_env,
     cfs_nr_running = (\<lambda>c s. if rt_nr_running (rt_of s c) = 0 then nr_running (rqs s c) else nr_running (rqs s c) - 1),
     stop_pick = (\<lambda>_ s. (None, s)), fair_pick = (\<lambda>_ s. (None, s)), idle_pick = (\<lambda>c s. (Some (idle (rqs s c)), s)),
     other_put_prev = (\<lambda>_ _ s. s), idle_balance = (\<lambda>_ s. s)\<rparr>"

definition demo_task :: "nat \<Rightarrow> task" where
  "demo_task t = \<lparr>prio = (if even t then 140 else int t), policy = (if even t then SCHED_NORMAL else SCHED_RR), rt_class = odd t,
     on_rq = False, on_cpu = even t, task_cpu = (if even t then t div 2 else 0), cpus_allowed = {0, 1}, nr_cpus_allowed = 2,
     time_slice = 10, timeout = 0, exec_start = 0, sum_exec_runtime = 0, need_resched = False, rlim_cur = RLIM_INFINITY,
     rlim_max = RLIM_INFINITY, sched_exp = 0, contributes_to_load = False\<rparr>"

lemma demo_env_ok: "env_ok 2 demo_core"
  by (auto simp: env_ok_def others_ok_def demo_core_def demo_env_def quiet_def pick_ok_def leaves_rt_def rt_core_refl idle_ok_def)

lemma demo_tasks: "boot_tasks demo_task"
  by (auto simp: boot_tasks_def demo_task_def)

lemma demo_nr: "nr_cpu_ids demo_env = 2"
  by (simp add: demo_env_def)

lemma demo_quiet: "smp_processor_id demo_env < 2" "quiet demo_env"
  by (simp_all add: demo_env_def quiet_def)

lemma core_accounting:
  assumes co: "core_ok nr s Q P" and c: "c < nr"
  shows "rt_nr_running (rt_of s c) = int (card {t. runnable_rt s c t}) \<and>
    rt_nr_migratory (rt_of s c) = int (card {t. runnable_rt s c t \<and> nr_cpus_allowed (tasks s t) > 1}) \<and>
    bitmap (rt_of s c) = insert MAX_RT_PRIO {prio_of s t | t. runnable_rt s c t} \<and>
    least (bitmap (rt_of s c)) (hp_curr (rt_of s c)) \<and>
    (overload (rt_of s c) \<longleftrightarrow> rt_nr_migratory (rt_of s c) \<noteq> 0 \<and> rt_nr_running (rt_of s c) > 1)"
proof -
  have R: "rtasks Q c = {t. runnable_rt s c t}" using core_rtasks [OF co] by (auto simp: runnable_rt_def)
  have inv: "rt_inv nr s Q" using core_okD(1) [OF co] by (simp add: rt_ok_def)
  have l: "lists_ok s Q" by (rule rt_invD(1) [OF inv])
  have "{i. 0 \<le> i \<and> i < MAX_RT_PRIO \<and> Q c i \<noteq> []} = {prio_of s t | t. t \<in> rtasks Q c}"
  proof -
    have "\<exists>t. i = prio_of s t \<and> t \<in> rtasks Q c" if "Q c i \<noteq> []" for i
      using hd_in_set [OF that] lists_okD(3) [OF l hd_in_set [OF that]] by (intro exI [of _ "hd (Q c i)"]) (auto simp: rtasks_def)
    moreover have "0 \<le> prio_of s t \<and> prio_of s t < MAX_RT_PRIO \<and> Q c (prio_of s t) \<noteq> []" if "t \<in> rtasks Q c" for t
      using rtasks_queue [OF l that] lists_okD(1,2) [OF l rtasks_queue [OF l that]] by auto
    ultimately show ?thesis by blast
  qed
  then have "bits (Q c) = insert MAX_RT_PRIO {prio_of s t | t. runnable_rt s c t}" using R by (simp add: bits_def)
  with rt_invD(2,3) [OF inv c] show ?thesis by (simp add: counts_ok_def heads_ok_def migratory_def R)
qed

lemma boot_tasks_eq: "tasks (sched_boot e tk) = tk"
  by (simp add: sched_boot_def init_sched_rt_class_def boot_fold) (simp add: sched_zero_def)

lemma demo_wake:
  assumes "sched_reach 2 (sched_boot demo_env demo_task) (Inr s)" "\<not> on_rq (tasks s t)" "\<not> on_cpu (tasks s t)"
    "task_cpu (tasks s t) = 0" "0 \<le> prio_of s t" "prio_of s t < MAX_RT_PRIO"
  shows "\<exists>s'. ttwu_activate demo_env 0 t ENQUEUE_WAKEUP s = Inr s' \<and> sched_reach 2 (sched_boot demo_env demo_task) (Inr s')"
proof -
  have "sched_step 2 s (ttwu_activate (cenv demo_core) (task_cpu (tasks s t)) t ENQUEUE_WAKEUP s)"
    by (rule sched_step.wake_up [OF demo_env_ok]) (simp_all add: assms)
  then have st: "sched_step 2 s (ttwu_activate demo_env 0 t ENQUEUE_WAKEUP s)" by (simp add: demo_core_def assms)
  have "sched_ok 2 s" using sched_reach_ok [OF assms(1) boot_ok [OF demo_tasks demo_nr]] by simp
  from sched_step_ok [OF this st] st sched_reach.step [OF assms(1)] show ?thesis by metis
qed

text \<open>The system with one real-time task awake on CPU 0.\<close>

lemma demo_one:
  "\<exists>s. ttwu_activate demo_env 0 1 ENQUEUE_WAKEUP (sched_boot demo_env demo_task) = Inr s \<and>
    sched_reach 2 (sched_boot demo_env demo_task) (Inr s) \<and> (\<forall>t. runnable_rt s 0 t \<longleftrightarrow> t = 1) \<and> hp_curr (rt_of s 0) = 1 \<and>
    (\<forall>t. prio_of s t = prio (demo_task t) \<and> policy (tasks s t) = policy (demo_task t) \<and> time_slice (tasks s t) = 10)"
proof -
  let ?b = "sched_boot demo_env demo_task"
  note t = boot_tasks_eq [of demo_env demo_task]
  have co: "core_ok 2 ?b (\<lambda>_ _. []) (\<lambda>_. [])" by (rule boot_core(1) [OF demo_tasks demo_nr])
  have h: "\<not> queued (\<lambda>_ _. []) 1" "0 \<le> prio_of ?b 1" "prio_of ?b 1 < MAX_RT_PRIO" "task_cpu (tasks ?b 1) = 0" "0 < (2 :: nat)"
    "rt_class (tasks ?b 1)" by (simp_all add: t demo_task_def queued_def MAX_RT_PRIO_def)
  from activate_task_spec [OF core_okD(1) [OF co] h, where e = demo_env and flags = ENQUEUE_WAKEUP] obtain s1 where s1: "activate_task demo_env 0 1 ENQUEUE_WAKEUP ?b = Inr s1" "rq_frame ?b s1" by blast
  let ?s = "upd_task 1 (\<lambda>p. p\<lparr>on_rq := True\<rparr>) s1"
  have run: "ttwu_activate demo_env 0 1 ENQUEUE_WAKEUP ?b = Inr ?s" using s1(1) by (simp add: ttwu_activate_def)
  have "\<not> on_rq (tasks ?b 1)" "\<not> on_cpu (tasks ?b 1)" by (simp_all add: t demo_task_def)
  from demo_wake [OF sched_reach.start this h(4,2,3)] run have re: "sched_reach 2 ?b (Inr ?s)" by simp
  have "core_task (tasks s1 t) = core_task (demo_task t)" for t using s1(2) by (simp add: rq_frame_def t)
  then have sl: "time_slice (tasks s1 t) = 10" for t by (simp add: core_task_def) (simp add: demo_task_def)
  note g = rq_frame_fields [OF s1(2), unfolded t]
  have f: "prio_of ?s t = prio (demo_task t)" "policy (tasks ?s t) = policy (demo_task t)" "time_slice (tasks ?s t) = 10"
    "rt_class (tasks ?s t) = odd t" "on_rq (tasks ?s t) \<longleftrightarrow> t = 1" "t = 1 \<Longrightarrow> task_cpu (tasks ?s t) = 0" for t
    by (simp_all add: g sl upd_task_def) (simp_all add: demo_task_def)
  have r: "runnable_rt ?s 0 t \<longleftrightarrow> t = 1" for t using f(4-6) [of t] by (auto simp: runnable_rt_def)
  obtain Q P where "core_ok 2 ?s Q P" using sched_reach_ok [OF re boot_ok [OF demo_tasks demo_nr]] by (auto simp: sched_ok_def)
  from core_accounting [OF this h(5)] have
    bm: "bitmap (rt_of ?s 0) = insert MAX_RT_PRIO {prio_of ?s t | t. runnable_rt ?s 0 t}" "least (bitmap (rt_of ?s 0)) (hp_curr (rt_of ?s 0))"
    by blast+
  have "{prio_of ?s t | t. runnable_rt ?s 0 t} = {1}" unfolding r f(1) by (auto simp: demo_task_def)
  with bm have "least {MAX_RT_PRIO, 1} (hp_curr (rt_of ?s 0))" by simp
  then have "hp_curr (rt_of ?s 0) = 1" by (auto simp: least_def MAX_RT_PRIO_def)
  then show ?thesis using run re r f(1-3) by blast
qed

section \<open>No run of the scheduler fails\<close>



text \<open>
  C17. In every state a run reaches, the bookkeeping of every run queue is exact: the number of queued
  tasks, the number of those that may migrate, the bitmap of used priorities, the highest priority, and
  the overload flag all agree with the runnable real-time tasks of the CPU.
\<close>

theorem rt_accounting:
  assumes "boot_tasks tk" "nr_cpu_ids e = nr" "sched_reach nr (sched_boot e tk) (Inr s)" "c < nr"
  shows "rt_nr_running (rt_of s c) = int (card {t. runnable_rt s c t}) \<and>
    rt_nr_migratory (rt_of s c) = int (card {t. runnable_rt s c t \<and> nr_cpus_allowed (tasks s t) > 1}) \<and>
    bitmap (rt_of s c) = insert MAX_RT_PRIO {prio_of s t | t. runnable_rt s c t} \<and>
    least (bitmap (rt_of s c)) (hp_curr (rt_of s c)) \<and>
    (overload (rt_of s c) \<longleftrightarrow> rt_nr_migratory (rt_of s c) \<noteq> 0 \<and> rt_nr_running (rt_of s c) > 1)"
proof -
  obtain Q P where "core_ok nr s Q P"
    using sched_reach_ok [OF assms(3) boot_ok [OF assms(1,2)]] by (auto simp: sched_ok_def)
  from core_accounting [OF this assms(4)] show ?thesis .
qed

theorem rt_accounting_witness:
  "\<exists>s. ttwu_activate demo_env 0 1 ENQUEUE_WAKEUP (sched_boot demo_env demo_task) = Inr s \<and>
    rt_nr_running (rt_of s 0) = int (card {t. runnable_rt s 0 t})"
proof -
  obtain s where s: "ttwu_activate demo_env 0 1 ENQUEUE_WAKEUP (sched_boot demo_env demo_task) = Inr s"
    "sched_reach 2 (sched_boot demo_env demo_task) (Inr s)" using demo_one by blast
  from rt_accounting [OF demo_tasks demo_nr s(2), of 0] s(1) show ?thesis by simp
qed

section \<open>The highest priority runs\<close>



section \<open>Round robin\<close>

text \<open>A turn: the first task of the highest priority runs until its time slice is over.\<close>

definition rr_turn :: "sched_env \<Rightarrow> nat \<Rightarrow> sched \<Rightarrow> sched" where
  "rr_turn e c s = (case pick_next_rt_entity c s of
     Inr (Some t) \<Rightarrow> (task_tick_rt e c t ^^ nat (time_slice (tasks s t))) s | _ \<Rightarrow> s)"

definition slices_ok :: "sched \<Rightarrow> bool" where
  "slices_ok s \<longleftrightarrow> (\<forall>t. policy (tasks s t) = SCHED_RR \<longrightarrow> 0 < time_slice (tasks s t) \<and> time_slice (tasks s t) < 2 ^ 32)"

lemma u32_pred: "1 \<le> k \<Longrightarrow> k < 2 ^ 32 \<Longrightarrow> u32 (k - 1) = k - 1"
  by (simp add: u32_def)

lemma ticks_spec:
  assumes "rt_ok nr s Q P" "policy (tasks s t) = SCHED_RR" "time_slice (tasks s t) = int n" "0 < n" "int n < 2 ^ 32"
    "task_cpu (tasks s t) = c'" "prio_of s t = i" "t \<in> set (Q c' i)"
  shows "rt_ok nr ((task_tick_rt e c t ^^ n) s) (if length (Q c' i) > 1 then requeue Q c' i t False else Q) P \<and>
    time_slice (tasks ((task_tick_rt e c t ^^ n) s) t) = DEF_TIMESLICE e"
  using assms
proof (induction n arbitrary: s)
  case (Suc n)
  let ?s = "task_tick_rt e c t s"
  note tk = task_tick_rt_spec [OF Suc.prems(1), where e = e and c = c and t = t]
  have u: "u32 (int (Suc n) - 1) = int n" using u32_pred [of "int (Suc n)"] Suc.prems(5) by simp
  show ?case
  proof (cases "n = 0")
    case True
    then show ?thesis using tk(1,2) [unfolded Suc.prems(2,3,6,7)] Suc.prems(8) u by simp
  next
    case False
    have "rt_ok nr ?s Q P" "time_slice (tasks ?s t) = int n" using tk(1,2) [unfolded Suc.prems(2,3,6,7)] u False by simp_all
    from Suc.IH [OF this(1) _ this(2)] False Suc.prems show ?thesis by (simp add: funpow_swap1 tick_fields)
  qed
qed simp

lemma ticks_fields:
  "policy (tasks ((task_tick_rt e c t ^^ n) s) t') = policy (tasks s t')" "prio_of ((task_tick_rt e c t ^^ n) s) t' = prio_of s t'"
  "task_cpu (tasks ((task_tick_rt e c t ^^ n) s) t') = task_cpu (tasks s t')"
  "hp_curr (rt_of ((task_tick_rt e c t ^^ n) s) k) = hp_curr (rt_of s k)"
  "t' \<noteq> t \<Longrightarrow> time_slice (tasks ((task_tick_rt e c t ^^ n) s) t') = time_slice (tasks s t')"
  by (induction n) (simp_all add: tick_fields)

lemma pick_entity_head:
  assumes ok: "rt_ok nr s Q P" and c: "c < nr" and ne: "rtasks Q c \<noteq> {}"
  shows "pick_next_rt_entity c s = Inr (Some (hd (Q c (hp_curr (rt_of s c)))))"
proof -
  have inv: "rt_inv nr s Q" using ok by (simp add: rt_ok_def)
  note hq = head_queue [OF inv c ne]
  let ?h = "hp_curr (rt_of s c)"
  have t: "hd (Q c ?h) \<in> set (Q c ?h)" using hq(2) by simp
  note ti = lists_okD [OF rt_invD(1) [OF inv] t]
  have "is_list (runq s) (queue c ?h) (map run_list (Q c ?h))"
    using famD [OF lists_ok_fam [OF rt_invD(1) [OF inv]], of "queue c ?h"] ti by simp
  from is_list_head_next [OF this] show ?thesis using hq(1-3) by (cases "Q c ?h") (auto simp: pick_next_rt_entity_def)
qed

lemma rr_turn_spec:
  assumes ok: "rt_ok nr s Q P" and c: "c < nr" and h: "hp_curr (rt_of s c) = i" and q: "Q c i \<noteq> []"
    and rr: "\<forall>t \<in> set (Q c i). policy (tasks s t) = SCHED_RR" and sl: "slices_ok s"
    and d: "0 < DEF_TIMESLICE e" "DEF_TIMESLICE e < 2 ^ 32"
  shows "\<exists>Q'. rt_ok nr (rr_turn e c s) Q' P \<and> Q' c i = rotate1 (Q c i) \<and> hp_curr (rt_of (rr_turn e c s) c) = i \<and>
    (\<forall>t \<in> set (Q' c i). policy (tasks (rr_turn e c s) t) = SCHED_RR) \<and> slices_ok (rr_turn e c s)"
proof -
  let ?t = "hd (Q c i)"
  have l: "lists_ok s Q" using ok by (simp add: rt_ok_def rt_inv_def)
  have t: "?t \<in> set (Q c i)" using q by simp
  then have ne: "rtasks Q c \<noteq> {}" by (auto simp: rtasks_def)
  have ts: "0 < time_slice (tasks s ?t)" "time_slice (tasks s ?t) < 2 ^ 32" "policy (tasks s ?t) = SCHED_RR"
    using sl rr t by (auto simp: slices_ok_def)
  let ?n = "nat (time_slice (tasks s ?t))"
  have run: "rr_turn e c s = (task_tick_rt e c ?t ^^ ?n) s" using pick_entity_head [OF ok c ne] h by (simp add: rr_turn_def)
  let ?Q = "if length (Q c i) > 1 then requeue Q c i ?t False else Q"
  have tk: "rt_ok nr (rr_turn e c s) ?Q P" "time_slice (tasks (rr_turn e c s) ?t) = DEF_TIMESLICE e"
    using ticks_spec [OF ok ts(3), where n = ?n and c' = c and i = i and e = e and c = c] ts lists_okD(3,4) [OF l t] t unfolding run by auto
  have "?Q c i = rotate1 (Q c i)" by (cases "Q c i") (auto simp: requeue_apply)
  moreover have "slices_ok (rr_turn e c s)"
    unfolding slices_ok_def
  proof (intro allI impI)
    fix t' assume "policy (tasks (rr_turn e c s) t') = SCHED_RR"
    then show "0 < time_slice (tasks (rr_turn e c s) t') \<and> time_slice (tasks (rr_turn e c s) t') < 2 ^ 32"
      using sl d tk(2) ticks_fields(5) [where t' = t' and t = ?t and e = e and c = c and n = ?n and s = s]
        ticks_fields(1) [where t' = t' and t = ?t and e = e and c = c and n = ?n and s = s]
      unfolding slices_ok_def run by (cases "t' = ?t") auto
  qed
  moreover have "policy (tasks (rr_turn e c s) t') = policy (tasks s t')" for t' unfolding run by (rule ticks_fields(1))
  moreover have "hp_curr (rt_of (rr_turn e c s) c) = i" unfolding run using ticks_fields(4) h by simp
  ultimately show ?thesis using tk(1) rr by (intro exI [of _ ?Q]) simp
qed

lemma rr_turns_spec:
  assumes "rt_ok nr s Q P" "c < nr" "hp_curr (rt_of s c) = i" "Q c i \<noteq> []"
    "\<forall>t \<in> set (Q c i). policy (tasks s t) = SCHED_RR" "slices_ok s" "0 < DEF_TIMESLICE e" "DEF_TIMESLICE e < 2 ^ 32"
  shows "\<exists>Q'. rt_ok nr ((rr_turn e c ^^ k) s) Q' P \<and> Q' c i = rotate k (Q c i) \<and> hp_curr (rt_of ((rr_turn e c ^^ k) s) c) = i \<and>
    (\<forall>t \<in> set (Q' c i). policy (tasks ((rr_turn e c ^^ k) s) t) = SCHED_RR) \<and> slices_ok ((rr_turn e c ^^ k) s)"
proof (induction k)
  case 0
  then show ?case using assms by auto
next
  case (Suc k)
  then obtain Q' where q: "rt_ok nr ((rr_turn e c ^^ k) s) Q' P" "Q' c i = rotate k (Q c i)"
    "hp_curr (rt_of ((rr_turn e c ^^ k) s) c) = i" "\<forall>t \<in> set (Q' c i). policy (tasks ((rr_turn e c ^^ k) s) t) = SCHED_RR"
    "slices_ok ((rr_turn e c ^^ k) s)" by blast
  have "Q' c i \<noteq> []" using q(2) assms(4) by simp
  from rr_turn_spec [OF q(1) assms(2) q(3) this q(4,5) assms(7,8)] q(2) show ?case by auto
qed

text \<open>
  C18. Round robin is fair: when the tasks of the highest priority on a CPU are all scheduled round
  robin, every one of them comes to the head of the queue within as many turns as there are such tasks,
  a turn being the ticks of one time slice.
\<close>

theorem rr_fair:
  assumes "boot_tasks tk" "nr_cpu_ids e0 = nr" "sched_reach nr (sched_boot e0 tk) (Inr s)" "c < nr"
    and "\<forall>t. runnable_rt s c t \<and> prio_of s t = hp_curr (rt_of s c) \<longrightarrow> policy (tasks s t) = SCHED_RR"
    and "slices_ok s" "0 < DEF_TIMESLICE e" "DEF_TIMESLICE e < 2 ^ 32"
    and "runnable_rt s c t" "prio_of s t = hp_curr (rt_of s c)"
  shows "\<exists>k < card {t. runnable_rt s c t \<and> prio_of s t = hp_curr (rt_of s c)}.
    pick_next_rt_entity c ((rr_turn e c ^^ k) s) = Inr (Some t)"
proof -
  obtain Q P where co: "core_ok nr s Q P"
    using sched_reach_ok [OF assms(3) boot_ok [OF assms(1,2)]] by (auto simp: sched_ok_def)
  note ok = core_okD(1) [OF co]
  have l: "lists_ok s Q" using ok by (simp add: rt_ok_def rt_inv_def)
  let ?i = "hp_curr (rt_of s c)"
  have S: "set (Q c ?i) = {t. runnable_rt s c t \<and> prio_of s t = ?i}"
  proof -
    have "t \<in> rtasks Q c" if "t \<in> set (Q c ?i)" for t using that by (auto simp: rtasks_def)
    then have "t \<in> set (Q c ?i) \<longleftrightarrow> t \<in> rtasks Q c \<and> prio_of s t = ?i" for t
      using lists_okD(3) [OF l, of t c ?i] rtasks_queue [OF l, of t c] by auto
    then show ?thesis using core_rtasks [OF co] by (auto simp: runnable_rt_def)
  qed
  have len: "length (Q c ?i) = card {t. runnable_rt s c t \<and> prio_of s t = ?i}"
    using distinct_card [OF lists_ok_distinct [OF l, of c ?i]] S by simp
  obtain k where k: "k < length (Q c ?i)" "Q c ?i ! k = t" using S assms(9,10) by (metis (mono_tags, lifting) in_set_conv_nth mem_Collect_eq)
  then have ne: "Q c ?i \<noteq> []" by auto
  have rr: "\<forall>t \<in> set (Q c ?i). policy (tasks s t) = SCHED_RR" using S assms(5) by auto
  obtain Q' where q: "rt_ok nr ((rr_turn e c ^^ k) s) Q' P" "Q' c ?i = rotate k (Q c ?i)" "hp_curr (rt_of ((rr_turn e c ^^ k) s) c) = ?i"
    using rr_turns_spec [OF ok assms(4) refl ne rr assms(6-8)] by blast
  have "hd (Q' c ?i) = t" using q(2) k hd_rotate_conv_nth [OF ne, of k] by simp
  moreover have "rtasks Q' c \<noteq> {}" using q(2) ne by (auto simp: rtasks_def) (metis ex_in_conv rotate_is_Nil_conv set_empty)
  ultimately have "pick_next_rt_entity c ((rr_turn e c ^^ k) s) = Inr (Some t)"
    using pick_entity_head [OF q(1) assms(4)] q(3) by simp
  then show ?thesis using k(1) len by auto
qed

theorem rr_fair_witness:
  "\<exists>s. runnable_rt s 0 1 \<and> (\<exists>k < card {t. runnable_rt s 0 t \<and> prio_of s t = hp_curr (rt_of s 0)}.
    pick_next_rt_entity 0 ((rr_turn demo_env 0 ^^ k) s) = Inr (Some 1))"
proof -
  obtain s where s: "sched_reach 2 (sched_boot demo_env demo_task) (Inr s)" "\<forall>t. runnable_rt s 0 t \<longleftrightarrow> t = 1" "hp_curr (rt_of s 0) = 1"
    "\<forall>t. prio_of s t = prio (demo_task t) \<and> policy (tasks s t) = policy (demo_task t) \<and> time_slice (tasks s t) = 10"
    using demo_one by blast
  have "\<exists>k < card {t. runnable_rt s 0 t \<and> prio_of s t = hp_curr (rt_of s 0)}.
    pick_next_rt_entity 0 ((rr_turn demo_env 0 ^^ k) s) = Inr (Some 1)"
    by (rule rr_fair [OF demo_tasks demo_nr s(1)]) (use s in \<open>auto simp: slices_ok_def DEF_TIMESLICE_def demo_env_def demo_task_def\<close>)
  then show ?thesis using s(2) by blast
qed

section \<open>Balancing tasks between CPUs\<close>

lemma reach_core:
  assumes "boot_tasks tk" "nr_cpu_ids e0 = nr" "sched_reach nr (sched_boot e0 tk) (Inr s)"
  obtains Q P where "core_ok nr s Q P" "\<forall>i < nr. local_cpu_mask s i \<noteq> None"
  using sched_reach_ok [OF assms(3) boot_ok [OF assms(1,2)]] by (auto simp: sched_ok_def)





text \<open>
  C21. \<open>find_lowest_rq\<close> in a reachable state, for a task of real-time priority that may use more than one
  CPU, returns a CPU exactly when some online CPU of the domain that the task may use runs at a lower
  priority than the task, and then it returns one of those that run at the lowest priority. For a task
  that may use only one CPU it returns none.
\<close>

theorem find_lowest_rq_best:
  assumes "boot_tasks tk" "nr_cpu_ids e0 = nr" "sched_reach nr (sched_boot e0 tk) (Inr s)"
    and "nr_cpu_ids e = nr" "smp_processor_id e < nr"
    and "0 \<le> prio_of s t" "prio_of s t < MAX_RT_PRIO"
  shows "case fst (find_lowest_rq e t s) of
      None \<Rightarrow> nr_cpus_allowed (tasks s t) = 1 \<or> targets nr s t = {}
    | Some c \<Rightarrow> nr_cpus_allowed (tasks s t) \<noteq> 1 \<and> best_target nr s t c"
proof -
  obtain Q P where co: "core_ok nr s Q P" and lm': "\<forall>i < nr. local_cpu_mask s i \<noteq> None"
    using reach_core [OF assms(1-3)] by blast
  then have lm: "local_cpu_mask s (smp_processor_id e) \<noteq> None" using assms(5) by simp
  have inv: "rt_inv nr s Q" using core_okD(1) [OF co] by (simp add: rt_ok_def)
  show ?thesis
  proof (cases "nr_cpus_allowed (tasks s t) = 1")
    case True
    then have "fst (find_lowest_rq e t s) = None" by (simp add: find_lowest_rq_def Let_def)
    then show ?thesis using True by simp
  next
    case False
    from find_lowest_rq_spec [OF inv assms(6,7,4) lm False] False show ?thesis by (cases "targets nr s t = {}") auto
  qed
qed

theorem find_lowest_rq_best_witness:
  "case fst (find_lowest_rq demo_env 1 (sched_boot demo_env demo_task)) of
     None \<Rightarrow> nr_cpus_allowed (tasks (sched_boot demo_env demo_task) 1) = 1 \<or> targets 2 (sched_boot demo_env demo_task) 1 = {}
   | Some c \<Rightarrow> nr_cpus_allowed (tasks (sched_boot demo_env demo_task) 1) \<noteq> 1 \<and> best_target 2 (sched_boot demo_env demo_task) 1 c"
  by (rule find_lowest_rq_best [OF demo_tasks demo_nr sched_reach.start demo_nr demo_quiet(1)])
    (simp_all add: boot_tasks_eq demo_task_def MAX_RT_PRIO_def)



section \<open>Bandwidth\<close>

text \<open>The state in which every run queue has the runtime of the bandwidth, in one root domain.\<close>

definition bw_start :: "nat \<Rightarrow> sched \<Rightarrow> bool" where
  "bw_start nr s \<longleftrightarrow> scheduler_running s \<and> (\<forall>c. span (rd_of s c) = {..<nr}) \<and>
     (\<forall>c < nr. rt_runtime (rt_of s c) = rt_b_runtime s \<and> rt_time (rt_of s c) = 0) \<and>
     0 \<le> rt_b_runtime s \<and> rt_b_runtime s * int nr < 2 ^ 63 \<and> rt_b_runtime s \<le> rt_b_period s \<and> rt_b_period s < 2 ^ 63"

lemma bw_start_state: "bw_start nr s \<Longrightarrow> bw_state nr s \<and> times_ok nr s"
proof -
  assume b: "bw_start nr s"
  have nI: "rt_b_runtime s \<noteq> RUNTIME_INF" using b by (simp add: bw_start_def RUNTIME_INF_def)
  have "enabled nr s = {..<nr}" using b nI by (auto simp: enabled_def bw_start_def)
  then have "total_runtime nr s = rt_b_runtime s * int (card (enabled nr s))" "\<forall>i \<in> enabled nr s. 0 \<le> runtime_of s i"
    "total_runtime nr s < 2 ^ 63"
    using b by (auto simp: total_runtime_def bw_start_def algebra_simps)
  then show ?thesis using b by (auto simp: bw_state_def bw_inv_def bw_bounds_def one_domain_def times_ok_def bw_start_def)
qed

text \<open>
  C23. In one root domain, the runtime that CPUs lend each other is not lost: after any sequence of
  period timers, charges, disabling of run queues, and enabling of run queues that are disabled or have
  exactly their own runtime, the runtimes of the enabled queues sum to the bandwidth times their number,
  and taking back the runtime of a queue does not hit the \<open>BUG_ON(want)\<close> of \<open>__disable_runtime\<close>. The
  condition on enabling is needed: \<open>__enable_runtime\<close> on an enabled queue changes the sum by what the
  queue has lent or borrowed.
\<close>

theorem bw_conserved:
  assumes "bw_start nr s0" "bw_reach nr s0 r"
  shows "\<exists>s. r = Inr s \<and> total_runtime nr s = rt_b_runtime s * int (card (enabled nr s)) \<and>
    (\<forall>c \<in> enabled nr s. total_runtime nr (enable_runtime c s) = total_runtime nr s + (rt_b_runtime s - runtime_of s c))"
proof -
  obtain s where s: "r = Inr s" "bw_inv nr s" "scheduler_running s"
    using bw_reach_state [OF assms(2)] bw_start_state [OF assms(1)] by (auto simp: bw_state_def)
  then show ?thesis using enable_enabled_total [OF s(2) _ s(3)] by (auto simp: bw_inv_def)
qed

definition demo_bw :: sched where
  "demo_bw = (sched_zero 2 demo_task)\<lparr>rqs := (\<lambda>c. (zero_rq c)\<lparr>rt := zero_rt\<lparr>rt_runtime := 950000000\<rparr>\<rparr>)\<rparr>"

lemma demo_bw_start: "bw_start 2 demo_bw"
  by (simp add: bw_start_def demo_bw_def sched_zero_def zero_rq_def zero_rt_def)

theorem bw_conserved_witness:
  "\<exists>s. disable_runtime demo_env 0 demo_bw = Inr s"
proof -
  let ?r = "disable_runtime demo_env 0 demo_bw"
  have t: "times_ok 2 demo_bw" using bw_start_state [OF demo_bw_start] by simp
  have st: "bw_step 2 demo_bw ?r" by (rule bw_step.disable [OF demo_nr]) simp
  have "times_ok 2 s'" if "?r = Inr s'" for s'
    using that t by (auto simp: disable_runtime_def raw_disable_runtime_def demo_bw_def sched_zero_def zero_rq_def zero_rt_def times_ok_def
        upd_rt_def upd_rq_def split: if_splits)
  then have "bw_reach 2 demo_bw ?r" by (rule bw_reach.step [OF bw_reach.start t st])
  from bw_conserved [OF demo_bw_start this] show ?thesis by blast
qed

text \<open>
  C24. Borrowing runtime is bounded. With all CPUs in one root domain and the runtimes summing to the
  bandwidth, a queue that has used up its runtime and has at most the period takes runtime from the
  other queues; it then has at least what it had and at most the period, no queue goes below zero, and
  the sum over the domain is what it was. A queue that has runtime left changes nothing.
\<close>

theorem balance_runtime_bounded:
  assumes "bw_state nr s" "times_ok nr s" "c < nr" "nr_cpu_ids e = nr" "runtime_of s c \<le> rt_b_period s"
  shows "runtime_of s c \<le> runtime_of (snd (balance_runtime e c s)) c \<and>
    runtime_of (snd (balance_runtime e c s)) c \<le> rt_b_period s \<and>
    (\<forall>i < nr. 0 \<le> runtime_of (snd (balance_runtime e c s)) i) \<and>
    total_runtime nr (snd (balance_runtime e c s)) = total_runtime nr s \<and>
    (time_of s c \<le> runtime_of s c \<longrightarrow> snd (balance_runtime e c s) = s)"
proof -
  let ?s = "snd (balance_runtime e c s)"
  have inv: "bw_inv nr s" and d: "one_domain nr s" using assms(1) by (simp_all add: bw_state_def)
  note sp = balance_runtime_spec [OF inv assms(2,3) d assms(4)]
  have "0 \<le> runtime_of ?s i" if "i < nr" for i
  proof (cases "i \<in> enabled nr ?s")
    case True
    then show ?thesis using sp(1) bw_bounds_each by (auto simp: bw_inv_def)
  next
    case False
    then show ?thesis using that by (simp add: enabled_def RUNTIME_INF_def)
  qed
  then show ?thesis using sp(2) sp(4) [OF assms(5)] by (simp add: balance_runtime_def)
qed

lemma balance_loop_cap:
  assumes "i \<noteq> c" "runtime_of s i \<noteq> RUNTIME_INF" "s64 (runtime_of s i - time_of s i) > 0"
    "u64 (runtime_of s c + s64 (u64 (s64 (runtime_of s i - time_of s i)) div w)) > p"
    "g = s64 (p - runtime_of s c)" "u64 (runtime_of s c + g) = p"
  shows "balance_loop c w p (i # is) got s =
    (True, upd_rt c (\<lambda>r. r\<lparr>rt_runtime := p\<rparr>) (upd_rt i (\<lambda>r. r\<lparr>rt_runtime := u64 (runtime_of s i - g)\<rparr>) s))"
  using assms by (simp add: Let_def upd_rt_def upd_rq_def)

text \<open>CPU 0 has run for 960 ms of its 950 ms; CPU 1 lends it 50 ms, which is all it may take.\<close>

definition demo_short :: sched where
  "demo_short = upd_rt 0 (\<lambda>r. r\<lparr>rt_time := 960000000\<rparr>) demo_bw"

lemma demo_short_fields:
  "runtime_of demo_short c = 950000000" "time_of demo_short 0 = 960000000" "time_of demo_short 1 = 0"
  "rt_b_period demo_short = 1000000000" "rt_b_runtime demo_short = 950000000" "span (rd_of demo_short c) = {..<2}"
  "scheduler_running demo_short"
  by (simp_all add: demo_short_def demo_bw_def sched_zero_def zero_rq_def zero_rt_def upd_rt_def upd_rq_def)

lemma demo_short_state: "bw_state 2 demo_short" "times_ok 2 demo_short"
proof -
  have "bw_state 2 demo_bw" using bw_start_state [OF demo_bw_start] by simp
  then show "bw_state 2 demo_short" unfolding demo_short_def by (rule bw_state_upd_rt) simp
  show "times_ok 2 demo_short" 
    using demo_short_fields(2,3) by (auto simp: times_ok_def less_2_cases_iff)
qed

lemma demo_short_balance:
  "runtime_of (snd (balance_runtime demo_env 0 demo_short)) 0 = 1000000000"
  "runtime_of (snd (balance_runtime demo_env 0 demo_short)) 1 = 900000000"
proof -
  have w: "cpumask_weight demo_env {..<2} = 2" by (simp add: cpumask_weight_def demo_env_def)
  have l: "[i \<leftarrow> [0..<nr_cpu_ids demo_env] . i \<in> {..<2}] = [0, 1]" by (simp add: demo_env_def upt_rec)
  have "balance_loop 0 2 1000000000 [1] False demo_short =
      (True, upd_rt 0 (\<lambda>r. r\<lparr>rt_runtime := 1000000000\<rparr>)
         (upd_rt 1 (\<lambda>r. r\<lparr>rt_runtime := u64 (runtime_of demo_short 1 - 50000000)\<rparr>) demo_short))"
    by (rule balance_loop_cap) (simp_all only: demo_short_fields, simp_all add: RUNTIME_INF_def s64_def u64_def)
  then have "balance_runtime demo_env 0 demo_short = (True, upd_rt 0 (\<lambda>r. r\<lparr>rt_runtime := 1000000000\<rparr>)
         (upd_rt 1 (\<lambda>r. r\<lparr>rt_runtime := 900000000\<rparr>) demo_short))"
    unfolding balance_runtime_def do_balance_runtime_def Let_def demo_short_fields l w
    by (simp add: demo_short_fields u64_def)
  then show "runtime_of (snd (balance_runtime demo_env 0 demo_short)) 0 = 1000000000"
    "runtime_of (snd (balance_runtime demo_env 0 demo_short)) 1 = 900000000" by simp_all
qed

theorem balance_runtime_bounded_witness:
  "time_of demo_short 0 > runtime_of demo_short 0 \<and> runtime_of (snd (balance_runtime demo_env 0 demo_short)) 0 = 1000000000 \<and>
   runtime_of (snd (balance_runtime demo_env 0 demo_short)) 1 = 900000000 \<and>
   total_runtime 2 (snd (balance_runtime demo_env 0 demo_short)) = total_runtime 2 demo_short"
proof -
  have r: "runtime_of demo_short 0 \<le> rt_b_period demo_short" by (simp add: demo_short_fields)
  show ?thesis using balance_runtime_bounded [OF demo_short_state _ demo_nr r] demo_short_balance by (simp add: demo_short_fields)
qed

text \<open>
  Three CPUs in two root domains, CPUs 0 and 1 in one and CPU 2 in the other. CPU 2 runs a real-time
  task that has been on the CPU for one and a half periods.
\<close>

definition split_env :: "nat \<Rightarrow> sched_env" where
  "split_env i = demo_env\<lparr>nr_cpu_ids := 3, smp_processor_id := i\<rparr>"

definition split_rq :: "nat \<Rightarrow> rq" where
  "split_rq c = (zero_rq c)\<lparr>rt := zero_rt\<lparr>rt_runtime := 950000000\<rparr>, rd := (if c = 2 then 1 else 0), clock_task := 1500000000,
     curr := 2 * c + 1\<rparr>"

definition split_bw :: sched where
  "split_bw = (sched_zero 3 (\<lambda>t. (demo_task t)\<lparr>task_cpu := t div 2\<rparr>))\<lparr>rqs := split_rq, cpu_online_mask := {0, 1, 2},
     rds := (\<lambda>d. \<lparr>span = (if d = 1 then {2} else {0, 1}), rd_online = {}, rto_mask = {}, rto_count = 0, rd_cpupri = cpupri_init\<rparr>)\<rparr>"

definition split_charged :: sched where
  "split_charged = update_curr_rt (split_env 2) 2 split_bw"

definition split_lent :: sched where
  "split_lent = snd (do_sched_rt_period_timer (split_env 0) 1 split_charged)"

lemma split_charge:
  "rt_of split_charged 2 = zero_rt\<lparr>rt_runtime := 950000000, rt_time := 1500000000, rt_throttled := True\<rparr>"
  "c \<noteq> 2 \<Longrightarrow> rt_of split_charged c = zero_rt\<lparr>rt_runtime := 950000000\<rparr>"
  "rd_of split_charged c = rd_of split_bw c" "rt_b_period split_charged = 1000000000" "rt_b_runtime split_charged = 950000000"
  "scheduler_running split_charged" "cpu_online_mask split_charged = {0, 1, 2}" "rt_bandwidth_enabled split_charged"
  unfolding split_charged_def
  by (simp_all add: update_curr_rt_def Let_def split_bw_def sched_zero_def split_rq_def zero_rq_def zero_rt_def demo_task_def
      sched_rt_runtime_exceeded_def sched_rt_runtime_def sched_rt_period_def balance_runtime_def do_balance_runtime_def
      split_env_def demo_env_def upd_rt_def upd_rq_def upd_task_def u64_def s64_def rt_bandwidth_enabled_def RUNTIME_INF_def
      rt_rq_throttled_def resched_task_def test_tsk_need_resched_def set_tsk_need_resched_def upt_rec numeral_3_eq_3)

lemma split_cpus: "nr_cpu_ids (split_env i) = 3" "[0..<3] = [0, 1, 2]"
  by (simp_all add: split_env_def upt_rec)

lemma split_domain:
  "span (rd_of split_bw 2) = {2}" "span (rd_of split_bw 0) = {0, 1}" "smp_processor_id (split_env i) = i"
  by (simp_all add: split_bw_def split_rq_def split_env_def)

lemma timer_step_quiet:
  "rt_time (rt_of s i) = 0 \<Longrightarrow> rt_nr_running (rt_of s i) = 0 \<Longrightarrow> period_timer_step e k i idl s = (idl, s)"
  by (simp add: period_timer_step_def)

lemma timer_step_unthrottle:
  assumes "rt_time (rt_of s i) \<noteq> 0" "rt_throttled (rt_of s i)" "b = snd (balance_runtime e i s)" "rt_throttled (rt_of b i)"
    "t = rt_time (rt_of b i) - min (rt_time (rt_of b i)) (u64 (k * rt_runtime (rt_of b i)))" "t < rt_runtime (rt_of b i)"
    "rt_nr_running (rt_of b i) = 0"
  shows "snd (period_timer_step e k i idl s) = upd_rt i (\<lambda>r. r\<lparr>rt_time := t, rt_throttled := False\<rparr>) b"
  using assms by (simp add: period_timer_step_def Let_def upd_rt_def upd_rq_def sched_rt_rq_enqueue_def)

lemma split_balance:
  "balance_runtime (split_env 0) 2 split_charged =
     (True, upd_rt 2 (\<lambda>r. r\<lparr>rt_runtime := 1000000000\<rparr>) (upd_rt 0 (\<lambda>r. r\<lparr>rt_runtime := 900000000\<rparr>) split_charged))"
proof -
  have r: "runtime_of split_charged 0 = 950000000" "time_of split_charged 0 = 0"
    "runtime_of split_charged 2 = 950000000" "time_of split_charged 2 = 1500000000"
    unfolding split_charge(1) split_charge(2) [OF zero_neq_numeral] by (simp_all add: zero_rt_def)
  have w: "cpumask_weight (split_env 0) {0, 1} = 2"
    by (simp add: cpumask_weight_def split_cpus)
  have l: "[i \<leftarrow> [0..<nr_cpu_ids (split_env 0)] . i \<in> {0, 1 :: nat}] = [0, 1]" by (simp add: split_cpus)
  have "balance_loop 2 2 1000000000 [0, 1] False split_charged =
     (True, upd_rt 2 (\<lambda>r. r\<lparr>rt_runtime := 1000000000\<rparr>)
        (upd_rt 0 (\<lambda>r. r\<lparr>rt_runtime := u64 (runtime_of split_charged 0 - 50000000)\<rparr>) split_charged))"
    by (rule balance_loop_cap) (simp_all only: r, simp_all add: RUNTIME_INF_def s64_def u64_def)
  also have "u64 (runtime_of split_charged 0 - 50000000) = 900000000" unfolding r by (simp add: u64_def)
  finally show ?thesis
    unfolding balance_runtime_def do_balance_runtime_def Let_def split_charge(3, 4) split_domain l w r by simp
qed

lemma split_timer:
  "rt_of split_lent 0 = zero_rt\<lparr>rt_runtime := 900000000\<rparr>"
  "rt_of split_lent 2 = zero_rt\<lparr>rt_runtime := 1000000000, rt_time := 500000000, rt_throttled := False\<rparr>"
  "rd_of split_lent c = rd_of split_bw c" "rt_b_runtime split_lent = 950000000" "scheduler_running split_lent"
proof -
  let ?b = "snd (balance_runtime (split_env 0) 2 split_charged)"
  have z: "rt_time (rt_of split_charged i) = 0" "rt_nr_running (rt_of split_charged i) = 0" if "i \<noteq> 2" for i
    using split_charge(2) [OF that] by (simp_all add: zero_rt_def)
  have l: "split_lent = snd (period_timer_step (split_env 0) 1 2 True split_charged)"
    using timer_step_quiet [OF z, of 0] timer_step_quiet [OF z, of 1]
    by (simp add: split_lent_def do_sched_rt_period_timer_def split_charge split_cpus RUNTIME_INF_def)
  have b: "rt_of ?b 0 = zero_rt\<lparr>rt_runtime := 900000000\<rparr>"
    "rt_of ?b 2 = zero_rt\<lparr>rt_runtime := 1000000000, rt_time := 1500000000, rt_throttled := True\<rparr>"
    "rd_of ?b c = rd_of split_bw c" "rt_b_runtime ?b = 950000000" "scheduler_running ?b"
    by (simp_all add: split_balance upd_rt_def upd_rq_def split_charge zero_rt_def)
  have e: "split_lent = upd_rt 2 (\<lambda>r. r\<lparr>rt_time := 500000000, rt_throttled := False\<rparr>) ?b"
    unfolding l by (rule timer_step_unthrottle) (simp_all only: b split_charge(1), simp_all add: zero_rt_def u64_def)
  show "rt_of split_lent 0 = zero_rt\<lparr>rt_runtime := 900000000\<rparr>"
    "rt_of split_lent 2 = zero_rt\<lparr>rt_runtime := 1000000000, rt_time := 500000000, rt_throttled := False\<rparr>"
    "rd_of split_lent c = rd_of split_bw c" "rt_b_runtime split_lent = 950000000" "scheduler_running split_lent"
    unfolding e using b by (cases "c = 2"; simp add: upd_rt_def upd_rq_def)+
qed

text \<open>
  C25. The conservation of runtime is lost between root domains. \<open>do_balance_runtime\<close> looks for lenders in
  the domain of the CPU that executes it, and the period timer executes it on behalf of every CPU. Here
  the timer runs on CPU 0 and lends CPU 2 runtime of CPU 0, which is in another domain. When CPU 2 then
  goes offline, \<open>__disable_runtime\<close> cannot give the runtime back within its own domain and stops at
  \<open>BUG_ON(want)\<close>. Without the timer CPU 2 goes offline as it should.
\<close>

theorem balance_crosses_domains:
  "runtime_of split_charged 0 = 950000000 \<and> runtime_of split_charged 2 = 950000000 \<and>
   0 \<notin> span (rd_of split_charged 2) \<and>
   runtime_of split_lent 0 < 950000000 \<and> runtime_of split_lent 2 = 1000000000 \<and>
   (\<exists>s. disable_runtime (split_env 2) 2 split_charged = Inr s) \<and>
   disable_runtime (split_env 2) 2 split_lent = Inl Bug"
proof -
  have l: "[i \<leftarrow> [0..<nr_cpu_ids (split_env 2)] . i \<in> span (rd_of split_lent 2)] = [2]"
    by (simp only: split_timer(3) split_domain split_cpus) simp
  have "disable_runtime (split_env 2) 2 split_lent = Inl Bug"
    unfolding disable_runtime_def raw_disable_runtime_def l split_timer(2, 4)
    by (simp add: split_timer(5) RUNTIME_INF_def s64_def zero_rt_def)
  moreover have "\<exists>s. disable_runtime (split_env 2) 2 split_charged = Inr s"
    unfolding disable_runtime_def raw_disable_runtime_def split_charge(1, 5) by simp
  moreover have "0 \<notin> span (rd_of split_charged 2)" unfolding split_charge(3) split_domain by simp
  ultimately show ?thesis unfolding split_timer(1, 2) split_charge(1) split_charge(2) [OF zero_neq_numeral] by simp
qed

end
