(* ===== verification/Sstf.thy ===== *)
theory Sstf
  imports Klist
begin

text \<open>
  The SSTF I/O scheduler (\<open>project2/sstf-iosched.c\<close>) with \<open>elv_dispatch_sort\<close> of \<open>block/elevator.c\<close>.
  The queue of the scheduler, the dispatch queue of the block layer and the \<open>queuelist\<close> of every request
  are nodes of one heap of kernel lists. \<open>list_entry\<close> on a list head yields the memory around the head;
  the model keeps what that memory holds in \<open>reqs\<close>, so nothing is assumed of it. \<open>sstf_add_request\<close>
  uses an identifier \<open>position\<close> that the file does not declare; it is a parameter, a function of the
  loop cursor \<open>head\<close>. As in the repository's configuration \<open>unsigned long\<close> has 32 bits, while a sector
  number has 64 (\<open>CONFIG_LBDAF\<close>), so the distances are taken between truncated sectors.
\<close>

section \<open>State\<close>

datatype snode = Queue | Queue_head | Req nat

record request =
  rq_sector :: int
  cmd_discard :: bool
  cmd_dir :: bool
  cmd_stop :: bool
  on_hash :: bool

record sstf =
  sheap :: "snode lheap"
  reqs :: "snode lptr \<Rightarrow> request"
  enqueue :: "snode lptr option"
  queue_count :: int
  last_merge :: "snode lptr option"
  nr_sorted :: int
  end_sector :: int

definition blk_rq_pos :: "sstf \<Rightarrow> snode lptr \<Rightarrow> int" where
  "blk_rq_pos s rq = rq_sector (reqs s rq)"

definition abs_long :: "int \<Rightarrow> int" where
  "abs_long x = (let y = s32 x in if y < 0 then s32 (- y) else y)"

section \<open>The dispatch queue\<close>

definition elv_rqhash_del :: "sstf \<Rightarrow> snode lptr \<Rightarrow> sstf" where
  "elv_rqhash_del s rq = (if on_hash (reqs s rq) then s\<lparr>reqs := (reqs s)(rq := (reqs s rq)\<lparr>on_hash := False\<rparr>)\<rparr> else s)"

partial_function (option) dispatch_sort_loop :: "sstf \<Rightarrow> snode lptr \<Rightarrow> snode lptr \<Rightarrow> snode lptr option" where
  [code]: "dispatch_sort_loop s rq entry =
     (if entry = Node Queue_head then Some entry
      else if cmd_discard (reqs s rq) \<noteq> cmd_discard (reqs s entry) then Some entry
      else if cmd_dir (reqs s rq) \<noteq> cmd_dir (reqs s entry) then Some entry
      else if cmd_stop (reqs s entry) then Some entry
      else if blk_rq_pos s rq \<ge> end_sector s \<and> blk_rq_pos s entry < end_sector s
      then dispatch_sort_loop s rq (prv (sheap s) entry)
      else if \<not> blk_rq_pos s rq \<ge> end_sector s \<and> blk_rq_pos s entry \<ge> end_sector s then Some entry
      else if blk_rq_pos s rq \<ge> blk_rq_pos s entry then Some entry
      else dispatch_sort_loop s rq (prv (sheap s) entry))"

definition elv_dispatch_sort :: "sstf \<Rightarrow> snode lptr \<Rightarrow> sstf run" where
  "elv_dispatch_sort s rq =
     (let s = (if last_merge s = Some rq then s\<lparr>last_merge := None\<rparr> else s);
          s = elv_rqhash_del s rq;
          s = s\<lparr>nr_sorted := u32 (nr_sorted s - 1)\<rparr>
      in run_bind (run_of_loop (dispatch_sort_loop s rq (prv (sheap s) (Node Queue_head))))
           (\<lambda>entry. Inr (s\<lparr>sheap := list_add (sheap s) rq entry\<rparr>)))"

section \<open>The scheduler\<close>

definition sstf_dispatch :: "sstf \<Rightarrow> (int \<times> sstf) run" where
  "sstf_dispatch s =
     (if \<not> list_empty (sheap s) (Node Queue)
      then case enqueue s of None \<Rightarrow> Inr (0, s)
        | Some rq \<Rightarrow>
            let s = (if queue_count s = 1
                     then s\<lparr>sheap := list_del_init (sheap s) rq, queue_count := queue_count s - 1\<rparr>
                     else let curr = u32 (blk_rq_pos s rq);
                              prev = u32 (blk_rq_pos s (prv (sheap s) rq));
                              next = u32 (blk_rq_pos s (nxt (sheap s) rq));
                              diff_prev = u32 (abs_long (u32 (curr - prev)));
                              diff_next = u32 (abs_long (u32 (curr - next)));
                              s = s\<lparr>enqueue := Some (if diff_prev < diff_next then prv (sheap s) rq else nxt (sheap s) rq)\<rparr>
                          in s\<lparr>sheap := list_del_init (sheap s) rq, queue_count := queue_count s - 1\<rparr>)
            in run_bind (elv_dispatch_sort s rq) (\<lambda>s. Inr (1, s))
      else Inr (0, s))"

partial_function (option) sstf_add_loop ::
  "(snode lptr \<Rightarrow> snode lptr) \<Rightarrow> sstf \<Rightarrow> snode lptr \<Rightarrow> snode lptr \<Rightarrow> (bool \<times> sstf) option" where
  [code]: "sstf_add_loop position s rq head =
     (if head = Node Queue then Some (False, s)
      else if queue_count s = 1
      then Some (True, s\<lparr>sheap := list_add (sheap s) rq head, queue_count := queue_count s + 1\<rparr>)
      else if blk_rq_pos s (nxt (sheap s) head) \<ge> blk_rq_pos s rq \<and> blk_rq_pos s head \<le> blk_rq_pos s rq
      then Some (True, s\<lparr>sheap := list_add (sheap s) rq (position head), queue_count := queue_count s + 1\<rparr>)
      else sstf_add_loop position s rq (nxt (sheap s) head))"

definition sstf_add_request :: "(snode lptr \<Rightarrow> snode lptr) \<Rightarrow> sstf \<Rightarrow> snode lptr \<Rightarrow> sstf run" where
  "sstf_add_request position s rq =
     (if list_empty (sheap s) (Node Queue)
      then let s = s\<lparr>sheap := list_add (sheap s) rq (Node Queue)\<rparr>;
               s = s\<lparr>enqueue := Some (nxt (sheap s) (Node Queue))\<rparr>
           in Inr (s\<lparr>queue_count := queue_count s + 1\<rparr>)
      else run_bind (run_of_loop (sstf_add_loop position s rq (nxt (sheap s) (Node Queue))))
        (\<lambda>(added, s). if \<not> added
           then Inr (s\<lparr>sheap := list_add_tail (sheap s) rq (Node Queue), queue_count := queue_count s + 1\<rparr>)
           else Inr s))"

definition sstf_init_queue :: "bool \<Rightarrow> sstf \<Rightarrow> sstf option" where
  "sstf_init_queue kmalloc_ok s =
     (if \<not> kmalloc_ok then None
      else Some (s\<lparr>sheap := INIT_LIST_HEAD (sheap s) (Node Queue), queue_count := 0\<rparr>))"

definition sstf_exit_queue :: "sstf \<Rightarrow> sstf run" where
  "sstf_exit_queue s = (if \<not> list_empty (sheap s) (Node Queue) then Inl Bug else Inr s)"

section \<open>The queues as lists\<close>

definition qA :: "snode lptr list \<Rightarrow> snode lptr list \<Rightarrow> snode lists" where
  "qA q d = [Node Queue \<mapsto> q, Node Queue_head \<mapsto> d]"

lemma qA_simps [simp]: "qA q d (Node Queue) = Some q" "qA q d (Node Queue_head) = Some d" "qA q d (Node (Req i)) = None"
  "(qA q d)(Node Queue \<mapsto> q') = qA q' d" "(qA q d)(Node Queue_head \<mapsto> d') = qA q d'"
  by (auto simp: qA_def fun_eq_iff)

definition is_req :: "snode lptr \<Rightarrow> bool" where
  "is_req p \<longleftrightarrow> (\<exists>i. p = Node (Req i))"

definition sstf_ok :: "sstf \<Rightarrow> snode lptr list \<Rightarrow> snode lptr list \<Rightarrow> bool" where
  "sstf_ok s q d \<longleftrightarrow> fam (sheap s) (qA q d) \<and> (\<forall>p \<in> set q \<union> set d. is_req p) \<and> queue_count s = int (length q) \<and>
     (q \<noteq> [] \<longrightarrow> enqueue s = Some (hd q))"

definition near :: "sstf \<Rightarrow> snode lptr \<Rightarrow> snode lptr \<Rightarrow> snode lptr \<Rightarrow> bool" where
  "near s c p n \<longleftrightarrow> u32 (abs_long (u32 (u32 (blk_rq_pos s c) - u32 (blk_rq_pos s p)))) <
     u32 (abs_long (u32 (u32 (blk_rq_pos s c) - u32 (blk_rq_pos s n))))"

definition merges :: "sstf \<Rightarrow> snode lptr \<Rightarrow> snode lptr \<Rightarrow> bool" where
  "merges s rq p \<longleftrightarrow> cmd_discard (reqs s rq) = cmd_discard (reqs s p) \<and> cmd_dir (reqs s rq) = cmd_dir (reqs s p) \<and> \<not> cmd_stop (reqs s p)"

text \<open>The order of one sweep of the disk head that starts at \<open>end_sector\<close>.\<close>

definition later :: "sstf \<Rightarrow> snode lptr \<Rightarrow> snode lptr \<Rightarrow> bool" where
  "later s rq p \<longleftrightarrow>
     (if blk_rq_pos s rq \<ge> end_sector s
      then blk_rq_pos s p < end_sector s \<or> blk_rq_pos s rq < blk_rq_pos s p
      else blk_rq_pos s p < end_sector s \<and> blk_rq_pos s rq < blk_rq_pos s p)"

lemma dispatch_sort_loop_spec:
  assumes "is_list (sheap s) (Node Queue_head) (us @ vs)"
  shows "\<exists>ws zs. us = ws @ zs \<and> dispatch_sort_loop s rq (last (Node Queue_head # us)) = Some (last (Node Queue_head # ws)) \<and>
    (\<forall>p \<in> set zs. merges s rq p \<and> later s rq p) \<and> (ws \<noteq> [] \<longrightarrow> \<not> (merges s rq (last ws) \<and> later s rq (last ws)))"
  using assms
proof (induction us arbitrary: vs rule: rev_induct)
  case Nil
  then show ?case by (simp add: dispatch_sort_loop.simps)
next
  case (snoc u us)
  have u: "u \<noteq> Node Queue_head" using is_list_distinct [OF snoc.prems] by auto
  have p: "prv (sheap s) u = last (Node Queue_head # us)" using is_list_prev [of "sheap s" _ us u vs] snoc.prems by simp
  show ?case
  proof (cases "merges s rq u \<and> later s rq u")
    case True
    have step: "dispatch_sort_loop s rq u = dispatch_sort_loop s rq (last (Node Queue_head # us))"
      using True u by (subst dispatch_sort_loop.simps) (auto simp: p merges_def later_def split: if_splits)
    obtain ws zs where w: "us = ws @ zs" "dispatch_sort_loop s rq (last (Node Queue_head # us)) = Some (last (Node Queue_head # ws))"
      "\<forall>p \<in> set zs. merges s rq p \<and> later s rq p" "ws \<noteq> [] \<longrightarrow> \<not> (merges s rq (last ws) \<and> later s rq (last ws))"
      using snoc.IH [of "u # vs"] snoc.prems unfolding append_assoc append_Cons append_Nil by blast
    show ?thesis
      by (rule exI [of _ ws], rule exI [of _ "zs @ [u]"]) (use w True step in auto)
  next
    case False
    have "dispatch_sort_loop s rq u = Some u"
      using False u by (subst dispatch_sort_loop.simps) (auto simp: merges_def later_def split: if_splits)
    then show ?thesis by (intro exI [of _ "us @ [u]"] exI [of _ "[]"]) (use False in auto)
  qed
qed

lemma fam_add_at:
  assumes "fam h A" "A hp = Some (ws @ zs)" "loose A n" "n \<noteq> hp"
  shows "fam (list_add h n (last (hp # ws))) (A(n := None, hp \<mapsto> ws @ n # zs))"
proof (cases ws rule: rev_cases)
  case Nil
  then show ?thesis using fam_list_add assms by fastforce
next
  case (snoc us u)
  then show ?thesis using fam_list_add_after [of h A hp us u zs n] assms by simp
qed

definition same_reqs :: "sstf \<Rightarrow> sstf \<Rightarrow> bool" where
  "same_reqs s s' \<longleftrightarrow> end_sector s' = end_sector s \<and> (\<forall>p. blk_rq_pos s' p = blk_rq_pos s p \<and> cmd_discard (reqs s' p) = cmd_discard (reqs s p) \<and>
     cmd_dir (reqs s' p) = cmd_dir (reqs s p) \<and> cmd_stop (reqs s' p) = cmd_stop (reqs s p))"

lemma same_reqs_simps:
  assumes "same_reqs s s'"
  shows "merges s' = merges s" "later s' = later s" "near s' = near s" "blk_rq_pos s' = blk_rq_pos s"
  using assms by (auto simp: same_reqs_def merges_def later_def near_def fun_eq_iff)

text \<open>Where a request goes in the dispatch queue: in front of every request it passes on the way from the tail.\<close>

definition sorted_in :: "sstf \<Rightarrow> snode lptr \<Rightarrow> snode lptr list \<Rightarrow> snode lptr list \<Rightarrow> bool" where
  "sorted_in s rq d d' \<longleftrightarrow> (\<exists>ws zs. d = ws @ zs \<and> d' = ws @ rq # zs \<and> (\<forall>p \<in> set zs. merges s rq p \<and> later s rq p) \<and>
     (ws \<noteq> [] \<longrightarrow> \<not> (merges s rq (last ws) \<and> later s rq (last ws))))"

lemma elv_dispatch_sort_spec:
  assumes f: "fam (sheap s) A" and d: "A (Node Queue_head) = Some d" and l: "loose A rq" and r: "rq \<noteq> Node Queue_head"
  obtains s' d' where "elv_dispatch_sort s rq = Inr s'" "sorted_in s rq d d'"
    "fam (sheap s') (A(rq := None, Node Queue_head \<mapsto> d'))" "enqueue s' = enqueue s" "queue_count s' = queue_count s" "same_reqs s s'"
proof -
  define s1 where "s1 = (let s = (if last_merge s = Some rq then s\<lparr>last_merge := None\<rparr> else s); s = elv_rqhash_del s rq
    in s\<lparr>nr_sorted := u32 (nr_sorted s - 1)\<rparr>)"
  have s1: "sheap s1 = sheap s" "enqueue s1 = enqueue s" "queue_count s1 = queue_count s" "same_reqs s s1"
    by (auto simp: s1_def Let_def elv_rqhash_del_def same_reqs_def blk_rq_pos_def)
  have il: "is_list (sheap s1) (Node Queue_head) (d @ [])" using famD [OF f d] s1(1) by simp
  obtain ws zs where w: "d = ws @ zs" "dispatch_sort_loop s1 rq (last (Node Queue_head # d)) = Some (last (Node Queue_head # ws))"
    "\<forall>p \<in> set zs. merges s rq p \<and> later s rq p" "ws \<noteq> [] \<longrightarrow> \<not> (merges s rq (last ws) \<and> later s rq (last ws))"
    using dispatch_sort_loop_spec [OF il, of rq] unfolding same_reqs_simps [OF s1(4)] by blast
  define s' where "s' = s1\<lparr>sheap := list_add (sheap s1) rq (last (Node Queue_head # ws))\<rparr>"
  have "prv (sheap s1) (Node Queue_head) = last (Node Queue_head # d)" using is_list_head_prev [OF il] by simp
  then have e: "elv_dispatch_sort s rq = Inr s'"
    unfolding elv_dispatch_sort_def Let_def s1_def [unfolded Let_def, symmetric] by (simp only: w(2) run_of_loop_simps run_bind_simps s'_def)
  have "sorted_in s rq d (ws @ rq # zs)" using w by (auto simp: sorted_in_def)
  moreover have "fam (sheap s') (A(rq := None, Node Queue_head \<mapsto> ws @ rq # zs))"
    using fam_add_at [OF f d [unfolded w(1)] l r] by (simp add: s'_def s1(1))
  moreover have "same_reqs s s'" using s1(4) by (simp add: s'_def same_reqs_def blk_rq_pos_def)
  ultimately show thesis using that [OF e] s1 by (simp add: s'_def)
qed

lemma qA_del: "is_req a \<Longrightarrow> (qA (a # q) d)(Node Queue \<mapsto> q, a \<mapsto> [], a := None, Node Queue_head \<mapsto> d') = qA q d'"
  by (auto simp: is_req_def qA_def fun_eq_iff)

lemma same_reqs_upd: "same_reqs (s\<lparr>enqueue := e, sheap := h, queue_count := k\<rparr>) s' = same_reqs s s'"
  "sorted_in (s\<lparr>enqueue := e, sheap := h, queue_count := k\<rparr>) = sorted_in s"
  by (auto simp: same_reqs_def sorted_in_def merges_def later_def blk_rq_pos_def fun_eq_iff)

lemma sstf_dispatch_core:
  assumes ok: "sstf_ok s (a # q) d"
  obtains s' d' where "sstf_dispatch s = Inr (1, s')" "fam (sheap s') (qA q d')" "\<forall>p \<in> set q \<union> set d'. is_req p"
    "queue_count s' = int (length q)" "sorted_in s a d d'" "same_reqs s s'"
    "enqueue s' = Some (if q = [] then a else if near s a (Node Queue) (hd q) then Node Queue else hd q)"
proof -
  have f: "fam (sheap s) (qA (a # q) d)" and a: "is_req a" and c: "queue_count s = 1 + int (length q)" and e: "enqueue s = Some a"
    and r: "\<forall>p \<in> set q \<union> set d. is_req p"
    using ok by (auto simp: sstf_ok_def)
  have il: "is_list (sheap s) (Node Queue) ([] @ a # q)" using famD [OF f] by simp
  have pn: "prv (sheap s) a = Node Queue" "nxt (sheap s) a = hd (q @ [Node Queue])"
    using is_list_prev [OF il] is_list_next [OF il] by simp_all
  have ne: "\<not> list_empty (sheap s) (Node Queue)" using fam_empty [OF f] by simp
  define s1 where "s1 = s\<lparr>enqueue := Some (if q = [] then a else if near s a (Node Queue) (hd q) then Node Queue else hd q),
    sheap := list_del_init (sheap s) a, queue_count := int (length q)\<rparr>"
  let ?A = "(qA (a # q) d)(Node Queue \<mapsto> q, a \<mapsto> [])"
  have f1: "fam (sheap s1) ?A" using fam_list_del_init [OF f, of "Node Queue" "[]" a q] by (simp add: s1_def)
  have A: "?A (Node Queue_head) = Some d" "loose ?A a" "a \<noteq> Node Queue_head"
    using a looseI_single [OF f1, of a] by (auto simp: is_req_def)
  obtain s' d' where s': "elv_dispatch_sort s1 a = Inr s'" "sorted_in s1 a d d'" "fam (sheap s') (?A(a := None, Node Queue_head \<mapsto> d'))"
    "enqueue s' = enqueue s1" "queue_count s' = queue_count s1" "same_reqs s1 s'"
    using elv_dispatch_sort_spec [OF f1 A] by blast
  have "sstf_dispatch s = run_bind (elv_dispatch_sort s1 a) (\<lambda>s. Inr (1, s))"
  proof (cases q)
    case Nil
    then have "s1 = s\<lparr>sheap := list_del_init (sheap s) a, queue_count := 0\<rparr>" using e by (cases s) (simp add: s1_def)
    then show ?thesis using ne e c Nil by (simp add: sstf_dispatch_def)
  next
    case (Cons b r)
    then show ?thesis using ne e c pn by (simp add: sstf_dispatch_def s1_def Let_def near_def)
  qed
  then have "sstf_dispatch s = Inr (1, s')" using s'(1) by simp
  moreover have "set d' = insert a (set d)" using s'(2) by (auto simp: sorted_in_def)
  ultimately show thesis using that [of s' d'] s' a r unfolding qA_del [OF a] by (simp add: s1_def same_reqs_upd)
qed

lemma sstf_dispatch_spec:
  assumes "sstf_ok s (a # q) d" "q \<noteq> [] \<Longrightarrow> \<not> near s a (Node Queue) (hd q)"
  obtains s' d' where "sstf_dispatch s = Inr (1, s')" "sstf_ok s' q d'" "sorted_in s a d d'" "same_reqs s s'"
proof -
  obtain s' d' where s': "sstf_dispatch s = Inr (1, s')" "fam (sheap s') (qA q d')" "\<forall>p \<in> set q \<union> set d'. is_req p"
    "queue_count s' = int (length q)" "sorted_in s a d d'" "same_reqs s s'"
    "enqueue s' = Some (if q = [] then a else if near s a (Node Queue) (hd q) then Node Queue else hd q)"
    by (rule sstf_dispatch_core [OF assms(1)])
  have "sstf_ok s' q d'" using s' assms(2) by (simp add: sstf_ok_def)
  then show thesis using that s' by blast
qed

section \<open>Where a new request goes\<close>

fun sstf_place :: "(snode lptr \<Rightarrow> int) \<Rightarrow> snode lptr \<Rightarrow> snode lptr list \<Rightarrow> snode lptr list" where
  "sstf_place f n [] = [n]"
| "sstf_place f n [a] = [a, n]"
| "sstf_place f n (a # b # q) = (if f a \<le> f n \<and> f n \<le> f b then a # n # b # q else a # sstf_place f n (b # q))"

lemma sstf_place_set [simp]: "set (sstf_place f n q) = insert n (set q)" "length (sstf_place f n q) = Suc (length q)"
  "q \<noteq> [] \<Longrightarrow> hd (sstf_place f n q) = hd q" "sstf_place f n q \<noteq> []"
  by (induction f n q rule: sstf_place.induct) auto

lemma sstf_add_loop_spec:
  assumes "is_list (sheap s) (Node Queue) (us @ v # vs)" "queue_count s \<noteq> 1" and position: "\<And>p. position p = p"
  shows "\<exists>ws zs. vs = ws @ zs \<and> sstf_place (blk_rq_pos s) rq (v # vs) = v # ws @ rq # zs \<and>
    (sstf_add_loop position s rq v = Some (True, s\<lparr>sheap := list_add (sheap s) rq (last (v # ws)), queue_count := queue_count s + 1\<rparr>) \<or>
     zs = [] \<and> sstf_add_loop position s rq v = Some (False, s))"
  using assms(1)
proof (induction vs arbitrary: us v)
  case Nil
  have v: "v \<noteq> Node Queue" using is_list_distinct [OF Nil] by auto
  have "nxt (sheap s) v = Node Queue" using is_list_next [OF Nil] by simp
  then have "sstf_add_loop position s rq v = (if blk_rq_pos s (Node Queue) \<ge> blk_rq_pos s rq \<and> blk_rq_pos s v \<le> blk_rq_pos s rq
    then Some (True, s\<lparr>sheap := list_add (sheap s) rq v, queue_count := queue_count s + 1\<rparr>) else Some (False, s))"
    using v assms(2) by (subst sstf_add_loop.simps, subst sstf_add_loop.simps) (auto simp: position)
  then show ?case by simp
next
  case (Cons b vs)
  have v: "v \<noteq> Node Queue" using is_list_distinct [OF Cons.prems] by auto
  have n: "nxt (sheap s) v = b" using is_list_next [OF Cons.prems] by simp
  show ?case
  proof (cases "blk_rq_pos s v \<le> blk_rq_pos s rq \<and> blk_rq_pos s rq \<le> blk_rq_pos s b")
    case True
    have "sstf_add_loop position s rq v = Some (True, s\<lparr>sheap := list_add (sheap s) rq v, queue_count := queue_count s + 1\<rparr>)"
      using True v assms(2) n by (subst sstf_add_loop.simps) (auto simp: position)
    then show ?thesis using True by (intro exI [of _ "[]"] exI [of _ "b # vs"]) simp
  next
    case False
    have st: "sstf_add_loop position s rq v = sstf_add_loop position s rq b"
      using False v n assms(2) by (subst sstf_add_loop.simps) auto
    obtain ws zs where "vs = ws @ zs" "sstf_place (blk_rq_pos s) rq (b # vs) = b # ws @ rq # zs"
      "sstf_add_loop position s rq b = Some (True, s\<lparr>sheap := list_add (sheap s) rq (last (b # ws)), queue_count := queue_count s + 1\<rparr>) \<or>
       zs = [] \<and> sstf_add_loop position s rq b = Some (False, s)"
      using Cons.IH [of "us @ [v]" b] Cons.prems unfolding append_assoc append_Cons append_Nil by blast
    then show ?thesis using st False by (intro exI [of _ "b # ws"] exI [of _ zs]) auto
  qed
qed

lemma sstf_add_loop_head:
  assumes il: "is_list (sheap s) (Node Queue) (v # vs)" and c: "queue_count s = int (length (v # vs))" and position: "\<And>p. position p = p"
  shows "\<exists>ws zs. vs = ws @ zs \<and> sstf_place (blk_rq_pos s) rq (v # vs) = v # ws @ rq # zs \<and>
    (sstf_add_loop position s rq v = Some (True, s\<lparr>sheap := list_add (sheap s) rq (last (v # ws)), queue_count := queue_count s + 1\<rparr>) \<or>
     zs = [] \<and> sstf_add_loop position s rq v = Some (False, s))"
proof (cases "vs = []")
  case True
  have "sstf_add_loop position s rq v = Some (True, s\<lparr>sheap := list_add (sheap s) rq v, queue_count := queue_count s + 1\<rparr>)"
    using c True is_list_distinct [OF il] by (subst sstf_add_loop.simps) auto
  then show ?thesis using True by simp
next
  case False
  then show ?thesis using sstf_add_loop_spec [of s "[]" v vs position rq] il c position by simp
qed

lemma sstf_add_request_spec:
  assumes ok: "sstf_ok s q d" and rq: "is_req rq" "rq \<notin> set q" "rq \<notin> set d" and position: "\<And>p. position p = p"
  obtains s' where "sstf_add_request position s rq = Inr s'" "sstf_ok s' (sstf_place (blk_rq_pos s) rq q) d" "reqs s' = reqs s"
    "end_sector s' = end_sector s"
proof -
  have f: "fam (sheap s) (qA q d)" and c: "queue_count s = int (length q)" using ok by (simp_all add: sstf_ok_def)
  have l: "loose (qA q d) rq" using rq by (auto simp: loose_def qA_def is_req_def split: if_splits)
  have nq: "rq \<noteq> Node Queue" and none: "(qA q d)(rq := None, Node Queue \<mapsto> q') = qA q' d" for q'
    using rq by (auto simp: is_req_def qA_def fun_eq_iff)
  have il: "is_list (sheap s) (Node Queue) q" using famD [OF f] by simp
  have em: "list_empty (sheap s) (Node Queue) \<longleftrightarrow> q = []" using fam_empty [OF f] by simp
  have r: "sstf_ok s' (sstf_place (blk_rq_pos s) rq q) d" if "fam (sheap s') (qA (sstf_place (blk_rq_pos s) rq q) d)"
    "queue_count s' = int (length q) + 1" "enqueue s' = Some (hd (sstf_place (blk_rq_pos s) rq q))" for s'
    using that ok rq(1) by (auto simp: sstf_ok_def)
  show thesis
  proof (cases q)
    case Nil
    have "fam (list_add (sheap s) rq (Node Queue)) (qA [rq] d)" using fam_list_add [OF f _ l nq] none Nil by simp
    then have "nxt (list_add (sheap s) rq (Node Queue)) (Node Queue) = rq" using is_list_head_next [OF famD, of _ "qA [rq] d" "Node Queue" "[rq]"] by simp
    moreover note \<open>fam _ (qA [rq] d)\<close>
    ultimately show ?thesis using Nil em c
      by (intro that [of "s\<lparr>sheap := list_add (sheap s) rq (Node Queue), enqueue := Some rq, queue_count := queue_count s + 1\<rparr>", OF _ r])
        (simp_all add: sstf_add_request_def Let_def)
  next
    case (Cons v vs)
    have hn: "nxt (sheap s) (Node Queue) = v" using is_list_head_next [OF il] Cons by simp
    have e: "enqueue s = Some v" using ok Cons by (simp add: sstf_ok_def)
    have at: "fam (list_add (sheap s) rq (last (v # ws))) (qA (v # ws @ rq # zs) d)" if "vs = ws @ zs" for ws zs
      using fam_add_at [OF f, of "Node Queue" "v # ws" zs rq] l nq none that Cons by simp
    have tail: "fam (list_add_tail (sheap s) rq (Node Queue)) (qA (q @ [rq]) d)"
      using fam_list_add_tail [OF f _ l nq] none by simp
    obtain ws zs where w: "vs = ws @ zs" "sstf_place (blk_rq_pos s) rq (v # vs) = v # ws @ rq # zs"
      "sstf_add_loop position s rq v = Some (True, s\<lparr>sheap := list_add (sheap s) rq (last (v # ws)), queue_count := queue_count s + 1\<rparr>) \<or>
       zs = [] \<and> sstf_add_loop position s rq v = Some (False, s)"
      using sstf_add_loop_head [OF il [unfolded Cons] c [unfolded Cons] position] by blast
    from w(3) show ?thesis
    proof
      assume "sstf_add_loop position s rq v = Some (True, s\<lparr>sheap := list_add (sheap s) rq (last (v # ws)), queue_count := queue_count s + 1\<rparr>)"
      then show ?thesis using Cons em c hn e at [OF w(1)] w(2)
        by (intro that [of "s\<lparr>sheap := list_add (sheap s) rq (last (v # ws)), queue_count := queue_count s + 1\<rparr>", OF _ r])
          (simp_all add: sstf_add_request_def del: last.simps)
    next
      assume "zs = [] \<and> sstf_add_loop position s rq v = Some (False, s)"
      then show ?thesis using Cons em c hn e tail w(1, 2)
        by (intro that [of "s\<lparr>sheap := list_add_tail (sheap s) rq (Node Queue), queue_count := queue_count s + 1\<rparr>", OF _ r])
          (simp_all add: sstf_add_request_def)
    qed
  qed
qed

section \<open>Runs of the scheduler\<close>

text \<open>
  The dispatch is \<open>strayed\<close> when the memory in front of the queue head, read as a request, is closer to the
  current request than the next request of the queue is.
\<close>

definition strayed :: "sstf \<Rightarrow> bool" where
  "strayed s \<longleftrightarrow> (case enqueue s of None \<Rightarrow> False | Some a \<Rightarrow> queue_count s > 1 \<and> near s a (Node Queue) (nxt (sheap s) a))"

inductive sstf_reach :: "sstf \<Rightarrow> snode lptr set \<Rightarrow> sstf \<Rightarrow> bool" for s0 where
  init: "is_list (sheap s0) (Node Queue_head) [] \<Longrightarrow> sstf_init_queue True s0 = Some s \<Longrightarrow> sstf_reach s0 {} s"
| add: "sstf_reach s0 R s \<Longrightarrow> is_req rq \<Longrightarrow> rq \<notin> R \<Longrightarrow> sstf_add_request id s rq = Inr s' \<Longrightarrow> sstf_reach s0 (insert rq R) s'"
| dispatch: "sstf_reach s0 R s \<Longrightarrow> \<not> strayed s \<Longrightarrow> sstf_dispatch s = Inr (k, s') \<Longrightarrow> sstf_reach s0 R s'"

lemma strayed_near:
  assumes "sstf_ok s (a # q) d" "q \<noteq> []"
  shows "strayed s \<longleftrightarrow> near s a (Node Queue) (hd q)"
proof -
  have "is_list (sheap s) (Node Queue) ([] @ a # q)" using assms(1) famD by (fastforce simp: sstf_ok_def)
  then have "nxt (sheap s) a = hd q" using is_list_next assms(2) by fastforce
  then show ?thesis using assms by (auto simp: strayed_def sstf_ok_def)
qed

lemma strayed_Cons: "sstf_ok s (a # q) d \<Longrightarrow> \<not> strayed s \<Longrightarrow> q \<noteq> [] \<Longrightarrow> \<not> near s a (Node Queue) (hd q)"
  using strayed_near by blast

lemma sstf_dispatch_empty: "sstf_ok s [] d \<Longrightarrow> sstf_dispatch s = Inr (0, s)"
  using fam_empty [of "sheap s" "qA [] d" "Node Queue" "[]"] by (simp add: sstf_ok_def sstf_dispatch_def)

lemma sstf_ok_distinct: "sstf_ok s q d \<Longrightarrow> distinct (q @ d)"
  using fam_disjoint [of "sheap s" "qA q d" "Node Queue" q "Node Queue_head" d] fam_distinct [of "sheap s" "qA q d" "Node Queue" q]
    fam_distinct [of "sheap s" "qA q d" "Node Queue_head" d]
  by (auto simp: sstf_ok_def)

lemma sstf_reach_ok: "sstf_reach s0 R s \<Longrightarrow> \<exists>q d. sstf_ok s q d \<and> set q \<union> set d = R"
proof (induction rule: sstf_reach.induct)
  case (init s)
  have h: "sheap s = INIT_LIST_HEAD (sheap s0) (Node Queue)" "queue_count s = 0" using init by (auto simp: sstf_init_queue_def)
  have "is_list (sheap s) (Node Queue_head) []" using init(1) by (simp add: is_list_def h list_op_defs)
  then have "sstf_ok s [] []" using is_list_init [of "sheap s0" "Node Queue"]
    by (auto simp: sstf_ok_def fam_def h qA_def split: if_splits)
  then show ?case by (intro exI [of _ "[]"]) simp
next
  case (add R s rq s')
  then obtain q d where q: "sstf_ok s q d" "set q \<union> set d = R" by blast
  obtain s1 where "sstf_add_request id s rq = Inr s1" "sstf_ok s1 (sstf_place (blk_rq_pos s) rq q) d"
    using sstf_add_request_spec [OF q(1), of rq id] add.hyps q(2) by auto
  then show ?case using add.hyps q(2) by (intro exI [of _ "sstf_place (blk_rq_pos s) rq q"] exI [of _ d]) auto
next
  case (dispatch R s k s')
  then obtain q d where q: "sstf_ok s q d" "set q \<union> set d = R" by blast
  show ?case
  proof (cases q)
    case Nil
    then show ?thesis using q sstf_dispatch_empty [of s d] dispatch.hyps by (intro exI [of _ q] exI [of _ d]) auto
  next
    case (Cons a r)
    obtain s1 d' where "sstf_dispatch s = Inr (1, s1)" "sstf_ok s1 r d'" "sorted_in s a d d'"
      using sstf_dispatch_spec [OF q(1) [unfolded Cons] strayed_Cons [OF q(1) [unfolded Cons] dispatch.hyps(2)]] by blast
    then show ?thesis using dispatch.hyps q(2) Cons by (intro exI [of _ r] exI [of _ d']) (auto simp: sorted_in_def)
  qed
qed

section \<open>Two requests\<close>

text \<open>
  A queue with the requests 1 and 2 at the sectors 10 and 20; \<open>g\<close> is what the memory around the queue head
  holds where a request has its sector.
\<close>

definition sstf_two :: "int \<Rightarrow> sstf" where
  "sstf_two g = \<lparr>sheap = \<lparr>nxt = id(Node Queue := Node (Req 1), Node (Req 1) := Node (Req 2), Node (Req 2) := Node Queue),
       prv = id(Node Queue := Node (Req 2), Node (Req 1) := Node Queue, Node (Req 2) := Node (Req 1))\<rparr>,
     reqs = (\<lambda>p. \<lparr>rq_sector = (if p = Node (Req 1) then 10 else if p = Node (Req 2) then 20 else if p = Node (Req 3) then 15 else g),
       cmd_discard = False, cmd_dir = False, cmd_stop = False, on_hash = False\<rparr>),
     enqueue = Some (Node (Req 1)), queue_count = 2, last_merge = None, nr_sorted = 2, end_sector = 0\<rparr>"

lemma sstf_two_ok: "sstf_ok (sstf_two g) [Node (Req 1), Node (Req 2)] []"
proof -
  have "is_list (sheap (sstf_two g)) (Node Queue) [Node (Req 1), Node (Req 2)]" "is_list (sheap (sstf_two g)) (Node Queue_head) []"
    by (simp_all add: is_list_def sstf_two_def)
  then have "fam (sheap (sstf_two g)) (qA [Node (Req 1), Node (Req 2)] [])"
    by (auto simp: fam_def qA_def split: if_splits)
  then show ?thesis by (simp add: sstf_ok_def sstf_two_def is_req_def)
qed

lemma sstf_two_strayed: "strayed (sstf_two 12)" "\<not> strayed (sstf_two 100)"
  by (simp_all add: strayed_def sstf_two_def near_def blk_rq_pos_def abs_long_def s32_def u32_def)

definition sstf_boot :: sstf where
  "sstf_boot = (sstf_two 100)\<lparr>sheap := \<lparr>nxt = id, prv = id\<rparr>, enqueue := None, queue_count := 7\<rparr>"

lemma sstf_boot_reach: "\<exists>s. sstf_reach sstf_boot {} s"
  using sstf_reach.init [of sstf_boot] by (force simp: sstf_boot_def is_list_def sstf_init_queue_def)

text \<open>
  C26. As long as the dispatch does not stray, the scheduler neither loses nor duplicates a request: after any
  sequence of additions and dispatches every request that was added is on exactly one of the two queues,
  the counter is the length of the queue and the next request to dispatch is the first of the queue; adding
  one more request and dispatching return, and tearing the scheduler down is a \<open>BUG\<close> exactly when requests
  are left.
\<close>

theorem sstf_keeps_requests:
  assumes "sstf_reach s0 R s"
  shows "\<exists>q d. sstf_ok s q d \<and> set q \<union> set d = R \<and> distinct (q @ d) \<and> (sstf_exit_queue s = Inl Bug \<longleftrightarrow> q \<noteq> []) \<and>
    (\<forall>rq. is_req rq \<longrightarrow> rq \<notin> R \<longrightarrow> (\<exists>s'. sstf_add_request id s rq = Inr s')) \<and>
    (\<not> strayed s \<longrightarrow> (\<exists>k s'. sstf_dispatch s = Inr (k, s')))"
proof -
  obtain q d where q: "sstf_ok s q d" "set q \<union> set d = R" using sstf_reach_ok [OF assms] by blast
  have "sstf_exit_queue s = Inl Bug \<longleftrightarrow> q \<noteq> []"
    using fam_empty [of "sheap s" "qA q d" "Node Queue" q] q(1) by (simp add: sstf_exit_queue_def sstf_ok_def)
  moreover have "\<exists>s'. sstf_add_request id s rq = Inr s'" if "is_req rq" "rq \<notin> R" for rq
    using sstf_add_request_spec [OF q(1), of rq id] that q(2) by auto
  moreover have "\<exists>k s'. sstf_dispatch s = Inr (k, s')" if ns: "\<not> strayed s"
  proof (cases q)
    case (Cons a r)
    have ok: "sstf_ok s (a # r) d" using q(1) Cons by simp
    obtain s' where "sstf_dispatch s = Inr (1, s')"
      by (rule sstf_dispatch_spec [OF ok]) (use strayed_Cons [OF ok ns] in auto)
    then show ?thesis by blast
  qed (use q sstf_dispatch_empty in blast)
  ultimately show ?thesis using q sstf_ok_distinct [OF q(1)] by blast
qed

theorem sstf_keeps_requests_witness:
  "\<exists>s. sstf_reach sstf_boot {Node (Req 1)} s \<and> (\<exists>q d. sstf_ok s q d \<and> set q \<union> set d = {Node (Req 1)})"
proof -
  obtain s where s: "sstf_reach sstf_boot {} s" using sstf_boot_reach by blast
  obtain s' where "sstf_add_request id s (Node (Req 1)) = Inr s'"
    using sstf_keeps_requests [OF s] by (auto simp: is_req_def)
  then have "sstf_reach sstf_boot {Node (Req 1)} s'" using sstf_reach.add [OF s, of "Node (Req 1)"] by (simp add: is_req_def)
  with sstf_keeps_requests [OF this] show ?thesis by blast
qed

text \<open>
  C27. Dispatching takes the first request of the queue, whatever the distances are, and sorts it into the dispatch
  queue: it passes from the tail every request that it can be merged with and that the disk head reaches
  later, and goes in front of those. The rest of the queue keeps its order. Only the choice of the next
  request looks at the distances: it is the new first request, or the queue head when the dispatch strays.
\<close>

theorem sstf_dispatch_takes_first:
  assumes "sstf_ok s (a # q) d"
  shows "\<exists>s' ws zs. sstf_dispatch s = Inr (1, s') \<and> is_list (sheap s') (Node Queue) q \<and>
    is_list (sheap s') (Node Queue_head) (ws @ a # zs) \<and> d = ws @ zs \<and>
    (\<forall>p \<in> set zs. merges s a p \<and> later s a p) \<and> (ws \<noteq> [] \<longrightarrow> \<not> (merges s a (last ws) \<and> later s a (last ws))) \<and>
    queue_count s' = int (length q) \<and> (q \<noteq> [] \<longrightarrow> enqueue s' = Some (if strayed s then Node Queue else hd q))"
proof -
  obtain s' d' where s': "sstf_dispatch s = Inr (1, s')" "fam (sheap s') (qA q d')" "queue_count s' = int (length q)"
    "sorted_in s a d d'" "enqueue s' = Some (if q = [] then a else if near s a (Node Queue) (hd q) then Node Queue else hd q)"
    by (rule sstf_dispatch_core [OF assms])
  have l: "is_list (sheap s') (Node Queue) q" "is_list (sheap s') (Node Queue_head) d'" using famD [OF s'(2)] by simp_all
  from s'(4) obtain ws zs where w: "d = ws @ zs" "d' = ws @ a # zs" "\<forall>p \<in> set zs. merges s a p \<and> later s a p"
    "ws \<noteq> [] \<longrightarrow> \<not> (merges s a (last ws) \<and> later s a (last ws))" by (auto simp: sorted_in_def)
  have "enqueue s' = Some (if strayed s then Node Queue else hd q)" if "q \<noteq> []"
    using s'(5) that strayed_near [OF assms that] by simp
  then show ?thesis using s'(1,3) l w by blast
qed

theorem sstf_dispatch_takes_first_witness:
  "(\<exists>s'. sstf_dispatch (sstf_two 100) = Inr (1, s') \<and> is_list (sheap s') (Node Queue_head) [Node (Req 1)] \<and> enqueue s' = Some (Node (Req 2))) \<and>
   (\<exists>s'. sstf_dispatch (sstf_two 12) = Inr (1, s') \<and> is_list (sheap s') (Node Queue_head) [Node (Req 1)] \<and> enqueue s' = Some (Node Queue))"
  using sstf_dispatch_takes_first [OF sstf_two_ok, of 100] sstf_dispatch_takes_first [OF sstf_two_ok, of 12] sstf_two_strayed by auto

text \<open>
  C28. Adding a request refines the insertion into a list: a request goes behind the first request that is at
  most and whose successor is at least its sector, and to the end when there is none. The memory behind the
  last request, which the loop reads as a request, has no influence.
\<close>

theorem sstf_add_request_places:
  assumes "sstf_ok s q d" "is_req rq" "rq \<notin> set q" "rq \<notin> set d"
  shows "\<exists>s'. sstf_add_request id s rq = Inr s' \<and> sstf_ok s' (sstf_place (blk_rq_pos s) rq q) d \<and> reqs s' = reqs s"
  using sstf_add_request_spec [OF assms, of id] by fastforce

theorem sstf_add_request_places_witness:
  "\<exists>s'. sstf_add_request id (sstf_two 0) (Node (Req 3)) = Inr s' \<and> sstf_ok s' [Node (Req 1), Node (Req 3), Node (Req 2)] []"
  using sstf_add_request_places [OF sstf_two_ok, of "Node (Req 3)" 0] by (simp add: is_req_def sstf_two_def blk_rq_pos_def) blast

text \<open>
  C29. When the dispatch strays it takes the queue head for a request. The next dispatch then unlinks the head
  and puts it on the dispatch queue, and every request that was still queued is on neither queue.
\<close>

theorem sstf_strays_to_head:
  assumes "sstf_ok s (a # b # q) d" "strayed s"
  shows "\<exists>s1 s2 d'. sstf_dispatch s = Inr (1, s1) \<and> enqueue s1 = Some (Node Queue) \<and> sstf_dispatch s1 = Inr (1, s2) \<and>
    is_list (sheap s2) (Node Queue_head) d' \<and> Node Queue \<in> set d' \<and> set (b # q) \<inter> set d' = {}"
proof -
  have f: "fam (sheap s) (qA (a # b # q) d)" using assms(1) by (simp add: sstf_ok_def)
  have "nxt (sheap s) a = b" using is_list_next [OF famD [OF f], of "Node Queue" "[]" a "b # q"] by simp
  then have nr: "near s a (Node Queue) (hd (b # q))" using assms by (auto simp: strayed_def sstf_ok_def)
  obtain s1 d1 where s1: "sstf_dispatch s = Inr (1, s1)" "fam (sheap s1) (qA (b # q) d1)" "\<forall>p \<in> set (b # q) \<union> set d1. is_req p"
    "queue_count s1 = int (length (b # q))"
    and "enqueue s1 = Some (if b # q = [] then a else if near s a (Node Queue) (hd (b # q)) then Node Queue else hd (b # q))"
    by (rule sstf_dispatch_core [OF assms(1)])
  then have e1: "enqueue s1 = Some (Node Queue)" using nr by simp
  let ?A = "(qA (b # q) d1)(Node Queue := None, b \<mapsto> q @ [Node Queue], b \<mapsto> q, Node Queue \<mapsto> [])"
  have b: "b \<noteq> Node Queue_head" "b \<noteq> Node Queue" using s1(3) by (auto simp: is_req_def)
  have f1: "fam (sheap s1) ((qA (b # q) d1)(Node Queue := None, b \<mapsto> q @ [Node Queue]))"
    using fam_reroot [OF s1(2), of "Node Queue" "[]" b q] by simp
  have f2: "fam (list_del_init (sheap s1) (Node Queue)) ?A"
    using fam_list_del_init [OF f1, of b q "Node Queue" "[]"] by simp
  define e where "e = (if q = [] then Some (Node Queue) else Some (if near s1 (Node Queue) (prv (sheap s1) (Node Queue)) (nxt (sheap s1) (Node Queue))
    then prv (sheap s1) (Node Queue) else nxt (sheap s1) (Node Queue)))"
  define s1' where "s1' = s1\<lparr>enqueue := e, sheap := list_del_init (sheap s1) (Node Queue), queue_count := queue_count s1 - 1\<rparr>"
  have ne: "\<not> list_empty (sheap s1) (Node Queue)" using fam_empty [OF s1(2), of "Node Queue"] by simp
  have st: "sstf_dispatch s1 = run_bind (elv_dispatch_sort s1' (Node Queue)) (\<lambda>s. Inr (1, s))"
  proof (cases "q = []")
    case True
    then have "s1' = s1\<lparr>sheap := list_del_init (sheap s1) (Node Queue), queue_count := queue_count s1 - 1\<rparr>"
      using e1 by (cases s1) (simp add: s1'_def e_def)
    then show ?thesis using True ne s1(4) e1 by (simp add: sstf_dispatch_def)
  next
    case False
    then show ?thesis using ne s1(4) e1 by (simp add: sstf_dispatch_def s1'_def Let_def near_def e_def)
  qed
  have h: "fam (sheap s1') ?A" using f2 by (simp add: s1'_def)
  have A: "?A (Node Queue_head) = Some d1" "loose ?A (Node Queue)" "Node Queue \<noteq> Node Queue_head"
    using b looseI_single [OF h, of "Node Queue"] by auto
  obtain s2 d2 where s2: "elv_dispatch_sort s1' (Node Queue) = Inr s2" "sorted_in s1' (Node Queue) d1 d2"
    "fam (sheap s2) (?A(Node Queue := None, Node Queue_head \<mapsto> d2))"
    using elv_dispatch_sort_spec [OF h A] by blast
  have "Node Queue \<in> set d2" using s2(2) by (auto simp: sorted_in_def)
  moreover have "set (b # q) \<inter> set d2 = {}"
    using fam_disjoint [OF s2(3), of b q "Node Queue_head" d2] b by auto
  moreover have "is_list (sheap s2) (Node Queue_head) d2" using famD [OF s2(3)] by simp
  ultimately show ?thesis using s1(1) e1 st s2(1) by auto
qed

theorem sstf_strays_to_head_witness:
  "\<exists>s1 s2 d'. sstf_dispatch (sstf_two 12) = Inr (1, s1) \<and> sstf_dispatch s1 = Inr (1, s2) \<and>
     is_list (sheap s2) (Node Queue_head) d' \<and> Node Queue \<in> set d' \<and> Node (Req 2) \<notin> set d'"
  using sstf_strays_to_head [OF sstf_two_ok sstf_two_strayed(1)] by fastforce

end
