(* ===== verification/Osurd.thy ===== *)
theory Osurd
  imports Prelude "HOL-Library.Word"
begin

text \<open>
  The encrypting RAM disk driver (\<open>project3/osurd.c\<close>) with the key check of \<open>crypto/cipher.c\<close> and
  \<open>check_disk_change\<close> of \<open>fs/block_dev.c\<close>. The cipher that \<open>crypto_alloc_cipher\<close> selects at run time, the
  allocators and the queue operations of the block layer are parameters. A device's memory is a byte list;
  a pointer that was passed to \<open>vfree\<close> and kept is \<open>Freed\<close>, and a timer that \<open>init_timer\<close> has not set up
  has no base, on which \<open>del_timer_sync\<close> spins. As in the repository's configuration \<open>unsigned long\<close> has 32
  bits. The result flags that \<open>setkey\<close> leaves in the cipher, and what \<open>check_disk_change\<close> does outside the
  driver (\<open>flush_disk\<close> on the cached pages, the event bookkeeping of \<open>disk_clear_events\<close>, which asks
  \<open>osurd_media_changed\<close>), are not part of the state.
\<close>

unbundle bit_operations_syntax

type_synonym byte = "8 word"

section \<open>The cipher\<close>

record 'k cipher_alg =
  cra_blocksize :: nat
  cia_min_keysize :: nat
  cia_max_keysize :: nat
  key_unaligned :: bool
  key_kmalloc :: bool
  cia_setkey :: "'k \<Rightarrow> byte list \<Rightarrow> int \<times> 'k"
  cia_encrypt :: "'k \<Rightarrow> byte list \<Rightarrow> byte list"
  cia_decrypt :: "'k \<Rightarrow> byte list \<Rightarrow> byte list"

definition EINVAL :: int where "EINVAL = 22"
definition ENOMEM :: int where "ENOMEM = 12"

definition crypto_cipher_setkey :: "'k cipher_alg \<Rightarrow> 'k \<Rightarrow> byte list \<Rightarrow> nat \<Rightarrow> int \<times> 'k" where
  "crypto_cipher_setkey alg k key keylen =
     (if keylen < cia_min_keysize alg \<or> keylen > cia_max_keysize alg then (- EINVAL, k)
      else if key_unaligned alg
      then (if \<not> key_kmalloc alg then (- ENOMEM, k) else cia_setkey alg k (take keylen key))
      else cia_setkey alg k (take keylen key))"

definition osurd_key :: "byte list" where
  "osurd_key = [0x31, 0x32, 0x33, 0x34, 0x35, 0x36, 0x37, 0x38, 0x39, 0x30, 0]"

definition keylen :: nat where "keylen = 10"

section \<open>Devices\<close>

definition KERNEL_SECTOR_SIZE :: int where "KERNEL_SECTOR_SIZE = 512"

datatype vmem = Null | Live "byte list" | Freed

datatype request_mode = RM_SIMPLE | RM_FULL | RM_NOQUEUE

record gendisk =
  major :: int
  first_minor :: int
  capacity :: int

record osurd_dev =
  dev_size :: int
  data :: vmem
  users :: int
  media_change :: int
  queue :: "request_mode option"
  gd :: "gendisk option"
  timer_pending :: bool
  timer_init :: bool

record 'k osurd =
  tfm :: 'k
  dev :: osurd_dev

section \<open>Transfers\<close>

definition blit :: "byte list \<Rightarrow> nat \<Rightarrow> byte list \<Rightarrow> byte list" where
  "blit dst off b = take off dst @ b @ drop (off + length b) dst"

definition src_block :: "byte list \<Rightarrow> nat \<Rightarrow> nat \<Rightarrow> byte list" where
  "src_block src off n = take n (drop off src)"

partial_function (option) crypt_loop ::
  "(byte list \<Rightarrow> byte list) \<Rightarrow> nat \<Rightarrow> nat \<Rightarrow> byte list \<Rightarrow> nat \<Rightarrow> nat \<Rightarrow> nat \<Rightarrow> byte list \<Rightarrow> byte list option" where
  [code]: "crypt_loop f bs nbytes src soff doff i dst =
     (if i < nbytes
      then crypt_loop f bs nbytes src soff doff (i + bs) (blit dst (doff + i) (f (src_block src (soff + i) bs)))
      else Some dst)"

definition osurd_transfer ::
  "'k cipher_alg \<Rightarrow> 'k osurd \<Rightarrow> int \<Rightarrow> int \<Rightarrow> byte list \<Rightarrow> bool \<Rightarrow> ('k osurd \<times> byte list) run" where
  "osurd_transfer alg s sector nsect buffer write =
     (let offset = u32 (sector * KERNEL_SECTOR_SIZE);
          nbytes = u32 (nsect * KERNEL_SECTOR_SIZE);
          s = s\<lparr>tfm := snd (crypto_cipher_setkey alg (tfm s) osurd_key keylen)\<rparr>
      in if u32 (offset + nbytes) > u32 (dev_size (dev s)) then Inr (s, buffer)
         else case data (dev s) of Live mem \<Rightarrow>
             if write
             then run_bind (run_of_loop (crypt_loop (cia_encrypt alg (tfm s)) (cra_blocksize alg) (nat nbytes) buffer 0 (nat offset) 0 mem))
                    (\<lambda>mem. Inr (s\<lparr>dev := (dev s)\<lparr>data := Live mem\<rparr>\<rparr>, buffer))
             else run_bind (run_of_loop (crypt_loop (cia_decrypt alg (tfm s)) (cra_blocksize alg) (nat nbytes) mem (nat offset) 0 0 buffer))
                    (\<lambda>buffer. Inr (s, buffer))
           | _ \<Rightarrow> Inl Bug)"

section \<open>Requests\<close>

text \<open>
  A segment of a bio is its length in bytes and its pages; \<open>bio_cur_bytes\<close> of the source is the length of
  the segment at the bio's index, which the loop of \<open>bio_for_each_segment\<close> does not advance.
\<close>

record bio =
  bi_sector :: int
  bi_size :: int
  bi_write :: bool
  bio_cur_bytes :: int
  bi_vecs :: "byte list list"

primrec xfer_segments :: "'k cipher_alg \<Rightarrow> bio \<Rightarrow> byte list list \<Rightarrow> int \<Rightarrow> 'k osurd \<Rightarrow> ('k osurd \<times> byte list list) run" where
  "xfer_segments alg b [] sector s = Inr (s, [])"
| "xfer_segments alg b (v # vs) sector s =
     run_bind (osurd_transfer alg s sector (drop_bit 9 (bio_cur_bytes b)) v (bi_write b)) (\<lambda>(s, v).
       run_bind (xfer_segments alg b vs (u64 (sector + drop_bit 9 (bio_cur_bytes b))) s) (\<lambda>(s, vs). Inr (s, v # vs)))"

definition osurd_xfer_bio :: "'k cipher_alg \<Rightarrow> 'k osurd \<Rightarrow> bio \<Rightarrow> (int \<times> 'k osurd \<times> bio) run" where
  "osurd_xfer_bio alg s b =
     run_bind (xfer_segments alg b (bi_vecs b) (bi_sector b) s) (\<lambda>(s, vs). Inr (0, s, b\<lparr>bi_vecs := vs\<rparr>))"

primrec osurd_xfer_request :: "'k cipher_alg \<Rightarrow> 'k osurd \<Rightarrow> bio list \<Rightarrow> int \<Rightarrow> (int \<times> 'k osurd \<times> bio list) run" where
  "osurd_xfer_request alg s [] nsect = Inr (nsect, s, [])"
| "osurd_xfer_request alg s (b # bs) nsect =
     run_bind (osurd_xfer_bio alg s b) (\<lambda>(_, s, b).
       run_bind (osurd_xfer_request alg s bs (s32 (nsect + bi_size b div KERNEL_SECTOR_SIZE))) (\<lambda>(n, s, bs). Inr (n, s, b # bs)))"

definition osurd_make_request :: "'k cipher_alg \<Rightarrow> 'k osurd \<Rightarrow> bio \<Rightarrow> (int \<times> 'k osurd \<times> bio) run" where
  "osurd_make_request alg s b = run_bind (osurd_xfer_bio alg s b) (\<lambda>(status, s, b). Inr (0, s, b))"

record blk_request =
  cmd_type_fs :: bool
  blk_pos :: int
  blk_rq_cur_sectors :: int
  rq_buffer :: "byte list"
  rq_write :: bool
  rq_bios :: "bio list"

text \<open>
  The block layer: its queue state \<open>'q\<close>, fetching a request, and ending all or the current part of one. The
  end functions return what the memory of the request then holds, \<open>None\<close> when they have freed it. In the
  loops \<open>None\<close> is the null pointer and \<open>Some None\<close> a pointer to a freed request, which must not be read.
\<close>

record 'q blk_layer =
  blk_fetch_request :: "'q \<Rightarrow> blk_request option \<times> 'q"
  blk_end_request_all :: "blk_request \<Rightarrow> 'q \<Rightarrow> blk_request option \<times> 'q"
  blk_end_request_cur :: "blk_request \<Rightarrow> 'q \<Rightarrow> bool \<times> blk_request option \<times> 'q"



partial_function (option) osurd_full_request_loop ::
  "'k cipher_alg \<Rightarrow> 'q blk_layer \<Rightarrow> blk_request option option \<Rightarrow> 'q \<Rightarrow> 'k osurd \<Rightarrow> ('q \<times> 'k osurd) run option" where
  [code]: "osurd_full_request_loop alg b r q s =
     (case r of None \<Rightarrow> Some (Inr (q, s))
      | Some None \<Rightarrow> Some (Inl Bug)
      | Some (Some req) \<Rightarrow>
          if \<not> cmd_type_fs req
          then let (req, q) = blk_end_request_all b req q in osurd_full_request_loop alg b (Some req) q s
          else case osurd_xfer_request alg s (rq_bios req) 0 of
              Inl e \<Rightarrow> Some (Inl e)
            | Inr (sectors_xferred, s, bios) \<Rightarrow>
                let (more, req, q) = blk_end_request_cur b (req\<lparr>rq_bios := bios\<rparr>) q;
                    q = (if \<not> more then snd (blk_fetch_request b q) else q)
                in osurd_full_request_loop alg b (Some req) q s)"

definition osurd_full_request :: "'k cipher_alg \<Rightarrow> 'q blk_layer \<Rightarrow> 'q \<Rightarrow> 'k osurd \<Rightarrow> ('q \<times> 'k osurd) run" where
  "osurd_full_request alg b q s =
     (let (r, q) = blk_fetch_request b q in case osurd_full_request_loop alg b (map_option Some r) q s of None \<Rightarrow> Inl Diverge | Some x \<Rightarrow> x)"

section \<open>Opening, closing and the simulated media change\<close>

definition osurd_media_changed :: "osurd_dev \<Rightarrow> int" where
  "osurd_media_changed d = media_change d"

definition osurd_revalidate :: "osurd_dev \<Rightarrow> osurd_dev run" where
  "osurd_revalidate d =
     (if media_change d \<noteq> 0
      then let d = d\<lparr>media_change := 0\<rparr>
           in case data d of Live mem \<Rightarrow> Inr (d\<lparr>data := Live (replicate (nat (dev_size d)) 0 @ drop (nat (dev_size d)) mem)\<rparr>) | _ \<Rightarrow> Inl Bug
      else Inr d)"

definition check_disk_change :: "osurd_dev \<Rightarrow> osurd_dev run" where
  "check_disk_change d = (if osurd_media_changed d = 0 then Inr d else osurd_revalidate d)"

definition osurd_open :: "osurd_dev \<Rightarrow> osurd_dev run" where
  "osurd_open d =
     (let d = d\<lparr>timer_pending := False\<rparr>
      in run_bind (if users d = 0 then check_disk_change d else Inr d) (\<lambda>d. Inr (d\<lparr>users := s16 (users d + 1)\<rparr>)))"

definition osurd_release :: "osurd_dev \<Rightarrow> osurd_dev run" where
  "osurd_release d =
     (let d = d\<lparr>users := s16 (users d - 1)\<rparr>
      in if users d = 0 then (if timer_pending d then Inl Bug else Inr (d\<lparr>timer_pending := True\<rparr>)) else Inr d)"

definition osurd_invalidate :: "osurd_dev \<Rightarrow> osurd_dev" where
  "osurd_invalidate d = (if users d \<noteq> 0 \<or> data d = Null then d else d\<lparr>media_change := 1\<rparr>)"

definition osurd_getgeo :: "int \<Rightarrow> osurd_dev \<Rightarrow> int \<times> int \<times> int \<times> int" where
  "osurd_getgeo hardsect_size d =
     (let sz = u32 (s32 (dev_size d * (hardsect_size div KERNEL_SECTOR_SIZE)))
      in (drop_bit 6 (sz AND NOT 0x3f) mod 65536, 4, 16, 0))"

section \<open>Setting up and removing the devices\<close>

record osurd_params =
  hardsect_size :: int
  nsectors :: int
  mode :: int
  vmalloc :: "nat \<Rightarrow> byte list option"
  alloc_queue :: "nat \<Rightarrow> bool"
  alloc_disk :: "nat \<Rightarrow> bool"

definition zero_dev :: osurd_dev where
  "zero_dev = \<lparr>dev_size = 0, data = Null, users = 0, media_change = 0, queue = None, gd = None, timer_pending = False, timer_init = False\<rparr>"





section \<open>Block by block encryption\<close>

primrec crypt_blocks :: "(byte list \<Rightarrow> byte list) \<Rightarrow> nat \<Rightarrow> nat \<Rightarrow> byte list \<Rightarrow> byte list" where
  "crypt_blocks f bs 0 src = []"
| "crypt_blocks f bs (Suc k) src = f (take bs src) @ crypt_blocks f bs k (drop bs src)"

definition cipher_ok :: "'k cipher_alg \<Rightarrow> bool" where
  "cipher_ok alg \<longleftrightarrow> 0 < cra_blocksize alg \<and> cra_blocksize alg dvd 512 \<and>
     (\<forall>k b. length b = cra_blocksize alg \<longrightarrow> length (cia_encrypt alg k b) = cra_blocksize alg \<and>
        length (cia_decrypt alg k b) = cra_blocksize alg \<and> cia_decrypt alg k (cia_encrypt alg k b) = b)"

lemma crypt_blocks_length:
  assumes "\<And>b. length b = bs \<Longrightarrow> length (f b) = bs" "k * bs \<le> length src"
  shows "length (crypt_blocks f bs k src) = k * bs"
  using assms(2) by (induction k arbitrary: src) (simp_all add: assms(1))

lemma crypt_blocks_inverse:
  assumes "\<And>b. length b = bs \<Longrightarrow> length (f b) = bs \<and> g (f b) = b" "k * bs \<le> length src"
  shows "crypt_blocks g bs k (crypt_blocks f bs k src @ ys) = take (k * bs) src"
  using assms(2)
proof (induction k arbitrary: src)
  case (Suc k)
  have t: "length (take bs src) = bs" using Suc.prems by simp
  have "take (bs + k * bs) src = take bs src @ take (k * bs) (drop bs src)" by (simp add: take_add)
  then show ?case using Suc.IH [of "drop bs src"] Suc.prems assms(1) [OF t] by simp
qed simp

lemma blit_blit:
  assumes "off + length b + length c \<le> length dst"
  shows "blit (blit dst off b) (off + length b) c = blit dst off (b @ c)"
  using assms by (simp add: blit_def ac_simps)

lemma blit_length: "off + length b \<le> length dst \<Longrightarrow> length (blit dst off b) = length dst"
  by (simp add: blit_def)

lemma blit_read: "off + length b \<le> length dst \<Longrightarrow> drop off (blit dst off b) = b @ drop (off + length b) dst"
  by (simp add: blit_def)

lemma blit_other: "off + length b \<le> length dst \<Longrightarrow> j < off \<or> off + length b \<le> j \<Longrightarrow> j < length dst \<Longrightarrow> blit dst off b ! j = dst ! j"
  by (auto simp: blit_def nth_append)

lemma crypt_loop_spec:
  assumes "\<And>b. length b = bs \<Longrightarrow> length (f b) = bs" "0 < bs" "soff + i + k * bs \<le> length src" "doff + i + k * bs \<le> length dst"
  shows "crypt_loop f bs (i + k * bs) src soff doff i dst = Some (blit dst (doff + i) (crypt_blocks f bs k (drop (soff + i) src)))"
  using assms(3, 4)
proof (induction k arbitrary: i dst)
  case 0
  then show ?case by (subst crypt_loop.simps) (simp add: blit_def)
next
  case (Suc k)
  let ?b = "f (src_block src (soff + i) bs)"
  have b: "length ?b = bs" using Suc.prems by (intro assms(1)) (simp add: src_block_def)
  have "length (crypt_blocks f bs k (drop (soff + (i + bs)) src)) = k * bs"
    using Suc.prems by (intro crypt_blocks_length assms(1)) simp_all
  then have e: "blit (blit dst (doff + i) ?b) (doff + i + bs) (crypt_blocks f bs k (drop (soff + (i + bs)) src)) =
      blit dst (doff + i) (crypt_blocks f bs (Suc k) (drop (soff + i) src))"
    using blit_blit [of "doff + i" ?b _ dst] b Suc.prems by (simp add: src_block_def ac_simps)
  have "crypt_loop f bs (i + Suc k * bs) src soff doff i dst =
      crypt_loop f bs (i + bs + k * bs) src soff doff (i + bs) (blit dst (doff + i) ?b)"
    using assms(2) by (subst crypt_loop.simps) (simp add: add.assoc)
  also have "\<dots> = Some (blit (blit dst (doff + i) ?b) (doff + (i + bs)) (crypt_blocks f bs k (drop (soff + (i + bs)) src)))"
    using Suc.prems b by (intro Suc.IH) (simp_all add: blit_length)
  finally show ?case using e by (simp add: add.assoc)
qed

text \<open>A transfer that lies within the device.\<close>

definition in_range :: "'k osurd \<Rightarrow> int \<Rightarrow> int \<Rightarrow> byte list \<Rightarrow> bool" where
  "in_range s sector nsect mem \<longleftrightarrow> 0 \<le> sector \<and> 0 \<le> nsect \<and> (sector + nsect) * 512 \<le> dev_size (dev s) \<and> dev_size (dev s) < 2 ^ 31 \<and>
     data (dev s) = Live mem \<and> length mem = nat (dev_size (dev s))"

definition keyed :: "'k cipher_alg \<Rightarrow> 'k \<Rightarrow> 'k" where
  "keyed alg k = snd (crypto_cipher_setkey alg k osurd_key keylen)"

lemma blocks_of:
  assumes "cipher_ok alg" "0 \<le> nsect"
  obtains k where "nat (nsect * 512) = k * cra_blocksize alg"
proof -
  have "cra_blocksize alg dvd nat nsect * 512" using assms by (auto simp: cipher_ok_def)
  then obtain k where "nat nsect * 512 = cra_blocksize alg * k" by blast
  then show thesis using that [of k] assms(2) by (simp add: nat_mult_distrib mult.commute)
qed

lemma osurd_transfer_ranges:
  assumes "in_range s sector nsect mem"
  shows "u32 (sector * KERNEL_SECTOR_SIZE) = sector * 512" "u32 (nsect * KERNEL_SECTOR_SIZE) = nsect * 512"
    "\<not> u32 (sector * 512 + nsect * 512) > u32 (dev_size (dev s))" "nat (sector * 512) + nat (nsect * 512) \<le> length mem"
  using assms by (auto simp: in_range_def KERNEL_SECTOR_SIZE_def u32_def)

lemma osurd_write_spec:
  assumes c: "cipher_ok alg" and r: "in_range s sector nsect mem" and k: "nat (nsect * 512) = k * cra_blocksize alg"
    and l: "length buf = nat (nsect * 512)"
  shows "osurd_transfer alg s sector nsect buf True = Inr (s\<lparr>tfm := keyed alg (tfm s), dev := (dev s)\<lparr>data :=
    Live (blit mem (nat (sector * 512)) (crypt_blocks (cia_encrypt alg (keyed alg (tfm s))) (cra_blocksize alg) k buf))\<rparr>\<rparr>, buf)"
proof -
  note n = osurd_transfer_ranges [OF r]
  have "crypt_loop (cia_encrypt alg (keyed alg (tfm s))) (cra_blocksize alg) (0 + k * cra_blocksize alg) buf 0 (nat (sector * 512)) 0 mem =
      Some (blit mem (nat (sector * 512) + 0) (crypt_blocks (cia_encrypt alg (keyed alg (tfm s))) (cra_blocksize alg) k (drop (0 + 0) buf)))"
    using c l n(4) k by (intro crypt_loop_spec) (simp_all add: cipher_ok_def)
  then show ?thesis using n r unfolding osurd_transfer_def by (simp add: Let_def in_range_def keyed_def k)
qed

lemma osurd_read_spec:
  assumes c: "cipher_ok alg" and r: "in_range s sector nsect mem" and k: "nat (nsect * 512) = k * cra_blocksize alg"
    and l: "length buf = nat (nsect * 512)"
  shows "osurd_transfer alg s sector nsect buf False = Inr (s\<lparr>tfm := keyed alg (tfm s)\<rparr>,
    crypt_blocks (cia_decrypt alg (keyed alg (tfm s))) (cra_blocksize alg) k (drop (nat (sector * 512)) mem))"
proof -
  note n = osurd_transfer_ranges [OF r]
  let ?d = "crypt_blocks (cia_decrypt alg (keyed alg (tfm s))) (cra_blocksize alg) k (drop (nat (sector * 512) + 0) mem)"
  have "crypt_loop (cia_decrypt alg (keyed alg (tfm s))) (cra_blocksize alg) (0 + k * cra_blocksize alg) mem (nat (sector * 512)) 0 0 buf =
      Some (blit buf (0 + 0) ?d)"
    using c l n(4) k by (intro crypt_loop_spec) (simp_all add: cipher_ok_def)
  moreover have "length ?d = k * cra_blocksize alg" using c n(4) k by (intro crypt_blocks_length) (simp_all add: cipher_ok_def)
  then have "blit buf 0 ?d = ?d" using l k by (simp add: blit_def)
  ultimately show ?thesis using n r unfolding osurd_transfer_def by (simp add: Let_def in_range_def keyed_def k)
qed

text \<open>
  C30. What is written is read back. Writing a buffer to a range of sectors within the device and reading the
  same sectors returns the buffer, the bytes of the device outside the range are untouched, and inside the
  range the device holds the encrypted blocks. The hypotheses on the cipher are that it decrypts what it
  encrypts block by block and that setting the same key again does not change it.
\<close>

theorem osurd_write_read:
  assumes "cipher_ok alg" "keyed alg (keyed alg (tfm s)) = keyed alg (tfm s)" "in_range s sector nsect mem"
    "length wbuf = nat (nsect * 512)" "length rbuf = nat (nsect * 512)"
  shows "\<exists>s1 s2 mem'. osurd_transfer alg s sector nsect wbuf True = Inr (s1, wbuf) \<and>
    osurd_transfer alg s1 sector nsect rbuf False = Inr (s2, wbuf) \<and> data (dev s1) = Live mem' \<and> length mem' = length mem \<and>
    (\<forall>j < length mem. j < nat (sector * 512) \<or> nat ((sector + nsect) * 512) \<le> j \<longrightarrow> mem' ! j = mem ! j) \<and>
    take (length wbuf) (drop (nat (sector * 512)) mem') =
      crypt_blocks (cia_encrypt alg (keyed alg (tfm s))) (cra_blocksize alg) (length wbuf div cra_blocksize alg) wbuf"
proof -
  obtain k where k: "nat (nsect * 512) = k * cra_blocksize alg"
    using blocks_of [OF assms(1)] assms(3) by (auto simp: in_range_def)
  let ?bs = "cra_blocksize alg" and ?o = "nat (sector * 512)"
  let ?c = "crypt_blocks (cia_encrypt alg (keyed alg (tfm s))) ?bs k wbuf"
  let ?m = "blit mem ?o ?c"
  let ?s = "s\<lparr>tfm := keyed alg (tfm s), dev := (dev s)\<lparr>data := Live ?m\<rparr>\<rparr>"
  have cl: "length ?c = k * ?bs" using assms(1, 4) k by (intro crypt_blocks_length) (simp_all add: cipher_ok_def)
  have fit: "?o + length ?c \<le> length mem" using osurd_transfer_ranges(4) [OF assms(3)] k cl by simp
  have r: "in_range ?s sector nsect ?m" using assms(3) blit_length [OF fit] by (simp add: in_range_def)
  have inv: "crypt_blocks (cia_decrypt alg (keyed alg (tfm s))) ?bs k (?c @ ys) = take (k * ?bs) wbuf" for ys
    using assms(1, 4) k by (intro crypt_blocks_inverse) (auto simp: cipher_ok_def)
  have "crypt_blocks (cia_decrypt alg (keyed alg (tfm ?s))) ?bs k (drop ?o ?m) = take (k * ?bs) wbuf"
    unfolding blit_read [OF fit] using inv assms(2) by simp
  then have "osurd_transfer alg ?s sector nsect rbuf False = Inr (?s\<lparr>tfm := keyed alg (tfm ?s)\<rparr>, wbuf)"
    using osurd_read_spec [OF assms(1) r k assms(5)] assms(4) k by simp
  moreover have "nat ((sector + nsect) * 512) = ?o + length ?c" using cl k assms(3) by (simp add: in_range_def distrib_right nat_add_distrib)
  moreover have "length wbuf div ?bs = k" using assms(1, 4) k by (simp add: cipher_ok_def)
  moreover have "take (length wbuf) (drop ?o ?m) = ?c" unfolding blit_read [OF fit] using cl assms(4) k by simp
  ultimately show ?thesis
    using osurd_write_spec [OF assms(1, 3) k assms(4)] blit_length [OF fit] blit_other [OF fit] by auto
qed

definition xor_cipher :: "byte cipher_alg" where
  "xor_cipher = \<lparr>cra_blocksize = 16, cia_min_keysize = 16, cia_max_keysize = 32, key_unaligned = False, key_kmalloc = True,
     cia_setkey = (\<lambda>k key. (0, hd key)), cia_encrypt = (\<lambda>k. map (\<lambda>x. x XOR k)), cia_decrypt = (\<lambda>k. map (\<lambda>x. x XOR k))\<rparr>"

lemma xor_cipher_ok: "cipher_ok xor_cipher" "keyed xor_cipher k = k"
  by (simp_all add: cipher_ok_def xor_cipher_def keyed_def crypto_cipher_setkey_def keylen_def xor.assoc comp_def)

definition demo_disk :: "byte osurd" where
  "demo_disk = \<lparr>tfm = 7, dev = zero_dev\<lparr>dev_size := 1024, data := Live (replicate 1024 0)\<rparr>\<rparr>"

theorem osurd_write_read_witness:
  "\<exists>s1 s2. osurd_transfer xor_cipher demo_disk 1 1 (replicate 512 5) True = Inr (s1, replicate 512 5) \<and>
     osurd_transfer xor_cipher s1 1 1 (replicate 512 0) False = Inr (s2, replicate 512 5)"
proof -
  have "in_range demo_disk 1 1 (replicate 1024 0)" by (simp add: in_range_def demo_disk_def)
  from osurd_write_read [OF xor_cipher_ok(1) _ this, of "replicate 512 5" "replicate 512 0"] show ?thesis
    by (auto simp: xor_cipher_ok(2))
qed

section \<open>The key\<close>

text \<open>
  C34. The driver's key is never used. The key has 10 bytes, less than the 16 bytes that the shortest AES key has,
  so \<open>crypto_cipher_setkey\<close> refuses it, and the driver does not look at the result: every transfer uses the
  cipher in the state in which it was allocated, and the key of the algorithm plays no part.
\<close>

theorem osurd_key_refused:
  assumes "10 < cia_min_keysize alg"
  shows "fst (crypto_cipher_setkey alg (tfm s) osurd_key keylen) = - EINVAL \<and>
    (osurd_transfer alg s sector nsect buf w = Inr (s', buf') \<longrightarrow> tfm s' = tfm s) \<and>
    osurd_transfer alg s sector nsect buf w = osurd_transfer (alg\<lparr>cia_setkey := f\<rparr>) s sector nsect buf w"
  using assms by (auto simp: osurd_transfer_def crypto_cipher_setkey_def keylen_def Let_def run_bind_def run_of_loop_def
      split: vmem.splits option.splits sum.splits if_splits)

theorem osurd_key_refused_witness:
  "fst (crypto_cipher_setkey xor_cipher (tfm demo_disk) osurd_key keylen) = - 22"
  using osurd_key_refused [of xor_cipher demo_disk] by (simp add: xor_cipher_def EINVAL_def)

section \<open>The request functions\<close>

lemma full_request_loop_stuck:
  fixes alg :: "'k cipher_alg" and b :: "'q blk_layer"
  assumes "osurd_full_request_loop alg b r q s = Some x" "r \<noteq> None"
  shows "\<exists>e. x = Inl e"
proof -
  have "r \<noteq> None \<longrightarrow> (\<exists>e. x = Inl e)"
  proof (rule osurd_full_request_loop.raw_induct [of "\<lambda>alg b r q s x. r \<noteq> None \<longrightarrow> (\<exists>e. x = Inl e)", OF _ assms(1)], intro impI)
    fix loop and alg :: "'k cipher_alg" and b :: "'q blk_layer" and r q s x
    assume IH: "\<And>alg b r q s x. loop alg b r q s = Some x \<Longrightarrow> r \<noteq> None \<longrightarrow> (\<exists>e. x = Inl e)"
      and e: "(case r of None \<Rightarrow> Some (Inr (q, s)) | Some None \<Rightarrow> Some (Inl Bug) | Some (Some req) \<Rightarrow>
          if \<not> cmd_type_fs req then let (req, q) = blk_end_request_all b req q in loop alg b (Some req) q s
          else case osurd_xfer_request alg s (rq_bios req) 0 of Inl e \<Rightarrow> Some (Inl e)
            | Inr (sectors_xferred, s, bios) \<Rightarrow> let (more, req, q) = blk_end_request_cur b (req\<lparr>rq_bios := bios\<rparr>) q;
                  q = (if \<not> more then snd (blk_fetch_request b q) else q) in loop alg b (Some req) q s) = Some x"
      and r: "r \<noteq> None"
    then obtain req where req: "r = Some req" by blast
    have "(\<exists>req q s. loop alg b (Some req) q s = Some x) \<or> (\<exists>e. x = Inl e)"
      using e unfolding req option.case Let_def by (auto split: if_splits sum.splits prod.splits option.splits)
    then show "\<exists>e. x = Inl e" using IH [of alg b "Some _"] by blast
  qed
  then show ?thesis using assms(2) by simp
qed





text \<open>
  C33. The full request function never returns after it has fetched a request. It drops the result of
  \<open>blk_fetch_request\<close> inside the loop, so the loop goes on with the same request, whatever the block layer does.
\<close>

theorem osurd_full_request_never_returns:
  assumes "fst (blk_fetch_request b q) \<noteq> None"
  shows "osurd_full_request alg b q s \<noteq> Inr x"
  using full_request_loop_stuck [of alg b "map_option Some (fst (blk_fetch_request b q))" "snd (blk_fetch_request b q)" s] assms
  by (fastforce simp: osurd_full_request_def split: prod.splits option.splits)

definition demo_req :: blk_request where
  "demo_req = \<lparr>cmd_type_fs = True, blk_pos = 0, blk_rq_cur_sectors = 1, rq_buffer = replicate 512 5, rq_write = True, rq_bios = []\<rparr>"

definition demo_layer :: "blk_request list blk_layer" where
  "demo_layer = \<lparr>blk_fetch_request = (\<lambda>q. case q of [] \<Rightarrow> (None, []) | r # q \<Rightarrow> (Some r, q)),
     blk_end_request_all = (\<lambda>r q. (Some r, q)), blk_end_request_cur = (\<lambda>r q. (False, None, q))\<rparr>"

theorem osurd_full_request_never_returns_witness:
  "osurd_full_request xor_cipher demo_layer [demo_req] demo_disk \<noteq> Inr ([], demo_disk)"
  by (rule osurd_full_request_never_returns) (simp add: demo_layer_def)







section \<open>The life of a device\<close>

text \<open>
  Openings and closings of a device, which the kernel serialises, writes by a process that has it open, and the
  firing of its timer. \<open>n\<close> counts the openings, \<open>fired\<close> says whether the timer has fired since the last one,
  and \<open>m\<close> is what the device should hold: what it held at the start, what was last written, or zeros when the
  first opening after the timer has fired wiped it.
\<close>

inductive osurd_life :: "osurd_dev \<Rightarrow> byte list \<Rightarrow> nat \<Rightarrow> bool \<Rightarrow> byte list \<Rightarrow> osurd_dev run \<Rightarrow> bool" for d0 m0 where
  start: "osurd_life d0 m0 0 False m0 (Inr d0)"
| open_dev: "osurd_life d0 m0 n fired m (Inr d) \<Longrightarrow> n < 32767 \<Longrightarrow>
    osurd_life d0 m0 (Suc n) False (if fired then replicate (length m0) 0 else m) (osurd_open d)"
| close_dev: "osurd_life d0 m0 (Suc n) fired m (Inr d) \<Longrightarrow> osurd_life d0 m0 n fired m (osurd_release d)"
| store: "osurd_life d0 m0 n fired m (Inr d) \<Longrightarrow> 0 < n \<Longrightarrow> length m' = length m \<Longrightarrow>
    osurd_life d0 m0 n fired m' (Inr (d\<lparr>data := Live m'\<rparr>))"
| fire: "osurd_life d0 m0 n fired m (Inr d) \<Longrightarrow> timer_pending d \<Longrightarrow>
    osurd_life d0 m0 n True m (Inr (osurd_invalidate (d\<lparr>timer_pending := False\<rparr>)))"

definition dev_ok :: "osurd_dev \<Rightarrow> nat \<Rightarrow> bool \<Rightarrow> byte list \<Rightarrow> osurd_dev \<Rightarrow> bool" where
  "dev_ok d0 n fired m d \<longleftrightarrow> users d = int n \<and> n \<le> 32767 \<and> data d = Live m \<and> length m = nat (dev_size d0) \<and> dev_size d = dev_size d0 \<and>
     (media_change d \<noteq> 0 \<longleftrightarrow> fired) \<and> (fired \<longrightarrow> n = 0) \<and> (timer_pending d \<longrightarrow> n = 0)"

lemma osurd_open_ok:
  assumes "dev_ok d0 n fired m d" "n < 32767"
  obtains d' where "osurd_open d = Inr d'" "dev_ok d0 (Suc n) False (if fired then replicate (nat (dev_size d0)) 0 else m) d'"
proof (rule that [of "d\<lparr>timer_pending := False, media_change := 0,
    data := Live (if fired then replicate (nat (dev_size d0)) 0 else m), users := int n + 1\<rparr>"])
  have m: "data d = Live m" "length m = nat (dev_size d0)" "dev_size d = dev_size d0" "users d = int n"
    "media_change d \<noteq> 0 \<longleftrightarrow> fired" "fired \<Longrightarrow> n = 0" using assms(1) by (auto simp: dev_ok_def)
  have "s16 (int n + 1) = int n + 1" using assms(2) by (simp add: s16_id)
  then show "osurd_open d = Inr (d\<lparr>timer_pending := False, media_change := 0,
      data := Live (if fired then replicate (nat (dev_size d0)) 0 else m), users := int n + 1\<rparr>)"
    using m by (cases d; cases fired; cases "n = 0") (auto simp: osurd_open_def check_disk_change_def osurd_media_changed_def osurd_revalidate_def Let_def)
qed (use assms in \<open>auto simp: dev_ok_def\<close>)

lemma osurd_release_ok:
  assumes "dev_ok d0 (Suc n) fired m d"
  obtains d' where "osurd_release d = Inr d'" "dev_ok d0 n fired m d'"
proof (rule that [of "d\<lparr>users := int n, timer_pending := (n = 0)\<rparr>"])
  have d: "users d = int n + 1" "n \<le> 32766" "\<not> timer_pending d" using assms by (auto simp: dev_ok_def)
  then have "s16 (users d - 1) = int n" by (simp add: s16_id)
  moreover have "d\<lparr>timer_pending := False\<rparr> = d" using d(3) by (cases d) simp
  then have "d\<lparr>users := int n, timer_pending := False\<rparr> = d\<lparr>users := int n\<rparr>" by (cases d) simp
  ultimately show "osurd_release d = Inr (d\<lparr>users := int n, timer_pending := (n = 0)\<rparr>)"
    using d(3) by (cases "n = 0") (simp_all add: osurd_release_def Let_def)
qed (use assms in \<open>auto simp: dev_ok_def\<close>)

lemma osurd_life_ok:
  "osurd_life d0 m0 n fired m r \<Longrightarrow> dev_ok d0 0 False m0 d0 \<Longrightarrow> \<exists>d. r = Inr d \<and> dev_ok d0 n fired m d"
proof (induction rule: osurd_life.induct)
  case (open_dev n fired m d)
  have l: "length m0 = nat (dev_size d0)" using open_dev.prems by (simp add: dev_ok_def)
  have "dev_ok d0 n fired m d" using open_dev.IH [OF open_dev.prems] by simp
  from osurd_open_ok [OF this open_dev.hyps(2)] show ?case unfolding l by blast
next
  case (close_dev n fired m d)
  have "dev_ok d0 (Suc n) fired m d" using close_dev.IH [OF close_dev.prems] by simp
  from osurd_release_ok [OF this] show ?case by blast
qed (auto simp: dev_ok_def osurd_invalidate_def)

text \<open>
  C31. The user counter of a device counts its openings, at most 32767 at a time, and no sequence of openings,
  closings, writes and timer events runs into \<open>BUG_ON\<close> in \<open>add_timer\<close>. The device always holds what
  was last written to it, except that the first opening after the timer has fired wipes it; the timer fires
  only while nobody has the device open.
\<close>

theorem osurd_contents_kept:
  assumes "osurd_life d0 m0 n fired m r" "users d0 = 0" "media_change d0 = 0" "\<not> timer_pending d0" "data d0 = Live m0" "length m0 = nat (dev_size d0)"
  shows "\<exists>d. r = Inr d \<and> users d = int n \<and> data d = Live m \<and> (fired \<longrightarrow> n = 0) \<and> (timer_pending d \<longrightarrow> n = 0)"
proof -
  have "dev_ok d0 0 False m0 d0" using assms(2-) by (simp add: dev_ok_def)
  then obtain d where "r = Inr d" "dev_ok d0 n fired m d" using osurd_life_ok [OF assms(1)] by blast
  then show ?thesis by (auto simp: dev_ok_def)
qed

text \<open>A device is opened, written and closed, its timer fires, and it is opened again: it is wiped.\<close>

theorem osurd_contents_kept_witness:
  "\<exists>d1 d2. osurd_release (dev demo_disk\<lparr>users := 1, data := Live (replicate 1024 9)\<rparr>) = Inr d1 \<and> data d1 = Live (replicate 1024 9) \<and>
     osurd_open (osurd_invalidate (d1\<lparr>timer_pending := False\<rparr>)) = Inr d2 \<and> users d2 = 1 \<and> data d2 = Live (replicate 1024 0)"
proof -
  let ?d = "dev demo_disk" and ?z = "replicate 1024 0" and ?n = "replicate 1024 9"
  let ?d1 = "?d\<lparr>users := 0, data := Live ?n, timer_pending := True\<rparr>"
  have o: "osurd_open ?d = Inr (?d\<lparr>users := 1\<rparr>)"
    by (simp add: osurd_open_def check_disk_change_def osurd_media_changed_def demo_disk_def zero_dev_def s16_id)
  have r: "osurd_release (?d\<lparr>users := 1, data := Live ?n\<rparr>) = Inr ?d1"
    by (simp add: osurd_release_def demo_disk_def zero_dev_def s16_id)
  have "osurd_life ?d ?z 1 False ?z (Inr (?d\<lparr>users := 1\<rparr>))"
    using osurd_life.open_dev [OF osurd_life.start, of ?d ?z] o by simp
  from osurd_life.store [OF this, of ?n] have "osurd_life ?d ?z 1 False ?n (Inr (?d\<lparr>users := 1, data := Live ?n\<rparr>))" by simp
  from osurd_life.close_dev [OF this [unfolded One_nat_def]] r have l: "osurd_life ?d ?z 0 False ?n (Inr ?d1)" by simp
  from osurd_life.open_dev [OF osurd_life.fire [OF l]] have
    l2: "osurd_life ?d ?z 1 False ?z (osurd_open (osurd_invalidate (?d1\<lparr>timer_pending := False\<rparr>)))" by simp
  have d: "users ?d = 0" "media_change ?d = 0" "\<not> timer_pending ?d" "data ?d = Live ?z" "length ?z = nat (dev_size ?d)"
    by (simp_all add: demo_disk_def zero_dev_def)
  from osurd_contents_kept [OF l2 d] obtain d2 where
    "osurd_open (osurd_invalidate (?d1\<lparr>timer_pending := False\<rparr>)) = Inr d2" "users d2 = 1" "data d2 = Live ?z" by auto
  then show ?thesis using r by (intro exI [of _ ?d1] exI [of _ d2]) simp
qed




end
