(* ===== verification/Conc_Sem.thy ===== *)
theory Conc_Sem
  imports Prelude
begin

text \<open>
  POSIX semaphores, and the dining philosophers (\<open>concurrency2/philosophers.c\<close>) who share one. A program
  is a step function per thread on the shared state; a thread that would block has no step, and \<open>runs\<close> are
  the interleavings. The locale \<open>semaphore\<close> is the contract of a counting semaphore, with the facts that the
  programs rest on.
\<close>

section \<open>Semaphores and runs\<close>

definition sem_wait :: "int \<Rightarrow> int option" where
  "sem_wait v = (if v > 0 then Some (v - 1) else None)"

definition sem_post :: "int \<Rightarrow> int" where
  "sem_post v = v + 1"

inductive runs :: "('t \<Rightarrow> 's \<Rightarrow> 's option) \<Rightarrow> 't set \<Rightarrow> 's \<Rightarrow> 's \<Rightarrow> bool" for step threads init where
  start: "runs step threads init init"
| step: "runs step threads init s \<Longrightarrow> t \<in> threads \<Longrightarrow> step t s = Some s' \<Longrightarrow> runs step threads init s'"

lemma sem_wait_Some: "sem_wait v = Some w \<longleftrightarrow> v > 0 \<and> w = v - 1" "sem_wait v = None \<longleftrightarrow> v \<le> 0"
  by (auto simp: sem_wait_def)

text \<open>
  A semaphore with \<open>cap\<close> units: a step of a thread keeps the sum of the free units and the units the thread
  holds, and does not touch what the others hold.
\<close>

locale semaphore =
  fixes step :: "'t \<Rightarrow> 's \<Rightarrow> 's option" and sem :: "'s \<Rightarrow> int" and held :: "'s \<Rightarrow> 't \<Rightarrow> nat"
    and threads :: "'t set" and init :: 's and cap :: nat
  assumes finite_threads: "finite threads"
    and init_sem: "sem init = int cap"
    and init_held: "t \<in> threads \<Longrightarrow> held init t = 0"
    and step_sem: "step t s = Some s' \<Longrightarrow> 0 \<le> sem s \<Longrightarrow> 0 \<le> sem s' \<and> sem s' + int (held s' t) = sem s + int (held s t)"
    and step_others: "step t s = Some s' \<Longrightarrow> u \<noteq> t \<Longrightarrow> held s' u = held s u"
begin

lemma conserved: "runs step threads init s \<Longrightarrow> 0 \<le> sem s \<and> sem s + int (\<Sum>t \<in> threads. held s t) = int cap"
proof (induction rule: runs.induct)
  case start
  then show ?case by (simp add: init_sem init_held)
next
  case (step s t s')
  have "(\<Sum>u \<in> threads. held s' u) = held s' t + (\<Sum>u \<in> threads - {t}. held s u)"
    using step.hyps step_others by (simp add: sum.remove [OF finite_threads])
  moreover have "(\<Sum>u \<in> threads. held s u) = held s t + (\<Sum>u \<in> threads - {t}. held s u)"
    using step.hyps by (simp add: sum.remove [OF finite_threads])
  ultimately show ?case using step_sem [OF step.hyps(3)] step.IH by simp
qed

lemma held_pair:
  assumes "runs step threads init s" "t \<in> threads" "u \<in> threads" "t \<noteq> u"
  shows "held s t + held s u \<le> cap"
proof -
  have "(\<Sum>v \<in> {t, u}. held s v) \<le> (\<Sum>v \<in> threads. held s v)" using assms by (intro sum_mono2 finite_threads) auto
  then show ?thesis using conserved [OF assms(1)] assms(4) by (simp del: of_nat_sum)
qed

lemma holders: "runs step threads init s \<Longrightarrow> card {t \<in> threads. held s t > 0} \<le> cap"
proof -
  assume r: "runs step threads init s"
  have "card {t \<in> threads. held s t > 0} = (\<Sum>t \<in> {t \<in> threads. held s t > 0}. 1)" by simp
  also have "\<dots> \<le> (\<Sum>t \<in> {t \<in> threads. held s t > 0}. held s t)" by (intro sum_mono) auto
  also have "\<dots> \<le> (\<Sum>t \<in> threads. held s t)" by (intro sum_mono2 finite_threads) auto
  finally show ?thesis using conserved [OF r] by (simp del: of_nat_sum)
qed

lemma alone:
  assumes "runs step threads init s" "t \<in> threads" "\<And>u. u \<in> threads \<Longrightarrow> u \<noteq> t \<Longrightarrow> held s u = 0"
  shows "sem s = int cap - int (held s t)"
proof -
  have "(\<Sum>u \<in> threads. held s u) = held s t" using assms by (simp add: sum.remove [OF finite_threads])
  then show ?thesis using conserved [OF assms(1)] by simp
qed

end

section \<open>The dining philosophers\<close>

datatype phil_pc = Think | Get_forks | Eat | Put_forks

record phil_table =
  mutex :: int
  phil :: "nat \<Rightarrow> phil_pc"

definition phil_step :: "nat \<Rightarrow> phil_table \<Rightarrow> phil_table option" where
  "phil_step t s = (case phil s t of
       Think \<Rightarrow> Some (s\<lparr>phil := (phil s)(t := Get_forks)\<rparr>)
     | Get_forks \<Rightarrow> map_option (\<lambda>v. s\<lparr>mutex := v, phil := (phil s)(t := Eat)\<rparr>) (sem_wait (mutex s))
     | Eat \<Rightarrow> Some (s\<lparr>phil := (phil s)(t := Put_forks)\<rparr>)
     | Put_forks \<Rightarrow> Some (s\<lparr>mutex := sem_post (mutex s), phil := (phil s)(t := Think)\<rparr>))"

definition phil_init :: phil_table where
  "phil_init = \<lparr>mutex = 2, phil = (\<lambda>_. Think)\<rparr>"

definition forks :: "phil_table \<Rightarrow> nat \<Rightarrow> nat" where
  "forks s t = (case phil s t of Eat \<Rightarrow> 1 | Put_forks \<Rightarrow> 1 | _ \<Rightarrow> 0)"

interpretation ph: semaphore phil_step mutex forks "{..<5}" phil_init 2
  by unfold_locales
    (auto simp: phil_init_def forks_def phil_step_def sem_wait_Some sem_post_def split: phil_pc.splits if_splits)

lemma forks_pos: "forks s t > 0 \<longleftrightarrow> phil s t = Eat \<or> phil s t = Put_forks"
  by (cases "phil s t") (simp_all add: forks_def)

text \<open>
  C38. At most two of the five philosophers have forks at any time, and the table never comes to a standstill:
  in every state that can be reached some philosopher can go on.
\<close>

theorem philosophers_safe:
  assumes "runs phil_step {..<5} phil_init s"
  shows "card {t \<in> {..<5}. phil s t = Eat \<or> phil s t = Put_forks} \<le> 2 \<and> (\<exists>t < 5. phil_step t s \<noteq> None)"
proof -
  have e: "{t \<in> {..<5}. phil s t = Eat \<or> phil s t = Put_forks} = {t \<in> {..<5}. forks s t > 0}"
    by (simp add: forks_pos)
  have "\<exists>t < 5. phil_step t s \<noteq> None"
  proof (rule ccontr)
    assume n: "\<not> (\<exists>t < 5. phil_step t s \<noteq> None)"
    have g: "phil s t = Get_forks \<and> mutex s \<le> 0" if "t < 5" for t
      using n that by (cases "phil s t") (auto simp: phil_step_def sem_wait_Some)
    then have "forks s t = 0" if "t < 5" for t using that by (simp add: forks_def)
    then have "mutex s = 2" using ph.alone [OF assms, of 0] by simp
    then show False using g [of 0] by simp
  qed
  then show ?thesis unfolding e using ph.holders [OF assms] by simp
qed

theorem philosophers_safe_witness:
  "runs phil_step {..<5} phil_init (phil_init\<lparr>phil := (phil phil_init)(0 := Get_forks)\<rparr>) \<and>
   card {t \<in> {..<5}. phil (phil_init\<lparr>phil := (phil phil_init)(0 := Get_forks)\<rparr>) t = Eat \<or>
     phil (phil_init\<lparr>phil := (phil phil_init)(0 := Get_forks)\<rparr>) t = Put_forks} \<le> 2"
proof -
  have r: "runs phil_step {..<5} phil_init (phil_init\<lparr>phil := (phil phil_init)(0 := Get_forks)\<rparr>)"
    by (rule runs.step [OF runs.start, of 0]) (simp_all add: phil_step_def phil_init_def)
  show ?thesis using r philosophers_safe [OF r] by blast
qed

end
