(* ===== verification/Conc_List.thy ===== *)
theory Conc_List
  imports Prelude
begin

text \<open>
  The singly linked list of the searchers, inserters and deleters (\<open>concurrency3/lib.c\<close>) on an explicit
  heap: an address holds a node or nothing, address 0 is \<open>NULL\<close>. Reading or writing through an address that
  holds no node is a failure. The address that \<open>malloc\<close> returns is a parameter. \<open>lst h p xs\<close> says that the
  list at \<open>p\<close> has the addresses and values \<open>xs\<close>.
\<close>

section \<open>The operations\<close>

record node =
  node_data :: int
  node_next :: nat

type_synonym heap = "nat \<rightharpoonup> node"

definition create_node :: "heap \<Rightarrow> nat \<Rightarrow> int \<Rightarrow> (nat \<times> heap) run" where
  "create_node h new_node val =
     (if new_node = 0 then Inl Bug
      else Inr (new_node, h(new_node \<mapsto> \<lparr>node_data = val, node_next = 0\<rparr>)))"

partial_function (option) last_loop :: "heap \<Rightarrow> nat \<Rightarrow> nat run option" where
  [code]: "last_loop h temp =
     (case h temp of None \<Rightarrow> Some (Inl Bug)
      | Some n \<Rightarrow> if node_next n \<noteq> 0 then last_loop h (node_next n) else Some (Inr temp))"

definition insert_node :: "heap \<Rightarrow> nat \<Rightarrow> nat \<Rightarrow> int \<Rightarrow> (nat \<times> heap) run" where
  "insert_node h new_node head val =
     (if head = 0 then create_node h new_node val
      else run_bind (case last_loop h head of None \<Rightarrow> Inl Diverge | Some r \<Rightarrow> r) (\<lambda>temp.
           run_bind (create_node h new_node val) (\<lambda>(a, h).
             case h temp of None \<Rightarrow> Inl Bug | Some n \<Rightarrow> Inr (head, h(temp \<mapsto> n\<lparr>node_next := a\<rparr>)))))"

partial_function (option) remove_loop :: "heap \<Rightarrow> nat \<Rightarrow> int \<Rightarrow> (nat \<times> heap) run option" where
  [code]: "remove_loop h cur val =
     (if cur = 0 then Some (Inr (0, h))
      else case h cur of None \<Rightarrow> Some (Inl Bug)
        | Some n \<Rightarrow>
            if node_data n = val then Some (Inr (node_next n, h(cur := None)))
            else Option.bind (remove_loop h (node_next n) val) (\<lambda>r.
              Some (run_bind r (\<lambda>(p, h). case h cur of None \<Rightarrow> Inl Bug | Some n \<Rightarrow> Inr (cur, h(cur \<mapsto> n\<lparr>node_next := p\<rparr>))))))"

definition remove_node :: "heap \<Rightarrow> nat \<Rightarrow> int \<Rightarrow> (nat \<times> heap) run" where
  "remove_node h cur val = (case remove_loop h cur val of None \<Rightarrow> Inl Diverge | Some r \<Rightarrow> r)"

partial_function (option) search_loop :: "heap \<Rightarrow> nat \<Rightarrow> int \<Rightarrow> int run option" where
  [code]: "search_loop h temp val =
     (if temp = 0 then Some (Inr 0)
      else case h temp of None \<Rightarrow> Some (Inl Bug)
        | Some n \<Rightarrow> if node_data n = val then Some (Inr 1) else search_loop h (node_next n) val)"

definition search_by_value :: "heap \<Rightarrow> nat \<Rightarrow> int \<Rightarrow> int run" where
  "search_by_value h head val = (case search_loop h head val of None \<Rightarrow> Inl Diverge | Some r \<Rightarrow> r)"

partial_function (option) free_loop :: "heap \<Rightarrow> nat \<Rightarrow> (nat \<times> heap) run option" where
  [code]: "free_loop h head =
     (if head = 0 then Some (Inr (0, h))
      else case h head of None \<Rightarrow> Some (Inl Bug) | Some n \<Rightarrow> free_loop (h(head := None)) (node_next n))"

definition free_list :: "heap \<Rightarrow> nat \<Rightarrow> (nat \<times> heap) run" where
  "free_list h head = (case free_loop h head of None \<Rightarrow> Inl Diverge | Some r \<Rightarrow> r)"

section \<open>The list at an address\<close>

fun chain :: "heap \<Rightarrow> nat \<Rightarrow> (nat \<times> int) list \<Rightarrow> bool" where
  "chain h p [] \<longleftrightarrow> p = 0"
| "chain h p ((a, v) # xs) \<longleftrightarrow> p = a \<and> a \<noteq> 0 \<and> (\<exists>n. h a = Some n \<and> node_data n = v \<and> chain h (node_next n) xs)"

definition lst :: "heap \<Rightarrow> nat \<Rightarrow> (nat \<times> int) list \<Rightarrow> bool" where
  "lst h p xs \<longleftrightarrow> chain h p xs \<and> distinct (map fst xs)"

lemma chain_cong: "(\<And>a. a \<in> fst ` set xs \<Longrightarrow> h' a = h a) \<Longrightarrow> chain h' p xs = chain h p xs"
  by (induction h p xs rule: chain.induct) auto

lemma chain_upd: "a \<notin> fst ` set xs \<Longrightarrow> chain (h(a := z)) p xs = chain h p xs"
  by (rule chain_cong) auto

lemma chain_addrs: "chain h p xs \<Longrightarrow> fst ` set xs \<subseteq> dom h - {0}"
  by (induction h p xs rule: chain.induct) auto

lemma last_loop_spec: "chain h p (xs @ [(a, v)]) \<Longrightarrow> last_loop h p = Some (Inr a)"
proof (induction xs arbitrary: p)
  case Nil
  then show ?case by (subst last_loop.simps) auto
next
  case (Cons x xs)
  obtain b w n where x: "x = (b, w)" "p = b" "h b = Some n" "chain h (node_next n) (xs @ [(a, v)])"
    using Cons.prems by (cases x) auto
  have "node_next n \<noteq> 0" using x(4) by (cases xs) auto
  then show ?case using x Cons.IH [OF x(4)] by (subst last_loop.simps) simp
qed

lemma chain_snoc:
  assumes "chain h p (xs @ [(a, v)])" "distinct (map fst (xs @ [(a, v)]))" "b \<notin> fst ` set (xs @ [(a, v)])" "b \<noteq> 0" "h a = Some n" "h b = Some m"
    "node_data m = w" "node_next m = 0"
  shows "chain (h(a \<mapsto> n\<lparr>node_next := b\<rparr>)) p (xs @ [(a, v), (b, w)])"
  using assms(1-3)
proof (induction xs arbitrary: p)
  case Nil
  then show ?case using assms(4-) by auto
next
  case (Cons x xs)
  then show ?case by (cases x) auto
qed

lemma insert_node_spec:
  assumes l: "lst h p xs" and a: "a \<noteq> 0" "h a = None"
  obtains p' h' where "insert_node h a p v = Inr (p', h')" "lst h' p' (xs @ [(a, v)])" "dom h' = insert a (dom h)"
proof (cases xs rule: rev_cases)
  case Nil
  then show ?thesis using l a that by (simp add: insert_node_def create_node_def lst_def)
next
  case (snoc ys y)
  obtain b w where y: "y = (b, w)" by fastforce
  let ?h = "h(a \<mapsto> \<lparr>node_data = v, node_next = 0\<rparr>)"
  have fr: "a \<notin> fst ` set xs" using chain_addrs l a by (fastforce simp: lst_def)
  have c: "chain ?h p (ys @ [(b, w)])" using l snoc y chain_upd [OF fr] by (simp add: lst_def)
  have p: "p \<noteq> 0" using l snoc by (cases ys) (auto simp: lst_def y)
  have "b \<in> dom h" using chain_addrs l snoc y by (fastforce simp: lst_def)
  then obtain n where n: "?h b = Some n" using a by (cases "b = a") auto
  have "last_loop h p = Some (Inr b)" using last_loop_spec [of h p ys b w] l snoc y by (simp add: lst_def)
  then have i: "insert_node h a p v = Inr (p, ?h(b \<mapsto> n\<lparr>node_next := a\<rparr>))" using p a n by (simp add: insert_node_def create_node_def)
  have "chain (?h(b \<mapsto> n\<lparr>node_next := a\<rparr>)) p (ys @ [(b, w), (a, v)])"
    using chain_snoc [OF c, of a n] n fr l a snoc y by (auto simp: lst_def)
  moreover have "dom (?h(b \<mapsto> n\<lparr>node_next := a\<rparr>)) = insert a (dom h)" using \<open>b \<in> dom h\<close> by auto
  ultimately show ?thesis using that [OF i] l snoc y fr by (auto simp: lst_def)
qed

fun remove_first :: "int \<Rightarrow> (nat \<times> int) list \<Rightarrow> (nat \<times> int) list" where
  "remove_first v [] = []"
| "remove_first v ((a, w) # xs) = (if w = v then xs else (a, w) # remove_first v xs)"

lemma remove_first_vals: "map snd (remove_first v xs) = remove1 v (map snd xs)"
  by (induction v xs rule: remove_first.induct) auto

lemma remove_first_subset: "set (remove_first v xs) \<subseteq> set xs"
  by (induction v xs rule: remove_first.induct) auto

lemma remove_first_distinct: "distinct (map fst xs) \<Longrightarrow> distinct (map fst (remove_first v xs))"
proof (induction v xs rule: remove_first.induct)
  case (2 v a w xs)
  then show ?case using image_mono [OF remove_first_subset, of fst v xs] by auto
qed simp

lemma remove_loop_spec:
  assumes "chain h p xs" "distinct (map fst xs)"
  shows "\<exists>p' h'. remove_loop h p v = Some (Inr (p', h')) \<and> chain h' p' (remove_first v xs) \<and>
    (\<forall>a. a \<notin> fst ` set xs \<longrightarrow> h' a = h a) \<and> dom h' = dom h - (fst ` set xs - fst ` set (remove_first v xs))"
  using assms
proof (induction xs arbitrary: p)
  case Nil
  then show ?case by (subst remove_loop.simps) simp
next
  case (Cons x xs)
  obtain a w n where x: "x = (a, w)" "p = a" "a \<noteq> 0" "h a = Some n" "node_data n = w" "chain h (node_next n) xs"
    using Cons.prems by (cases x) auto
  have fr: "a \<notin> fst ` set xs" using Cons.prems x by simp
  show ?case
  proof (cases "w = v")
    case True
    have "chain (h(a := None)) (node_next n) xs" using x(6) chain_upd [OF fr] by simp
    moreover have "remove_loop h p v = Some (Inr (node_next n, h(a := None)))" using x True by (subst remove_loop.simps) simp
    moreover have "dom (h(a := None)) = dom h - (fst ` set (x # xs) - fst ` set (remove_first v (x # xs)))" using x True fr by auto
    ultimately show ?thesis using x True by auto
  next
    case False
    obtain p' h' where IH: "remove_loop h (node_next n) v = Some (Inr (p', h'))" "chain h' p' (remove_first v xs)"
      "\<forall>a. a \<notin> fst ` set xs \<longrightarrow> h' a = h a" "dom h' = dom h - (fst ` set xs - fst ` set (remove_first v xs))"
      using Cons.IH [OF x(6)] Cons.prems by auto
    have ha: "h' a = Some n" using IH(3) fr x by simp
    let ?h = "h'(a \<mapsto> n\<lparr>node_next := p'\<rparr>)"
    have fr': "a \<notin> fst ` set (remove_first v xs)" using fr remove_first_subset by fastforce
    have r: "remove_loop h p v = Some (Inr (a, ?h))" using x False IH(1) ha by (subst remove_loop.simps) simp
    have "chain ?h p' (remove_first v xs)" using IH(2) chain_upd [OF fr'] by simp
    moreover have "dom ?h = dom h - (fst ` set (x # xs) - fst ` set (remove_first v (x # xs)))"
      using IH(4) x False fr by auto
    ultimately show ?thesis using r x False IH(3) by auto
  qed
qed

lemma remove_node_spec:
  assumes "lst h p xs"
  obtains p' h' where "remove_node h p v = Inr (p', h')" "lst h' p' (remove_first v xs)"
    "dom h' = dom h - (fst ` set xs - fst ` set (remove_first v xs))"
proof -
  have c: "chain h p xs" "distinct (map fst xs)" using assms by (simp_all add: lst_def)
  obtain p' h' where "remove_loop h p v = Some (Inr (p', h'))" "chain h' p' (remove_first v xs)"
    "dom h' = dom h - (fst ` set xs - fst ` set (remove_first v xs))"
    using remove_loop_spec [OF c, of v] by blast
  then show thesis using remove_first_distinct [OF c(2)] that by (simp add: remove_node_def lst_def)
qed

lemma search_loop_spec: "chain h p xs \<Longrightarrow> search_loop h p v = Some (Inr (if v \<in> snd ` set xs then 1 else 0))"
proof (induction xs arbitrary: p)
  case Nil
  then show ?case by (subst search_loop.simps) simp
next
  case (Cons x xs)
  obtain a w n where "x = (a, w)" "p = a" "a \<noteq> 0" "h a = Some n" "node_data n = w" "chain h (node_next n) xs"
    using Cons.prems by (cases x) auto
  then show ?case using Cons.IH [of "node_next n"] by (subst search_loop.simps) simp
qed

lemma free_loop_spec:
  "chain h p xs \<Longrightarrow> distinct (map fst xs) \<Longrightarrow> \<exists>h'. free_loop h p = Some (Inr (0, h')) \<and> dom h' = dom h - fst ` set xs"
proof (induction xs arbitrary: h p)
  case Nil
  then show ?case by (subst free_loop.simps) simp
next
  case (Cons x xs)
  obtain a w n where x: "x = (a, w)" "p = a" "a \<noteq> 0" "h a = Some n" "chain h (node_next n) xs"
    using Cons.prems by (cases x) auto
  have "chain (h(a := None)) (node_next n) xs" using x Cons.prems chain_upd [of a xs] by simp
  moreover have "distinct (map fst xs)" using Cons.prems by simp
  ultimately obtain h' where "free_loop (h(a := None)) (node_next n) = Some (Inr (0, h'))" "dom h' = dom (h(a := None)) - fst ` set xs"
    using Cons.IH by blast
  then show ?case using x by (subst free_loop.simps) auto
qed

text \<open>
  C37. The pointer operations are the list operations: inserting appends the value, removing takes out the first
  occurrence of the value and frees its node, searching decides membership, and freeing releases exactly the
  nodes of the list. None of them reads through a bad pointer or runs forever.
\<close>

theorem list_operations:
  assumes "lst h p xs" "a \<noteq> 0" "h a = None"
  shows "(\<exists>p' h' ys. insert_node h a p v = Inr (p', h') \<and> lst h' p' ys \<and> map snd ys = map snd xs @ [v] \<and> dom h' = insert a (dom h)) \<and>
    (\<exists>p' h' ys. remove_node h p v = Inr (p', h') \<and> lst h' p' ys \<and> map snd ys = remove1 v (map snd xs) \<and>
       dom h' = dom h - (fst ` set xs - fst ` set ys)) \<and>
    search_by_value h p v = Inr (if v \<in> set (map snd xs) then 1 else 0) \<and>
    (\<exists>h'. free_list h p = Inr (0, h') \<and> dom h' = dom h - fst ` set xs)"
proof -
  have c: "chain h p xs" "distinct (map fst xs)" using assms(1) by (simp_all add: lst_def)
  obtain p' h' where "remove_node h p v = Inr (p', h')" "lst h' p' (remove_first v xs)"
    "dom h' = dom h - (fst ` set xs - fst ` set (remove_first v xs))"
    by (rule remove_node_spec [OF assms(1)])
  then have "\<exists>p' h' ys. remove_node h p v = Inr (p', h') \<and> lst h' p' ys \<and> map snd ys = remove1 v (map snd xs) \<and>
       dom h' = dom h - (fst ` set xs - fst ` set ys)"
    by (intro exI [of _ p'] exI [of _ h'] exI [of _ "remove_first v xs"]) (simp add: remove_first_vals)
  moreover have "\<exists>p' h' ys. insert_node h a p v = Inr (p', h') \<and> lst h' p' ys \<and> map snd ys = map snd xs @ [v] \<and> dom h' = insert a (dom h)"
    by (rule insert_node_spec [OF assms, of v]) (intro exI conjI, assumption+, simp_all)
  moreover have "\<exists>h'. free_list h p = Inr (0, h') \<and> dom h' = dom h - fst ` set xs"
    using free_loop_spec [OF c] by (auto simp: free_list_def)
  ultimately show ?thesis using search_loop_spec [OF c(1), of v] by (simp add: search_by_value_def)
qed

definition demo_heap :: heap where
  "demo_heap = [1 \<mapsto> \<lparr>node_data = 5, node_next = 2\<rparr>, 2 \<mapsto> \<lparr>node_data = 7, node_next = 0\<rparr>]"

lemma demo_heap_lst: "lst demo_heap 1 [(1, 5), (2, 7)]" "demo_heap 3 = None"
  by (simp_all add: lst_def demo_heap_def)

theorem list_operations_witness:
  "\<exists>p' h' ys. remove_node demo_heap 1 5 = Inr (p', h') \<and> lst h' p' ys \<and> map snd ys = [7]"
proof -
  have n: "(3 :: nat) \<noteq> 0" by simp
  have "\<exists>p' h' ys. remove_node demo_heap 1 5 = Inr (p', h') \<and> lst h' p' ys \<and> map snd ys = remove1 5 (map snd [(1 :: nat, 5), (2, 7)]) \<and>
       dom h' = dom demo_heap - (fst ` set [(1, 5 :: int), (2, 7)] - fst ` set ys)"
    by (rule list_operations [OF demo_heap_lst(1) n demo_heap_lst(2), of 5, THEN conjunct2, THEN conjunct1])
  moreover have "remove1 5 (map snd [(1 :: nat, 5), (2, 7)]) = [7 :: int]" by simp
  ultimately show ?thesis by metis
qed

end
