(* ===== verification/Conc_Prog.thy ===== *)
theory Conc_Prog
  imports Conc_Sem Conc_List
begin

text \<open>
  The searchers, inserters and deleters of a list (\<open>concurrency3/list.c\<close>) as step functions: every read or
  write of the shared list and every semaphore operation is a step of its own, so that searchers walk along
  the list while an inserter appends to it. The loops of \<open>search_by_value\<close>, \<open>insert_node\<close> and \<open>print_list\<close>
  (\<open>concurrency3/lib.c\<close>) appear as program locations with the loop cursor. Only \<open>remove_node\<close> is one step;
  the deleter is shown to be alone then. Reading through an address that holds no node sets \<open>crashed\<close>.
\<close>

section \<open>The program\<close>

definition NUM_SEARCHERS :: nat where "NUM_SEARCHERS = 12"
definition NUM_INSERTERS :: nat where "NUM_INSERTERS = 4"
definition NUM_DELETERS :: nat where "NUM_DELETERS = 2"

text \<open>
  The locations. The numbers of \<open>I_*\<close> are the loop counter, then (where they are known) the value, the head
  of the list, the cursor and the new node; the last argument of \<open>Print*\<close> is where the caller goes on.
\<close>

datatype list_pc = S_wait | S_call | S_data int nat | S_next int nat | S_post
  | I_wait | I_loop nat | I_call nat int | I_walk nat int nat nat | I_next nat int nat nat | I_create nat int nat nat
  | I_link nat nat nat nat | I_store nat nat | I_post
  | D_wait | D_reads nat | D_remove | D_posts nat | D_post
  | Print_call list_pc | Print nat list_pc | Print_next nat list_pc | Done

record list_env =
  rand100 :: "nat \<Rightarrow> list_pc \<Rightarrow> int"
  malloc :: "heap \<Rightarrow> nat"

record list_state =
  read_sem :: int
  write_sem :: int
  pc :: "nat \<Rightarrow> list_pc"
  nodes_heap :: heap
  list_head :: nat
  crashed :: bool

definition list_goto :: "nat \<Rightarrow> list_pc \<Rightarrow> list_state \<Rightarrow> list_state" where
  "list_goto t p s = s\<lparr>pc := (pc s)(t := p)\<rparr>"

definition crash :: "nat \<Rightarrow> list_state \<Rightarrow> list_state" where
  "crash t s = s\<lparr>crashed := True\<rparr>"

definition deref :: "nat \<Rightarrow> nat \<Rightarrow> (node \<Rightarrow> list_pc) \<Rightarrow> list_state \<Rightarrow> list_state" where
  "deref t p f s = (case nodes_heap s p of None \<Rightarrow> crash t s | Some n \<Rightarrow> list_goto t (f n) s)"

definition print_list :: "nat \<Rightarrow> list_state \<Rightarrow> list_state option" where
  "print_list t s = (case pc s t of
       Print_call c \<Rightarrow> Some (list_goto t (Print (list_head s) c) s)
     | Print current c \<Rightarrow> Some (if current = 0 then list_goto t c s else deref t current (\<lambda>n. Print_next current c) s)
     | Print_next current c \<Rightarrow> Some (deref t current (\<lambda>n. Print (node_next n) c) s)
     | _ \<Rightarrow> None)"

definition searcher :: "list_env \<Rightarrow> nat \<Rightarrow> list_state \<Rightarrow> list_state option" where
  "searcher e t s = (case pc s t of
       S_wait \<Rightarrow> map_option (\<lambda>v. list_goto t S_call (s\<lparr>read_sem := v\<rparr>)) (sem_wait (read_sem s))
     | S_call \<Rightarrow> Some (list_goto t (S_data (rand100 e t S_call) (list_head s)) s)
     | S_data val temp \<Rightarrow> Some (if temp = 0 then list_goto t (Print_call S_post) s
         else deref t temp (\<lambda>n. if node_data n = val then Print_call S_post else S_next val temp) s)
     | S_next val temp \<Rightarrow> Some (deref t temp (\<lambda>n. S_data val (node_next n)) s)
     | S_post \<Rightarrow> Some (list_goto t Done (s\<lparr>read_sem := sem_post (read_sem s)\<rparr>))
     | _ \<Rightarrow> print_list t s)"

definition inserter :: "list_env \<Rightarrow> nat \<Rightarrow> list_state \<Rightarrow> list_state option" where
  "inserter e t s = (case pc s t of
       I_wait \<Rightarrow> map_option (\<lambda>v. list_goto t (I_loop 0) (s\<lparr>write_sem := v\<rparr>)) (sem_wait (write_sem s))
     | I_loop k \<Rightarrow> Some (if k < 5 then list_goto t (I_call k (rand100 e t (I_loop k))) s else list_goto t I_post s)
     | I_call k val \<Rightarrow> Some (if list_head s = 0 then list_goto t (I_create k val 0 0) s
         else list_goto t (I_walk k val (list_head s) (list_head s)) s)
     | I_walk k val head temp \<Rightarrow>
         Some (deref t temp (\<lambda>n. if node_next n \<noteq> 0 then I_next k val head temp else I_create k val head temp) s)
     | I_next k val head temp \<Rightarrow> Some (deref t temp (\<lambda>n. I_walk k val head (node_next n)) s)
     | I_create k val head temp \<Rightarrow> Some (case create_node (nodes_heap s) (malloc e (nodes_heap s)) val of
           Inl _ \<Rightarrow> crash t s
         | Inr (a, h) \<Rightarrow> list_goto t (I_link k head temp a) (s\<lparr>nodes_heap := h\<rparr>))
     | I_link k head temp a \<Rightarrow> Some (if head = 0 then list_goto t (I_store k a) s
         else case nodes_heap s temp of None \<Rightarrow> crash t s
           | Some n \<Rightarrow> list_goto t (I_store k head) (s\<lparr>nodes_heap := (nodes_heap s)(temp \<mapsto> n\<lparr>node_next := a\<rparr>)\<rparr>))
     | I_store k head \<Rightarrow> Some (list_goto t (Print_call (I_loop (Suc k))) (s\<lparr>list_head := head\<rparr>))
     | I_post \<Rightarrow> Some (list_goto t Done (s\<lparr>write_sem := sem_post (write_sem s)\<rparr>))
     | _ \<Rightarrow> print_list t s)"

definition deleter :: "list_env \<Rightarrow> nat \<Rightarrow> list_state \<Rightarrow> list_state option" where
  "deleter e t s = (case pc s t of
       D_wait \<Rightarrow> map_option (\<lambda>v. list_goto t (D_reads 0) (s\<lparr>write_sem := v\<rparr>)) (sem_wait (write_sem s))
     | D_reads k \<Rightarrow> if k < NUM_SEARCHERS
         then map_option (\<lambda>v. list_goto t (D_reads (Suc k)) (s\<lparr>read_sem := v\<rparr>)) (sem_wait (read_sem s))
         else Some (list_goto t D_remove s)
     | D_remove \<Rightarrow> Some (case remove_node (nodes_heap s) (list_head s) (rand100 e t D_wait) of
           Inl _ \<Rightarrow> crash t s
         | Inr (p, h) \<Rightarrow> list_goto t (Print_call (D_posts 0)) (s\<lparr>list_head := p, nodes_heap := h\<rparr>))
     | D_posts k \<Rightarrow> Some (if k < NUM_SEARCHERS
         then list_goto t (D_posts (Suc k)) (s\<lparr>read_sem := sem_post (read_sem s)\<rparr>)
         else list_goto t D_post s)
     | D_post \<Rightarrow> Some (list_goto t Done (s\<lparr>write_sem := sem_post (write_sem s)\<rparr>))
     | _ \<Rightarrow> print_list t s)"

definition list_step :: "list_env \<Rightarrow> nat \<Rightarrow> list_state \<Rightarrow> list_state option" where
  "list_step e t s =
     (if t < NUM_SEARCHERS then searcher e t s
      else if t < NUM_SEARCHERS + NUM_INSERTERS then inserter e t s
      else deleter e t s)"

definition list_init :: list_state where
  "list_init = \<lparr>read_sem = int NUM_SEARCHERS, write_sem = 1,
     pc = (\<lambda>t. if t < NUM_SEARCHERS then S_wait else if t < NUM_SEARCHERS + NUM_INSERTERS then I_wait else D_wait),
     nodes_heap = Map.empty, list_head = 0, crashed = False\<rparr>"

abbreviation list_threads :: "nat set" where
  "list_threads \<equiv> {..<NUM_SEARCHERS + NUM_INSERTERS + NUM_DELETERS}"

section \<open>The semaphores\<close>

fun pc_reads :: "list_pc \<Rightarrow> nat" where
  "pc_reads S_call = 1" | "pc_reads (S_data _ _) = 1" | "pc_reads (S_next _ _) = 1" | "pc_reads S_post = 1"
| "pc_reads (D_reads k) = min k NUM_SEARCHERS" | "pc_reads D_remove = NUM_SEARCHERS" | "pc_reads (D_posts k) = NUM_SEARCHERS - k"
| "pc_reads (Print_call c) = pc_reads c" | "pc_reads (Print _ c) = pc_reads c" | "pc_reads (Print_next _ c) = pc_reads c"
| "pc_reads _ = 0"

fun pc_writes :: "list_pc \<Rightarrow> nat" where
  "pc_writes (I_loop _) = 1" | "pc_writes (I_call _ _) = 1" | "pc_writes (I_walk _ _ _ _) = 1" | "pc_writes (I_next _ _ _ _) = 1"
| "pc_writes (I_create _ _ _ _) = 1" | "pc_writes (I_link _ _ _ _) = 1" | "pc_writes (I_store _ _) = 1" | "pc_writes I_post = 1"
| "pc_writes (D_reads _) = 1" | "pc_writes D_remove = 1" | "pc_writes (D_posts _) = 1" | "pc_writes D_post = 1"
| "pc_writes (Print_call c) = pc_writes c" | "pc_writes (Print _ c) = pc_writes c" | "pc_writes (Print_next _ c) = pc_writes c"
| "pc_writes _ = 0"

text \<open>The units of the two semaphores that a thread holds.\<close>

definition reads :: "list_state \<Rightarrow> nat \<Rightarrow> nat" where "reads s t = pc_reads (pc s t)"
definition writes :: "list_state \<Rightarrow> nat \<Rightarrow> nat" where "writes s t = pc_writes (pc s t)"

lemmas list_step_defs = list_step_def searcher_def inserter_def deleter_def print_list_def deref_def crash_def list_goto_def

lemma list_step_others: "list_step e t s = Some s' \<Longrightarrow> u \<noteq> t \<Longrightarrow> pc s' u = pc s u"
  by (cases "pc s t") (auto simp: list_step_defs split: if_splits sum.splits option.splits)

lemma list_step_reads:
  "list_step e t s = Some s' \<Longrightarrow> 0 \<le> read_sem s \<Longrightarrow> 0 \<le> read_sem s' \<and> read_sem s' + int (reads s' t) = read_sem s + int (reads s t)"
  by (cases "pc s t") (auto simp: list_step_defs reads_def sem_wait_Some sem_post_def split: if_splits sum.splits option.splits)

lemma list_step_writes:
  "list_step e t s = Some s' \<Longrightarrow> 0 \<le> write_sem s \<Longrightarrow> 0 \<le> write_sem s' \<and> write_sem s' + int (writes s' t) = write_sem s + int (writes s t)"
  by (cases "pc s t") (auto simp: list_step_defs writes_def sem_wait_Some sem_post_def split: if_splits sum.splits option.splits)

lemma list_init_held: "reads list_init t = 0" "writes list_init t = 0" "read_sem list_init = int NUM_SEARCHERS" "write_sem list_init = 1"
  by (simp_all add: list_init_def reads_def writes_def)

lemma list_held_others: "list_step e t s = Some s' \<Longrightarrow> u \<noteq> t \<Longrightarrow> reads s' u = reads s u \<and> writes s' u = writes s u"
  by (simp add: list_step_others reads_def writes_def)

interpretation rd: semaphore "list_step e" read_sem reads list_threads list_init NUM_SEARCHERS for e
  by unfold_locales (simp_all add: list_init_held list_step_reads list_held_others)

interpretation wr: semaphore "list_step e" write_sem writes list_threads list_init 1 for e
  by unfold_locales (simp_all add: list_init_held list_step_writes list_held_others)

section \<open>Walking along a list\<close>

text \<open>
  \<open>addrs\<close> are the addresses of the first nodes of a list, \<open>ahead\<close> the number of reads that a walk from a
  node needs at most: two per node, and there are never more than 20 nodes.
\<close>

definition max_nodes :: nat where "max_nodes = 5 * NUM_INSERTERS"

fun addrs :: "heap \<Rightarrow> nat \<Rightarrow> nat \<Rightarrow> nat list" where
  "addrs h 0 p = []"
| "addrs h (Suc n) p = (case h p of None \<Rightarrow> [] | Some m \<Rightarrow> if p = 0 then [] else p # addrs h n (node_next m))"

definition ahead :: "nat list \<Rightarrow> nat \<Rightarrow> nat" where
  "ahead as p = (if p = 0 then 0 else 2 * (max_nodes - length (takeWhile (\<lambda>a. a \<noteq> p) as)))"

lemma addrs_chain: "chain h p xs \<Longrightarrow> length xs \<le> n \<Longrightarrow> addrs h n p = map fst xs"
proof (induction xs arbitrary: p n)
  case Nil
  then show ?case by (cases n) (auto split: option.splits)
next
  case (Cons x xs)
  then show ?case by (cases x; cases n) auto
qed

lemma chain_next:
  assumes "chain h q xs" "distinct (map fst xs)" "p \<in> fst ` set xs" "h p = Some n"
  shows "node_next n = 0 \<and> p = fst (last xs) \<or> node_next n \<noteq> 0 \<and> node_next n \<in> fst ` set xs \<and>
    length (takeWhile (\<lambda>a. a \<noteq> node_next n) (map fst xs)) = Suc (length (takeWhile (\<lambda>a. a \<noteq> p) (map fst xs)))"
  using assms(1-3)
proof (induction xs arbitrary: q)
  case (Cons x xs)
  obtain a v m where x: "x = (a, v)" "h a = Some m" "chain h (node_next m) xs" using Cons.prems by (cases x) auto
  note d = Cons.prems(2)
  show ?case
  proof (cases "p = a")
    case True
    then have nm: "m = n" using assms(4) x by simp
    show ?thesis
    proof (cases xs)
      case Nil
      then show ?thesis using x True nm by simp
    next
      case (Cons y ys)
      then show ?thesis using x True nm d by (cases y) auto
    qed
  next
    case False
    then have p: "p \<in> fst ` set xs" "xs \<noteq> []" using Cons.prems x by auto
    have a: "a \<notin> fst ` set xs" using Cons.prems x by simp
    show ?thesis using Cons.IH [OF x(3)] Cons.prems p x False a by auto
  qed
qed simp

lemma takeWhile_less: "a \<in> set as \<Longrightarrow> length (takeWhile (\<lambda>b. b \<noteq> a) as) < length as"
  by (induction as) auto

lemma ahead_next:
  assumes "lst h q xs" "length xs \<le> max_nodes" "p \<in> fst ` set xs" "h p = Some n"
  shows "ahead (map fst xs) (node_next n) + 2 \<le> ahead (map fst xs) p"
proof -
  have p: "p \<noteq> 0" using chain_addrs assms(1, 3) by (fastforce simp: lst_def)
  show ?thesis
    using chain_next [of h q xs p n] assms p takeWhile_less [of p "map fst xs"] takeWhile_less [of "node_next n" "map fst xs"]
    by (auto simp: lst_def ahead_def)
qed

lemma ahead_append: "p \<in> set as \<Longrightarrow> ahead (as @ bs) p = ahead as p"
  by (simp add: ahead_def takeWhile_append1)

lemma ahead_le: "ahead as p \<le> 2 * max_nodes"
  by (simp add: ahead_def)

section \<open>What holds at each location\<close>

definition cursor :: "(nat \<times> int) list \<Rightarrow> nat \<Rightarrow> bool" where
  "cursor xs p \<longleftrightarrow> p = 0 \<or> p \<in> fst ` set xs"

definition append_at :: "nat \<Rightarrow> (nat \<times> int) list \<Rightarrow> nat \<Rightarrow> nat \<Rightarrow> bool" where
  "append_at lh xs head temp \<longleftrightarrow> head = lh \<and> (head \<noteq> 0 \<longrightarrow> xs \<noteq> [] \<and> temp = fst (last xs))"

text \<open>The pointers of a thread: its cursor is on the list, and only an inserter knows a node that is not yet linked.\<close>

fun local_ok :: "heap \<Rightarrow> nat \<Rightarrow> (nat \<times> int) list \<Rightarrow> list_pc \<Rightarrow> bool" where
  "local_ok h lh xs (S_data _ p) \<longleftrightarrow> cursor xs p"
| "local_ok h lh xs (S_next _ p) \<longleftrightarrow> p \<in> fst ` set xs"
| "local_ok h lh xs (I_walk _ _ head temp) \<longleftrightarrow> head = lh \<and> head \<noteq> 0 \<and> temp \<in> fst ` set xs"
| "local_ok h lh xs (I_next _ _ head temp) \<longleftrightarrow> head = lh \<and> head \<noteq> 0 \<and> temp \<in> fst ` set xs \<and> (\<forall>n. h temp = Some n \<longrightarrow> node_next n \<noteq> 0)"
| "local_ok h lh xs (I_create _ _ head temp) \<longleftrightarrow> append_at lh xs head temp"
| "local_ok h lh xs (I_link _ head temp a) \<longleftrightarrow> append_at lh xs head temp \<and> a \<noteq> 0 \<and> a \<notin> fst ` set xs \<and> (\<exists>n. h a = Some n \<and> node_next n = 0)"
| "local_ok h lh xs (I_store _ p) \<longleftrightarrow> (if lh = 0 then p \<noteq> 0 \<and> (\<exists>n. h p = Some n \<and> node_next n = 0) else p = lh)"
| "local_ok h lh xs (Print p _) \<longleftrightarrow> cursor xs p"
| "local_ok h lh xs (Print_next p _) \<longleftrightarrow> p \<in> fst ` set xs"
| "local_ok h lh xs _ \<longleftrightarrow> True"

text \<open>The nodes that a thread has created and not linked, and the number of nodes that it is still to link.\<close>

fun unlinked :: "nat \<Rightarrow> list_pc \<Rightarrow> nat set" where
  "unlinked lh (I_link _ _ _ a) = {a}"
| "unlinked lh (I_store _ p) = (if lh = 0 then {p} else {})"
| "unlinked lh _ = {}"

fun to_link :: "nat \<Rightarrow> list_pc \<Rightarrow> nat" where
  "to_link lh I_wait = 5" | "to_link lh (I_loop k) = 5 - k" | "to_link lh (I_call k _) = 5 - k"
| "to_link lh (I_walk k _ _ _) = 5 - k" | "to_link lh (I_next k _ _ _) = 5 - k" | "to_link lh (I_create k _ _ _) = 5 - k"
| "to_link lh (I_link k _ _ _) = 5 - k" | "to_link lh (I_store k _) = (if lh = 0 then 5 - k else 4 - k)"
| "to_link lh (Print_call c) = to_link lh c" | "to_link lh (Print _ c) = to_link lh c" | "to_link lh (Print_next _ c) = to_link lh c"
| "to_link lh _ = 0"

text \<open>Every thread stays in the part of the program that it runs.\<close>

definition after_print :: "list_pc \<Rightarrow> bool" where
  "after_print c \<longleftrightarrow> c = S_post \<or> (\<exists>k \<le> 5. c = I_loop k) \<or> c = D_posts 0"

fun role :: "nat \<Rightarrow> list_pc \<Rightarrow> bool" where
  "role t (Print_call c) \<longleftrightarrow> after_print c \<and> role t c"
| "role t (Print _ c) \<longleftrightarrow> after_print c \<and> role t c"
| "role t (Print_next _ c) \<longleftrightarrow> after_print c \<and> role t c"
| "role t Done \<longleftrightarrow> True"
| "role t c \<longleftrightarrow> (case c of
       S_wait \<Rightarrow> t < NUM_SEARCHERS | S_call \<Rightarrow> t < NUM_SEARCHERS | S_data _ _ \<Rightarrow> t < NUM_SEARCHERS | S_next _ _ \<Rightarrow> t < NUM_SEARCHERS
     | S_post \<Rightarrow> t < NUM_SEARCHERS
     | D_wait \<Rightarrow> NUM_SEARCHERS + NUM_INSERTERS \<le> t | D_reads _ \<Rightarrow> NUM_SEARCHERS + NUM_INSERTERS \<le> t
     | D_remove \<Rightarrow> NUM_SEARCHERS + NUM_INSERTERS \<le> t | D_posts _ \<Rightarrow> NUM_SEARCHERS + NUM_INSERTERS \<le> t
     | D_post \<Rightarrow> NUM_SEARCHERS + NUM_INSERTERS \<le> t
     | _ \<Rightarrow> NUM_SEARCHERS \<le> t \<and> t < NUM_SEARCHERS + NUM_INSERTERS \<and>
         (case c of I_loop k \<Rightarrow> k \<le> 5 | I_call k _ \<Rightarrow> k < 5 | I_walk k _ _ _ \<Rightarrow> k < 5 | I_next k _ _ _ \<Rightarrow> k < 5 | I_create k _ _ _ \<Rightarrow> k < 5
          | I_link k _ _ _ \<Rightarrow> k < 5 | I_store k _ \<Rightarrow> k < 5 | _ \<Rightarrow> True))"

text \<open>The steps that a thread still has to do, given the length of a walk.\<close>

fun rank :: "(nat \<Rightarrow> nat) \<Rightarrow> list_pc \<Rightarrow> nat" where
  "rank w S_wait = 90" | "rank w S_call = 86" | "rank w (S_data _ p) = 44 + w p" | "rank w (S_next _ p) = 43 + w p" | "rank w S_post = 1"
| "rank w I_wait = 600" | "rank w (I_loop k) = 2 + (5 - k) * 100" | "rank w (I_call k _) = 1 + (5 - k) * 100"
| "rank w (I_walk k _ _ p) = (4 - k) * 100 + 50 + w p" | "rank w (I_next k _ _ p) = (4 - k) * 100 + 49 + w p"
| "rank w (I_create k _ _ _) = (4 - k) * 100 + 48" | "rank w (I_link k _ _ _) = (4 - k) * 100 + 47" | "rank w (I_store k _) = (4 - k) * 100 + 46"
| "rank w I_post = 1"
| "rank w D_wait = 200" | "rank w (D_reads k) = 100 + (NUM_SEARCHERS - k)" | "rank w D_remove = 70" | "rank w (D_posts k) = 2 + (NUM_SEARCHERS - k)"
| "rank w D_post = 1"
| "rank w (Print_call c) = rank w c + 42" | "rank w (Print p c) = rank w c + 1 + w p" | "rank w (Print_next p c) = rank w c + w p"
| "rank w Done = 0"

definition list_work :: "list_state \<Rightarrow> nat" where
  "list_work s = (\<Sum>t \<in> list_threads. rank (ahead (addrs (nodes_heap s) max_nodes (list_head s))) (pc s t))"

definition list_inv :: "list_state \<Rightarrow> (nat \<times> int) list \<Rightarrow> bool" where
  "list_inv s xs \<longleftrightarrow> \<not> crashed s \<and> lst (nodes_heap s) (list_head s) xs \<and>
     dom (nodes_heap s) = fst ` set xs \<union> (\<Union>t \<in> list_threads. unlinked (list_head s) (pc s t)) \<and>
     (\<forall>t \<in> list_threads. role t (pc s t) \<and> local_ok (nodes_heap s) (list_head s) xs (pc s t)) \<and>
     length xs + (\<Sum>t \<in> list_threads. to_link (list_head s) (pc s t)) \<le> max_nodes"

definition malloc_ok :: "list_env \<Rightarrow> bool" where
  "malloc_ok e \<longleftrightarrow> (\<forall>h. finite (dom h) \<longrightarrow> malloc e h \<noteq> 0 \<and> h (malloc e h) = None)"

text \<open>Threads that hold no unit of \<open>write_sem\<close> do not notice that the list grows; threads that hold nothing know nothing of it.\<close>

lemma no_write:
  assumes "pc_writes c = 0"
  shows "unlinked lh c = {}" "to_link lh' c = to_link lh c"
  using assms by (induction c) simp_all

lemma no_write_local:
  assumes "pc_writes c = 0" "local_ok h lh xs c" "fst ` set xs \<subseteq> fst ` set ys"
  shows "local_ok h' lh' ys c"
  using assms by (cases c) (simp_all add: cursor_def subset_iff, blast+)

lemma no_hold_local:
  assumes "pc_writes c = 0" "pc_reads c = 0" "role t c"
  shows "local_ok h lh xs c" "rank w' c = rank w c"
  using assms by (cases c; auto simp: after_print_def NUM_SEARCHERS_def)+

lemma after_print_rank: "after_print c \<Longrightarrow> rank w' c = rank w c"
  by (auto simp: after_print_def)

lemma rank_cong:
  assumes "local_ok h lh xs c" "role t c" "\<And>p. cursor xs p \<Longrightarrow> w' p = w p"
  shows "rank w' c = rank w c"
  using assms after_print_rank [of _ w' w] by (cases c) (auto simp: cursor_def after_print_def)

section \<open>Every step keeps the invariant\<close>

lemma UN_remove: "t \<in> A \<Longrightarrow> (\<Union>u \<in> A. f u) = f t \<union> (\<Union>u \<in> A - {t}. f u)"
  by blast

text \<open>
  A step of thread \<open>t\<close> to location \<open>c\<close>: what has to be shown for \<open>t\<close> and for the others, and that the work
  gets less when the rank of \<open>t\<close> does and the walks of the others stay as long as they are.
\<close>

lemma list_inv_step:
  assumes i: "list_inv s xs" and t: "t \<in> list_threads" and p: "pc s' = (pc s)(t := c)"
    and s': "\<not> crashed s'" "lst (nodes_heap s') (list_head s') ys"
    and c: "role t c" "local_ok (nodes_heap s') (list_head s') ys c"
    and o: "\<And>u. u \<in> list_threads \<Longrightarrow> u \<noteq> t \<Longrightarrow> local_ok (nodes_heap s') (list_head s') ys (pc s u) \<and>
        unlinked (list_head s') (pc s u) = unlinked (list_head s) (pc s u) \<and> to_link (list_head s') (pc s u) = to_link (list_head s) (pc s u)"
    and d: "dom (nodes_heap s') = fst ` set ys \<union> (\<Union>u \<in> list_threads - {t}. unlinked (list_head s) (pc s u)) \<union> unlinked (list_head s') c"
    and l: "length ys + to_link (list_head s') c \<le> length xs + to_link (list_head s) (pc s t)"
  shows "list_inv s' ys"
proof -
  have "(\<Sum>u \<in> list_threads. to_link (list_head s') (pc s' u)) = to_link (list_head s') c + (\<Sum>u \<in> list_threads - {t}. to_link (list_head s) (pc s u))"
    using o p t by (simp add: sum.remove [of list_threads t])
  moreover have "(\<Sum>u \<in> list_threads. to_link (list_head s) (pc s u)) = to_link (list_head s) (pc s t) + (\<Sum>u \<in> list_threads - {t}. to_link (list_head s) (pc s u))"
    using t by (simp add: sum.remove [of list_threads t])
  moreover have "(\<Union>u \<in> list_threads. unlinked (list_head s') (pc s' u)) =
      unlinked (list_head s') c \<union> (\<Union>u \<in> list_threads - {t}. unlinked (list_head s) (pc s u))"
    unfolding UN_remove [OF t] using o p by simp
  moreover have "role u (pc s' u) \<and> local_ok (nodes_heap s') (list_head s') ys (pc s' u)" if "u \<in> list_threads" for u
    using c o [OF that] i that by (cases "u = t") (auto simp: p list_inv_def)
  ultimately show ?thesis using s' d l i by (auto simp: list_inv_def)
qed

lemma list_inv_walk:
  assumes "list_inv s xs"
  shows "ahead (addrs (nodes_heap s) max_nodes (list_head s)) = ahead (map fst xs)" "length xs \<le> max_nodes"
  using assms addrs_chain [of "nodes_heap s" "list_head s" xs max_nodes] by (simp_all add: list_inv_def lst_def)

lemma list_work_step:
  assumes i: "list_inv s xs" "list_inv s' ys" and t: "t \<in> list_threads" and p: "pc s' = (pc s)(t := c)"
    and r: "rank (ahead (map fst ys)) c < rank (ahead (map fst xs)) (pc s t)"
    and o: "\<And>u. u \<in> list_threads \<Longrightarrow> u \<noteq> t \<Longrightarrow> rank (ahead (map fst ys)) (pc s u) = rank (ahead (map fst xs)) (pc s u)"
  shows "list_work s' < list_work s"
  using t p r o list_inv_walk(1) [OF i(1)] list_inv_walk(1) [OF i(2)]
  by (simp add: list_work_def sum.remove [of list_threads t])

lemma list_inv_at: "list_inv s xs \<Longrightarrow> t \<in> list_threads \<Longrightarrow> role t (pc s t) \<and> local_ok (nodes_heap s) (list_head s) xs (pc s t)"
  by (simp add: list_inv_def)

text \<open>Steps that leave the list and the heap alone.\<close>

lemma list_quiet_step:
  assumes i: "list_inv s xs" and t: "t \<in> list_threads" and p: "pc s' = (pc s)(t := c)"
    and s': "crashed s' = crashed s" "nodes_heap s' = nodes_heap s" "list_head s' = list_head s"
    and c: "role t c" "local_ok (nodes_heap s) (list_head s) xs c"
    and u: "unlinked (list_head s) c = unlinked (list_head s) (pc s t)" "to_link (list_head s) c \<le> to_link (list_head s) (pc s t)"
    and r: "rank (ahead (map fst xs)) c < rank (ahead (map fst xs)) (pc s t)"
  shows "\<exists>ys. list_inv s' ys \<and> list_work s' < list_work s"
proof -
  have "dom (nodes_heap s) = fst ` set xs \<union> (\<Union>u \<in> list_threads - {t}. unlinked (list_head s) (pc s u)) \<union> unlinked (list_head s) c"
    using i UN_remove [OF t, of "\<lambda>v. unlinked (list_head s) (pc s v)"] by (simp add: list_inv_def u Un_ac)
  then have "list_inv s' xs" by (intro list_inv_step [OF i t p]) (use i s' c u in \<open>auto simp: list_inv_def\<close>)
  then show ?thesis using list_work_step [OF i _ t p r] by blast
qed

text \<open>Steps of the holder of \<open>write_sem\<close> that make the list or the heap grow.\<close>

lemma list_grow_step:
  assumes i: "list_inv s xs" and t: "t \<in> list_threads" and p: "pc s' = (pc s)(t := c)"
    and w: "\<And>u. u \<in> list_threads \<Longrightarrow> u \<noteq> t \<Longrightarrow> writes s u = 0"
    and s': "\<not> crashed s'" "lst (nodes_heap s') (list_head s') (xs @ zs)"
    and c: "role t c" "local_ok (nodes_heap s') (list_head s') (xs @ zs) c"
    and d: "dom (nodes_heap s') = fst ` set (xs @ zs) \<union> unlinked (list_head s') c"
    and l: "length zs + to_link (list_head s') c \<le> to_link (list_head s) (pc s t)"
    and r: "rank (ahead (map fst (xs @ zs))) c < rank (ahead (map fst xs)) (pc s t)"
  shows "\<exists>ys. list_inv s' ys \<and> list_work s' < list_work s"
proof -
  have w0: "pc_writes (pc s u) = 0" if "u \<in> list_threads" "u \<noteq> t" for u using w [OF that] by (simp add: writes_def)
  have lo: "role u (pc s u) \<and> local_ok (nodes_heap s) (list_head s) xs (pc s u)" if "u \<in> list_threads" for u using i that by (simp add: list_inv_def)
  have n: "(\<Union>u \<in> list_threads - {t}. unlinked (list_head s) (pc s u)) = {}" using no_write(1) [OF w0] by simp
  have i': "list_inv s' (xs @ zs)"
  proof (rule list_inv_step [OF i t p s' c])
    fix u
    assume u: "u \<in> list_threads" "u \<noteq> t"
    have "local_ok (nodes_heap s') (list_head s') (xs @ zs) (pc s u)"
      by (rule no_write_local [OF w0 [OF u] conjunct2 [OF lo [OF u(1)]]]) auto
    then show "local_ok (nodes_heap s') (list_head s') (xs @ zs) (pc s u) \<and> unlinked (list_head s') (pc s u) = unlinked (list_head s) (pc s u) \<and>
        to_link (list_head s') (pc s u) = to_link (list_head s) (pc s u)"
      using no_write [OF w0 [OF u]] by blast
  qed (use d l n in simp_all)
  have "rank (ahead (map fst (xs @ zs))) (pc s u) = rank (ahead (map fst xs)) (pc s u)" if "u \<in> list_threads" "u \<noteq> t" for u
  proof (rule rank_cong [OF conjunct2 [OF lo [OF that(1)]] conjunct1 [OF lo [OF that(1)]]])
    fix q
    assume "cursor xs q"
    then show "ahead (map fst (xs @ zs)) q = ahead (map fst xs) q"
      using ahead_append [of q "map fst xs" "map fst zs"] by (cases "q = 0") (simp_all add: cursor_def ahead_def)
  qed
  then show ?thesis using list_work_step [OF i i' t p r] i' by blast
qed

lemma list_remove_step:
  assumes i: "list_inv s xs" and t: "t \<in> list_threads" and pc: "pc s t = D_remove"
    and w: "\<And>u. u \<in> list_threads \<Longrightarrow> u \<noteq> t \<Longrightarrow> writes s u = 0 \<and> reads s u = 0"
    and r: "remove_node (nodes_heap s) (list_head s) v = Inr (p', h')"
    and s': "s' = list_goto t (Print_call (D_posts 0)) (s\<lparr>list_head := p', nodes_heap := h'\<rparr>)"
  shows "\<exists>ys. list_inv s' ys \<and> list_work s' < list_work s"
proof -
  have l: "lst (nodes_heap s) (list_head s) xs" using i by (simp add: list_inv_def)
  have h: "lst h' p' (remove_first v xs)" "dom h' = dom (nodes_heap s) - (fst ` set xs - fst ` set (remove_first v xs))"
    by (rule remove_node_spec [OF l, of v], use r in simp)+
  have p: "pc s' = (pc s)(t := Print_call (D_posts 0))" by (simp add: s' list_goto_def)
  have z: "pc_writes (pc s u) = 0" "pc_reads (pc s u) = 0" "role u (pc s u)" if "u \<in> list_threads" "u \<noteq> t" for u
    using w [OF that] i that by (simp_all add: writes_def reads_def list_inv_def)
  have n: "(\<Union>u \<in> list_threads - {t}. unlinked (list_head s) (pc s u)) = {}" using no_write(1) [OF z(1)] by simp
  moreover have "(\<Union>u \<in> list_threads. unlinked (list_head s) (pc s u)) = {}"
    unfolding UN_remove [OF t] using n pc by simp
  then have "dom h' = fst ` set (remove_first v xs)"
    using h(2) i double_diff [OF image_mono [OF remove_first_subset] subset_refl] by (simp add: list_inv_def)
  moreover have "length (remove_first v xs) \<le> length xs" by (induction v xs rule: remove_first.induct) auto
  moreover have "role t D_remove" using list_inv_at [OF i t] unfolding pc by simp
  ultimately have i': "list_inv s' (remove_first v xs)"
    by (intro list_inv_step [OF i t p]) (use i h(1) no_hold_local(1) [OF z] no_write [OF z(1)] in \<open>auto simp: list_inv_def s' list_goto_def after_print_def pc\<close>)
  show ?thesis using list_work_step [OF i i' t p] i' no_hold_local(2) [OF z] by (auto simp: pc NUM_SEARCHERS_def)
qed

text \<open>The reads of a walking thread find their nodes.\<close>

lemma list_inv_deref:
  assumes "list_inv s xs" "p \<in> fst ` set xs"
  obtains n where "nodes_heap s p = Some n" "cursor xs (node_next n)" "p \<noteq> 0"
    "ahead (map fst xs) (node_next n) + 2 \<le> ahead (map fst xs) p" "node_next n = 0 \<longrightarrow> p = fst (last xs)" "xs \<noteq> []"
proof -
  have l: "lst (nodes_heap s) (list_head s) xs" using assms by (simp add: list_inv_def)
  then have p: "p \<in> dom (nodes_heap s) - {0}" using chain_addrs [of "nodes_heap s" "list_head s" xs] assms(2) by (auto simp: lst_def)
  then obtain n where n: "nodes_heap s p = Some n" by blast
  have x: "cursor xs (node_next n)" "node_next n = 0 \<longrightarrow> p = fst (last xs)"
    using chain_next [of "nodes_heap s" "list_head s" xs p n] l assms(2) n by (auto simp: lst_def cursor_def)
  have "xs \<noteq> []" "p \<noteq> 0" using assms(2) p by auto
  then show thesis using that [OF n x(1) _ ahead_next [OF l list_inv_walk(2) [OF assms(1)] assms(2) n] x(2)] by simp
qed

lemma list_inv_head:
  assumes "list_inv s xs"
  shows "cursor xs (list_head s)" "list_head s = 0 \<longleftrightarrow> xs = []"
  using assms by (cases xs; auto simp: list_inv_def lst_def cursor_def)+

definition quiet_to :: "list_state \<Rightarrow> (nat \<times> int) list \<Rightarrow> nat \<Rightarrow> list_pc \<Rightarrow> bool" where
  "quiet_to s xs t c \<longleftrightarrow> role t c \<and> local_ok (nodes_heap s) (list_head s) xs c \<and>
     unlinked (list_head s) c = unlinked (list_head s) (pc s t) \<and> to_link (list_head s) c \<le> to_link (list_head s) (pc s t) \<and>
     rank (ahead (map fst xs)) c < rank (ahead (map fst xs)) (pc s t)"

lemma quiet_to_step:
  assumes "list_inv s xs" "t \<in> list_threads" "quiet_to s xs t c" "pc s' = (pc s)(t := c)" "crashed s' = crashed s" "nodes_heap s' = nodes_heap s"
    "list_head s' = list_head s"
  shows "\<exists>ys. list_inv s' ys \<and> list_work s' < list_work s"
  using assms(3) by (intro list_quiet_step [OF assms(1, 2, 4-7)]) (simp_all add: quiet_to_def)

lemma print_quiet:
  assumes i: "list_inv s xs" and t: "t \<in> list_threads" and s': "print_list t s = Some s'"
  shows "\<exists>c. quiet_to s xs t c \<and> s' = list_goto t c s"
proof (cases "pc s t")
  case (Print_call c)
  have "ahead (map fst xs) (list_head s) \<le> 40" using ahead_le [of "map fst xs" "list_head s"] by (simp add: max_nodes_def NUM_INSERTERS_def)
  then show ?thesis using s' Print_call list_inv_at [OF i t] list_inv_head(1) [OF i]
    by (intro exI [of _ "Print (list_head s) c"]) (simp add: print_list_def quiet_to_def)
next
  case (Print p c)
  show ?thesis
  proof (cases "p = 0")
    case True
    then show ?thesis using s' Print list_inv_at [OF i t]
      by (intro exI [of _ c]) (auto simp: print_list_def quiet_to_def after_print_def)
  next
    case False
    then have "p \<in> fst ` set xs" using list_inv_at [OF i t] Print by (simp add: cursor_def)
    then obtain n where "nodes_heap s p = Some n" by (rule list_inv_deref [OF i])
    then show ?thesis using s' Print list_inv_at [OF i t] \<open>p \<in> fst ` set xs\<close> False
      by (intro exI [of _ "Print_next p c"]) (simp add: print_list_def quiet_to_def deref_def)
  qed
next
  case (Print_next p c)
  then have "p \<in> fst ` set xs" using list_inv_at [OF i t] by simp
  then obtain n where "nodes_heap s p = Some n" "cursor xs (node_next n)" "ahead (map fst xs) (node_next n) + 2 \<le> ahead (map fst xs) p"
    by (rule list_inv_deref [OF i])
  then show ?thesis using s' Print_next list_inv_at [OF i t]
    by (intro exI [of _ "Print (node_next n) c"]) (simp add: print_list_def quiet_to_def deref_def)
qed (use s' in \<open>simp_all add: print_list_def\<close>)

lemma searcher_quiet:
  assumes i: "list_inv s xs" and t: "t \<in> list_threads" and s': "searcher e t s = Some s'"
  shows "\<exists>c r. quiet_to s xs t c \<and> s' = list_goto t c (s\<lparr>read_sem := r\<rparr>)"
proof -
  have at: "role t (pc s t)" "local_ok (nodes_heap s) (list_head s) xs (pc s t)" using list_inv_at [OF i t] by simp_all
  have le: "ahead (map fst xs) (list_head s) \<le> 40" using ahead_le [of "map fst xs" "list_head s"] by (simp add: max_nodes_def NUM_INSERTERS_def)
  have pr: ?thesis if pl: "print_list t s = Some s'"
  proof -
    obtain c where c: "quiet_to s xs t c" "s' = list_goto t c s" using print_quiet [OF i t pl] by blast
    have "s = s\<lparr>read_sem := read_sem s\<rparr>" by simp
    then show ?thesis using c by metis
  qed
  note sd = searcher_def quiet_to_def deref_def sem_wait_Some after_print_def
  show ?thesis
  proof (cases "pc s t")
    case S_wait
    then show ?thesis using s' at by (intro exI [of _ S_call] exI [of _ "read_sem s - 1"]) (auto simp: sd)
  next
    case S_call
    then show ?thesis using s' at le list_inv_head(1) [OF i]
      by (intro exI [of _ "S_data (rand100 e t S_call) (list_head s)"] exI [of _ "read_sem s"]) (simp add: sd)
  next
    case (S_data v p)
    show ?thesis
    proof (cases "p = 0")
      case True
      then show ?thesis using s' S_data at by (intro exI [of _ "Print_call S_post"] exI [of _ "read_sem s"]) (simp add: sd)
    next
      case False
      then have p: "p \<in> fst ` set xs" using at S_data by (simp add: cursor_def)
      then obtain n where "nodes_heap s p = Some n" by (rule list_inv_deref [OF i])
      then show ?thesis using s' S_data at p False
        by (intro exI [of _ "if node_data n = v then Print_call S_post else S_next v p"] exI [of _ "read_sem s"])
          (auto simp: sd ahead_def split: if_splits)
    qed
  next
    case (S_next v p)
    then have "p \<in> fst ` set xs" using at by simp
    then obtain n where "nodes_heap s p = Some n" "cursor xs (node_next n)" "ahead (map fst xs) (node_next n) + 2 \<le> ahead (map fst xs) p"
      by (rule list_inv_deref [OF i])
    then show ?thesis using s' S_next at by (intro exI [of _ "S_data v (node_next n)"] exI [of _ "read_sem s"]) (simp add: sd)
  next
    case S_post
    then show ?thesis using s' at by (intro exI [of _ Done] exI [of _ "sem_post (read_sem s)"]) (auto simp: sd)
  qed (use s' pr in \<open>simp_all add: searcher_def\<close>)
qed

lemma inserter_quiet:
  assumes i: "list_inv s xs" and t: "t \<in> list_threads" and s': "inserter e t s = Some s'"
    and pc: "case pc s t of I_create _ _ _ _ \<Rightarrow> False | I_link _ head _ _ \<Rightarrow> head = 0 | I_store _ _ \<Rightarrow> False | _ \<Rightarrow> True"
  shows "\<exists>c w. quiet_to s xs t c \<and> s' = list_goto t c (s\<lparr>write_sem := w\<rparr>)"
proof -
  have at: "role t (pc s t)" "local_ok (nodes_heap s) (list_head s) xs (pc s t)" using list_inv_at [OF i t] by simp_all
  have le: "ahead (map fst xs) (list_head s) \<le> 40" using ahead_le [of "map fst xs" "list_head s"] by (simp add: max_nodes_def NUM_INSERTERS_def)
  have pr: ?thesis if pl: "print_list t s = Some s'"
  proof -
    obtain c where c: "quiet_to s xs t c" "s' = list_goto t c s" using print_quiet [OF i t pl] by blast
    have "s = s\<lparr>write_sem := write_sem s\<rparr>" by simp
    then show ?thesis using c by metis
  qed
  note sd = inserter_def quiet_to_def deref_def sem_wait_Some after_print_def
  show ?thesis
  proof (cases "pc s t")
    case I_wait
    then show ?thesis using s' at by (intro exI [of _ "I_loop 0"] exI [of _ "write_sem s - 1"]) (auto simp: sd)
  next
    case (I_loop k)
    then show ?thesis using s' at
      by (intro exI [of _ "if k < 5 then I_call k (rand100 e t (I_loop k)) else I_post"] exI [of _ "write_sem s"]) (auto simp: sd)
  next
    case (I_call k v)
    then show ?thesis using s' at le list_inv_head [OF i]
      by (intro exI [of _ "if list_head s = 0 then I_create k v 0 0 else I_walk k v (list_head s) (list_head s)"] exI [of _ "write_sem s"])
        (auto simp: sd append_at_def cursor_def)
  next
    case (I_walk k v hd p)
    then have p: "p \<in> fst ` set xs" using at by simp
    then obtain n where "nodes_heap s p = Some n" "node_next n = 0 \<longrightarrow> p = fst (last xs)" "xs \<noteq> []"
      by (rule list_inv_deref [OF i])
    then show ?thesis using s' I_walk at p
      by (intro exI [of _ "if node_next n \<noteq> 0 then I_next k v hd p else I_create k v hd p"] exI [of _ "write_sem s"])
        (auto simp: sd append_at_def)
  next
    case (I_next k v hd p)
    then have p: "p \<in> fst ` set xs" using at by simp
    then obtain n where "nodes_heap s p = Some n" "cursor xs (node_next n)" "ahead (map fst xs) (node_next n) + 2 \<le> ahead (map fst xs) p"
      by (rule list_inv_deref [OF i])
    then show ?thesis using s' I_next at
      by (intro exI [of _ "I_walk k v hd (node_next n)"] exI [of _ "write_sem s"]) (auto simp: sd cursor_def)
  next
    case (I_link k hd p a)
    then show ?thesis using s' at pc by (intro exI [of _ "I_store k a"] exI [of _ "write_sem s"]) (auto simp: sd append_at_def)
  next
    case I_post
    then show ?thesis using s' at by (intro exI [of _ Done] exI [of _ "sem_post (write_sem s)"]) (auto simp: sd)
  qed (use s' pr pc in \<open>simp_all add: inserter_def\<close>)
qed

lemma deleter_quiet:
  assumes i: "list_inv s xs" and t: "t \<in> list_threads" and s': "deleter e t s = Some s'" and pc: "pc s t \<noteq> D_remove"
  shows "\<exists>c r w. quiet_to s xs t c \<and> s' = list_goto t c (s\<lparr>read_sem := r, write_sem := w\<rparr>)"
proof -
  have at: "role t (pc s t)" "local_ok (nodes_heap s) (list_head s) xs (pc s t)" using list_inv_at [OF i t] by simp_all
  have pr: ?thesis if pl: "print_list t s = Some s'"
  proof -
    obtain c where c: "quiet_to s xs t c" "s' = list_goto t c s" using print_quiet [OF i t pl] by blast
    have "s = s\<lparr>read_sem := read_sem s, write_sem := write_sem s\<rparr>" by simp
    then show ?thesis using c by metis
  qed
  note sd = deleter_def quiet_to_def sem_wait_Some NUM_SEARCHERS_def
  show ?thesis
  proof (cases "pc s t")
    case D_wait
    then show ?thesis using s' at by (intro exI [of _ "D_reads 0"] exI [of _ "read_sem s"] exI [of _ "write_sem s - 1"]) (auto simp: sd)
  next
    case (D_reads k)
    then show ?thesis using s' at
      by (intro exI [of _ "if k < NUM_SEARCHERS then D_reads (Suc k) else D_remove"]
          exI [of _ "if k < NUM_SEARCHERS then read_sem s - 1 else read_sem s"] exI [of _ "write_sem s"]) (auto simp: sd split: if_splits)
  next
    case (D_posts k)
    then show ?thesis using s' at
      by (intro exI [of _ "if k < NUM_SEARCHERS then D_posts (Suc k) else D_post"]
          exI [of _ "if k < NUM_SEARCHERS then sem_post (read_sem s) else read_sem s"] exI [of _ "write_sem s"]) (auto simp: sd)
  next
    case D_post
    then show ?thesis using s' at by (intro exI [of _ Done] exI [of _ "read_sem s"] exI [of _ "sem_post (write_sem s)"]) (auto simp: sd)
  qed (use s' pr pc in \<open>simp_all add: deleter_def\<close>)
qed

lemma list_walk_quiet:
  assumes i: "list_inv s xs" and t: "t \<in> list_threads" and s': "list_step e t s = Some s'"
    and pc: "case pc s t of I_create _ _ _ _ \<Rightarrow> False | I_link _ head _ _ \<Rightarrow> head = 0 | I_store _ _ \<Rightarrow> False | D_remove \<Rightarrow> False | _ \<Rightarrow> True"
  shows "\<exists>c rv wv. quiet_to s xs t c \<and> s' = list_goto t c (s\<lparr>read_sem := rv, write_sem := wv\<rparr>)"
proof -
  have e: "s\<lparr>read_sem := r\<rparr> = s\<lparr>read_sem := r, write_sem := write_sem s\<rparr>" "s\<lparr>write_sem := w\<rparr> = s\<lparr>read_sem := read_sem s, write_sem := w\<rparr>" for r w
    by simp_all
  have pc': "pc s t \<noteq> D_remove"
    "case pc s t of I_create _ _ _ _ \<Rightarrow> False | I_link _ head _ _ \<Rightarrow> head = 0 | I_store _ _ \<Rightarrow> False | _ \<Rightarrow> True"
    using pc by (cases "pc s t"; simp)+
  consider "searcher e t s = Some s'" | "inserter e t s = Some s'" | "deleter e t s = Some s'"
    using s' by (auto simp: list_step_def split: if_splits)
  then show ?thesis
    using searcher_quiet [OF i t, of e s'] inserter_quiet [OF i t _ pc'(2), of e s'] deleter_quiet [OF i t _ pc'(1), of e s'] e
    by cases metis+
qed

lemma list_create_step:
  assumes i: "list_inv s xs" and t: "t \<in> list_threads" and s': "list_step e t s = Some s'" and pc: "pc s t = I_create k v head temp"
    and w: "\<And>u. u \<in> list_threads \<Longrightarrow> u \<noteq> t \<Longrightarrow> writes s u = 0" and m: "malloc_ok e"
  shows "\<exists>ys. list_inv s' ys \<and> list_work s' < list_work s"
proof -
  let ?h = "nodes_heap s" let ?a = "malloc e (nodes_heap s)"
  have n: "(\<Union>u \<in> list_threads. unlinked (list_head s) (pc s u)) = {}"
    unfolding UN_remove [OF t] using no_write(1) w pc by (simp add: writes_def)
  have d: "dom ?h = fst ` set xs" using i n by (simp add: list_inv_def)
  have a: "?a \<noteq> 0" "?h ?a = None" using m d by (simp_all add: malloc_ok_def)
  have fr: "?a \<notin> fst ` set xs" using a d by blast
  have ro: "role t (I_create k v head temp)" "append_at (list_head s) xs head temp" using list_inv_at [OF i t] unfolding pc by simp_all
  have st: "s' = list_goto t (I_link k head temp ?a) (s\<lparr>nodes_heap := ?h(?a \<mapsto> \<lparr>node_data = v, node_next = 0\<rparr>)\<rparr>)"
    using s' pc ro(1) a by (auto simp: list_step_def inserter_def create_node_def)
  have l: "lst ?h (list_head s) xs" using i by (simp add: list_inv_def)
  show ?thesis
    by (rule list_grow_step [OF i t _ w, where zs = "[]" and c = "I_link k head temp ?a"])
      (use i a l d ro fr pc in \<open>auto simp: st list_goto_def list_inv_def lst_def chain_upd\<close>)
qed

lemma list_link_step:
  assumes i: "list_inv s xs" and t: "t \<in> list_threads" and s': "list_step e t s = Some s'" and pc: "pc s t = I_link k head temp a" "head \<noteq> 0"
    and w: "\<And>u. u \<in> list_threads \<Longrightarrow> u \<noteq> t \<Longrightarrow> writes s u = 0"
  shows "\<exists>ys. list_inv s' ys \<and> list_work s' < list_work s"
proof -
  let ?h = "nodes_heap s"
  have n: "(\<Union>u \<in> list_threads. unlinked (list_head s) (pc s u)) = {a}"
    unfolding UN_remove [OF t] using no_write(1) w pc by (simp add: writes_def)
  have d: "dom ?h = insert a (fst ` set xs)" and l: "lst ?h (list_head s) xs" using i n by (simp_all add: list_inv_def)
  have ro: "role t (I_link k head temp a)" "append_at (list_head s) xs head temp" "a \<noteq> 0" "a \<notin> fst ` set xs"
    "\<exists>m. ?h a = Some m \<and> node_next m = 0" using list_inv_at [OF i t] unfolding pc by simp_all
  obtain m where m: "?h a = Some m" "node_next m = 0" using ro(5) by blast
  obtain ys v where xs: "xs = ys @ [(temp, v)]" using ro(2) pc(2) by (cases xs rule: rev_cases) (auto simp: append_at_def)
  obtain x where x: "?h temp = Some x" using d xs by (cases "?h temp") auto
  have st: "s' = list_goto t (I_store k head) (s\<lparr>nodes_heap := ?h(temp \<mapsto> x\<lparr>node_next := a\<rparr>)\<rparr>)"
    using s' pc ro(1) x by (auto simp: list_step_def inserter_def)
  have "chain (?h(temp \<mapsto> x\<lparr>node_next := a\<rparr>)) (list_head s) (ys @ [(temp, v), (a, node_data m)])"
    using l ro m x xs by (intro chain_snoc) (auto simp: lst_def)
  then have l': "lst (?h(temp \<mapsto> x\<lparr>node_next := a\<rparr>)) (list_head s) (xs @ [(a, node_data m)])" using l ro(4) xs by (simp add: lst_def)
  have d': "dom (?h(temp \<mapsto> x\<lparr>node_next := a\<rparr>)) = fst ` set (xs @ [(a, node_data m)])" using d x xs by auto
  show ?thesis
    by (rule list_grow_step [OF i t _ w, where zs = "[(a, node_data m)]" and c = "I_store k head"])
      (use i l' d' ro(1, 2) pc in \<open>auto simp: st list_goto_def list_inv_def append_at_def\<close>)
qed

lemma list_store_step:
  assumes i: "list_inv s xs" and t: "t \<in> list_threads" and s': "list_step e t s = Some s'" and pc: "pc s t = I_store k head"
    and w: "\<And>u. u \<in> list_threads \<Longrightarrow> u \<noteq> t \<Longrightarrow> writes s u = 0"
  shows "\<exists>ys. list_inv s' ys \<and> list_work s' < list_work s"
proof -
  let ?h = "nodes_heap s"
  have n: "(\<Union>u \<in> list_threads. unlinked (list_head s) (pc s u)) = unlinked (list_head s) (pc s t)"
    unfolding UN_remove [OF t] using no_write(1) w by (simp add: writes_def)
  have l: "lst ?h (list_head s) xs" and d: "dom ?h = fst ` set xs \<union> unlinked (list_head s) (pc s t)" using i n by (simp_all add: list_inv_def)
  have ro: "role t (I_store k head)" "local_ok ?h (list_head s) xs (I_store k head)" using list_inv_at [OF i t] unfolding pc by simp_all
  have st: "s' = list_goto t (Print_call (I_loop (Suc k))) (s\<lparr>list_head := head\<rparr>)"
    using s' pc ro(1) by (auto simp: list_step_def inserter_def)
  have "\<exists>zs. lst ?h head (xs @ zs) \<and> dom ?h = fst ` set (xs @ zs) \<and> length zs + (4 - k) \<le> to_link (list_head s) (I_store k head)"
  proof (cases "list_head s = 0")
    case True
    obtain m where "?h head = Some m" "node_next m = 0" "head \<noteq> 0" using ro(2) True by auto
    then show ?thesis using True l d ro(1) pc list_inv_head(2) [OF i] by (intro exI [of _ "[(head, node_data m)]"]) (auto simp: lst_def)
  next
    case False
    then show ?thesis using l d pc ro(2) by (intro exI [of _ "[]"]) simp
  qed
  then obtain zs where zs: "lst ?h head (xs @ zs)" "dom ?h = fst ` set (xs @ zs)" "length zs + (4 - k) \<le> to_link (list_head s) (I_store k head)"
    by blast
  show ?thesis
    by (rule list_grow_step [OF i t _ w, where zs = zs and c = "Print_call (I_loop (Suc k))"])
      (use i zs ro(1) pc in \<open>auto simp: st list_goto_def list_inv_def after_print_def\<close>)
qed

lemma list_step_inv:
  assumes r: "runs (list_step e) list_threads list_init s" and i: "list_inv s xs" and m: "malloc_ok e"
    and t: "t \<in> list_threads" and s': "list_step e t s = Some s'"
  shows "\<exists>ys. list_inv s' ys \<and> list_work s' < list_work s"
proof -
  have w: "writes s u = 0" if "u \<in> list_threads" "u \<noteq> t" "pc_writes (pc s t) = 1" for u
    using wr.held_pair [OF r t that(1)] that by (simp add: writes_def)
  have rd: "reads s u = 0" if "u \<in> list_threads" "u \<noteq> t" "pc s t = D_remove" for u
    using rd.held_pair [OF r t that(1)] that by (simp add: reads_def)
  have ro: "role t (pc s t)" using list_inv_at [OF i t] by simp
  show ?thesis
  proof (cases "case pc s t of I_create _ _ _ _ \<Rightarrow> False | I_link _ head _ _ \<Rightarrow> head = 0 | I_store _ _ \<Rightarrow> False | D_remove \<Rightarrow> False | _ \<Rightarrow> True")
    case True
    then have "\<exists>c rv wv. quiet_to s xs t c \<and> s' = list_goto t c (s\<lparr>read_sem := rv, write_sem := wv\<rparr>)"
      by (rule list_walk_quiet [OF i t s'])
    then obtain c rv wv where "quiet_to s xs t c" "s' = list_goto t c (s\<lparr>read_sem := rv, write_sem := wv\<rparr>)" by blast
    then show ?thesis by (intro quiet_to_step [OF i t]) (auto simp: list_goto_def)
  next
    case False
    consider (create) k v hd p where "pc s t = I_create k v hd p" | (link) k hd p a where "pc s t = I_link k hd p a" "hd \<noteq> 0"
      | (store) k p where "pc s t = I_store k p" | (remove) "pc s t = D_remove"
      using False by (cases "pc s t") auto
    then show ?thesis
    proof cases
      case create
      then show ?thesis by (rule list_create_step [OF i t s' _ _ m]) (use w create in simp)
    next
      case link
      then show ?thesis by (rule list_link_step [OF i t s']) (use w link in simp)
    next
      case store
      then show ?thesis by (rule list_store_step [OF i t s']) (use w store in simp)
    next
      case remove
      obtain p h where "remove_node (nodes_heap s) (list_head s) (rand100 e t D_wait) = Inr (p, h)"
        by (rule remove_node_spec [of "nodes_heap s" "list_head s" xs "rand100 e t D_wait"]) (use i in \<open>simp_all add: list_inv_def\<close>)
      moreover from this have "s' = list_goto t (Print_call (D_posts 0)) (s\<lparr>list_head := p, nodes_heap := h\<rparr>)"
        using s' remove ro by (simp add: list_step_def deleter_def)
      ultimately show ?thesis by (intro list_remove_step [OF i t remove]) (use w rd remove in simp_all)
    qed
  qed
qed

lemma list_runs_inv:
  assumes "runs (list_step e) list_threads list_init s" "malloc_ok e"
  shows "\<exists>xs. list_inv s xs"
  using assms(1)
proof (induction rule: runs.induct)
  case start
  have "(\<Sum>t \<in> list_threads. to_link 0 (pc list_init t)) = 20"
    by (simp add: list_init_def NUM_SEARCHERS_def NUM_INSERTERS_def NUM_DELETERS_def lessThan_nat_numeral lessThan_Suc)
  then have "list_inv list_init []"
    by (auto simp: list_inv_def list_init_def lst_def max_nodes_def NUM_INSERTERS_def)
  then show ?case by blast
next
  case (step s t s')
  then show ?case using list_step_inv [OF step.hyps(1) _ assms(2) step.hyps(2, 3)] by blast
qed

lemma list_blocked:
  assumes "role t (pc s t)" "list_step e t s = None"
  shows "pc s t = Done \<or> (pc s t = S_wait \<and> read_sem s \<le> 0) \<or> ((pc s t = I_wait \<or> pc s t = D_wait) \<and> write_sem s \<le> 0) \<or>
    (\<exists>k < NUM_SEARCHERS. pc s t = D_reads k \<and> read_sem s \<le> 0)"
  using assms by (cases "pc s t") (auto simp: list_step_def searcher_def inserter_def deleter_def print_list_def sem_wait_Some split: if_splits)

lemma list_no_deadlock:
  assumes r: "runs (list_step e) list_threads list_init s" and ro: "\<And>t. t \<in> list_threads \<Longrightarrow> role t (pc s t)"
    and n: "\<And>t. t \<in> list_threads \<Longrightarrow> list_step e t s = None" and t: "t \<in> list_threads"
  shows "pc s t = Done"
proof -
  note b = list_blocked [OF ro n]
  have nd: "pc s u \<noteq> D_reads k" if u: "u \<in> list_threads" for u k
  proof
    assume p: "pc s u = D_reads k"
    have "k < NUM_SEARCHERS" "read_sem s \<le> 0" using b [OF u u] p by auto
    moreover have "reads s v = 0" if v: "v \<in> list_threads" "v \<noteq> u" for v
      using wr.held_pair [OF r u v(1)] v(2) b [OF v(1) v(1)] p by (auto simp: writes_def reads_def)
    then have "read_sem s = int NUM_SEARCHERS - int (reads s u)" using rd.alone [OF r u] by blast
    ultimately show False using p by (simp add: reads_def)
  qed
  have z: "reads s u = 0 \<and> writes s u = 0" if "u \<in> list_threads" for u
    using b [OF that that] nd [OF that] by (auto simp: reads_def writes_def)
  have "read_sem s = int NUM_SEARCHERS" "write_sem s = 1"
    using rd.alone [OF r t] wr.alone [OF r t] z t by simp_all
  then show ?thesis using b [OF t t] nd [OF t] by (auto simp: NUM_SEARCHERS_def)
qed

section \<open>What the program guarantees\<close>

text \<open>
  C36. The searchers, inserters and deleters in any interleaving of their accesses to the list: no thread reads
  or writes through a bad pointer; the nodes on the heap are those of the list and the one that an inserter has
  created and not yet linked; two threads never hold \<open>write_sem\<close>, and while a thread removes a node no other one
  is in its critical section; every step makes the remaining work smaller, and the threads only stop when all of
  them are done; freeing the list then gives back every node.
\<close>

theorem list_program_correct:
  assumes "runs (list_step e) list_threads list_init s" "malloc_ok e"
  shows "\<not> crashed s \<and>
    (\<exists>xs. lst (nodes_heap s) (list_head s) xs \<and>
       dom (nodes_heap s) = fst ` set xs \<union> (\<Union>t \<in> list_threads. unlinked (list_head s) (pc s t))) \<and>
    (\<forall>t \<in> list_threads. \<forall>u \<in> list_threads. t \<noteq> u \<longrightarrow> writes s t + writes s u \<le> 1 \<and>
       (pc s t = D_remove \<longrightarrow> reads s u = 0 \<and> writes s u = 0)) \<and>
    (\<forall>t \<in> list_threads. \<forall>s'. list_step e t s = Some s' \<longrightarrow> list_work s' < list_work s) \<and>
    ((\<forall>t \<in> list_threads. list_step e t s = None) \<longrightarrow>
       (\<forall>t \<in> list_threads. pc s t = Done) \<and> free_list (nodes_heap s) (list_head s) = Inr (0, Map.empty))"
proof -
  obtain xs where i: "list_inv s xs" using list_runs_inv [OF assms] by blast
  then have xs: "lst (nodes_heap s) (list_head s) xs" "\<not> crashed s"
    "dom (nodes_heap s) = fst ` set xs \<union> (\<Union>t \<in> list_threads. unlinked (list_head s) (pc s t))" by (simp_all add: list_inv_def)
  have "(\<forall>t \<in> list_threads. pc s t = Done) \<and> free_list (nodes_heap s) (list_head s) = Inr (0, Map.empty)"
    if n: "\<forall>t \<in> list_threads. list_step e t s = None"
  proof -
    have d: "\<forall>t \<in> list_threads. pc s t = Done"
      using list_no_deadlock [OF assms(1) conjunct1 [OF list_inv_at [OF i]] bspec [OF n]] by simp
    obtain h where h: "free_loop (nodes_heap s) (list_head s) = Some (Inr (0, h))" "dom h = dom (nodes_heap s) - fst ` set xs"
      using free_loop_spec [of "nodes_heap s" "list_head s" xs] xs(1) by (auto simp: lst_def)
    have "h = Map.empty" using h(2) xs(3) d by simp
    then show ?thesis using d h(1) by (simp add: free_list_def)
  qed
  moreover have "writes s t + writes s u \<le> 1 \<and> (pc s t = D_remove \<longrightarrow> reads s u = 0 \<and> writes s u = 0)"
    if "t \<in> list_threads" "u \<in> list_threads" "t \<noteq> u" for t u
    using rd.held_pair [OF assms(1) that] wr.held_pair [OF assms(1) that] by (auto simp: reads_def writes_def)
  moreover have "list_work s' < list_work s" if "t \<in> list_threads" "list_step e t s = Some s'" for t s'
    using list_step_inv [OF assms(1) i assms(2) that] by blast
  moreover have "\<exists>xs. lst (nodes_heap s) (list_head s) xs \<and>
      dom (nodes_heap s) = fst ` set xs \<union> (\<Union>t \<in> list_threads. unlinked (list_head s) (pc s t))"
    using xs by (intro exI [of _ xs]) simp
  ultimately show ?thesis using xs(2) by (intro conjI ballI allI impI) simp_all
qed

definition demo_list_env :: list_env where
  "demo_list_env = \<lparr>rand100 = (\<lambda>t _. int t), malloc = (\<lambda>h. Suc (Max (insert 0 (dom h))))\<rparr>"

lemma demo_malloc_ok: "malloc_ok demo_list_env"
proof -
  have "h (Suc (Max (insert 0 (dom h)))) = None" if "finite (dom h)" for h :: heap
    using Max_ge [of "insert 0 (dom h)" "Suc (Max (insert 0 (dom h)))"] that by (meson Suc_n_not_le_n domIff finite_insert insertI2)
  then show ?thesis by (simp add: malloc_ok_def demo_list_env_def)
qed

definition demo_list :: "(nat \<Rightarrow> list_pc) \<Rightarrow> int \<Rightarrow> int \<Rightarrow> heap \<Rightarrow> nat \<Rightarrow> list_state" where
  "demo_list f r w h p = \<lparr>read_sem = r, write_sem = w, pc = f, nodes_heap = h, list_head = p, crashed = False\<rparr>"

lemma demo_list_run:
  obtains s where "runs (list_step demo_list_env) list_threads list_init s" "pc s 0 = S_data 0 1" "pc s 12 = Print_call (I_loop 1)"
proof -
  let ?e = demo_list_env let ?R = "runs (list_step demo_list_env) list_threads list_init"
  have th: "12 \<in> list_threads" "0 \<in> list_threads" by (simp_all add: NUM_SEARCHERS_def NUM_INSERTERS_def)
  note d = list_step_def NUM_SEARCHERS_def NUM_INSERTERS_def inserter_def searcher_def list_goto_def demo_list_def sem_wait_def demo_list_env_def
  obtain f where i: "list_init = demo_list f 12 1 Map.empty 0" "f 12 = I_wait" "f 0 = S_wait"
    by (simp add: demo_list_def list_init_def NUM_SEARCHERS_def NUM_INSERTERS_def)
  have "?R (demo_list f 12 1 Map.empty 0)" using runs.start [of "list_step ?e" list_threads list_init] i(1) by simp
  then have "?R (demo_list (f(12 := I_loop 0)) 12 0 Map.empty 0)" by (rule runs.step [OF _ th(1)]) (simp add: d i)
  then have "?R (demo_list (f(12 := I_call 0 12)) 12 0 Map.empty 0)" by (rule runs.step [OF _ th(1)]) (simp add: d)
  then have "?R (demo_list (f(12 := I_create 0 12 0 0)) 12 0 Map.empty 0)" by (rule runs.step [OF _ th(1)]) (simp add: d)
  then have "?R (demo_list (f(12 := I_link 0 0 0 1)) 12 0 [1 \<mapsto> \<lparr>node_data = 12, node_next = 0\<rparr>] 0)"
    by (rule runs.step [OF _ th(1)]) (simp add: d create_node_def)
  then have "?R (demo_list (f(12 := I_store 0 1)) 12 0 [1 \<mapsto> \<lparr>node_data = 12, node_next = 0\<rparr>] 0)"
    by (rule runs.step [OF _ th(1)]) (simp add: d)
  then have "?R (demo_list (f(12 := Print_call (I_loop 1))) 12 0 [1 \<mapsto> \<lparr>node_data = 12, node_next = 0\<rparr>] 1)"
    by (rule runs.step [OF _ th(1)]) (simp add: d)
  then have "?R (demo_list (f(12 := Print_call (I_loop 1), 0 := S_call)) 11 0 [1 \<mapsto> \<lparr>node_data = 12, node_next = 0\<rparr>] 1)"
    by (rule runs.step [OF _ th(2)]) (simp add: d i)
  then have "?R (demo_list (f(12 := Print_call (I_loop 1), 0 := S_data 0 1)) 11 0 [1 \<mapsto> \<lparr>node_data = 12, node_next = 0\<rparr>] 1)"
    by (rule runs.step [OF _ th(2)]) (simp add: d)
  then show thesis by (rule that) (simp_all add: demo_list_def)
qed

theorem list_program_correct_witness:
  "\<exists>s. runs (list_step demo_list_env) list_threads list_init s \<and> pc s 0 = S_data 0 1 \<and> pc s 12 = Print_call (I_loop 1) \<and>
     \<not> crashed s \<and> (\<forall>s'. list_step demo_list_env 0 s = Some s' \<longrightarrow> list_work s' < list_work s)"
proof -
  obtain s where s: "runs (list_step demo_list_env) list_threads list_init s" "pc s 0 = S_data 0 1" "pc s 12 = Print_call (I_loop 1)"
    by (rule demo_list_run)
  have z: "0 \<in> list_threads" by (simp add: NUM_SEARCHERS_def)
  have c: "\<forall>t \<in> list_threads. \<forall>s'. list_step demo_list_env t s = Some s' \<longrightarrow> list_work s' < list_work s" "\<not> crashed s"
    using list_program_correct [OF s(1) demo_malloc_ok] by - (elim conjE, assumption)+
  show ?thesis using s c(2) bspec [OF c(1) z] by (intro exI [of _ s] conjI)
qed

end
