(* ===== verification/Conc_Buffer.thy ===== *)
theory Conc_Buffer
  imports Conc_Sem "HOL-Library.Multiset"
begin

text \<open>
  The producer and the consumer (\<open>concurrency1/buffer_lib.c\<close>, \<open>concurrency1/model.c\<close>). The memory of the
  buffer is a list, or nothing when it is \<open>NULL\<close>; an access outside of it is a failure. The two threads are
  step functions, the mutex is a semaphore with one unit. The state also records which elements were put
  into the buffer, which were taken out, and how often the buffer refused an element.
\<close>

section \<open>The buffer\<close>

record element =
  elem_value :: int
  wait_time :: int

record buffer =
  array :: "element list option"
  used :: int
  buf_size :: int

definition init_b :: "element list option \<Rightarrow> int \<Rightarrow> buffer" where
  "init_b mem init_size = \<lparr>array = mem, used = 0, buf_size = init_size\<rparr>"

definition free_b :: "buffer \<Rightarrow> buffer" where
  "free_b b = b\<lparr>array := None, used := 0, buf_size := 0\<rparr>"

definition insert_b :: "buffer \<Rightarrow> element \<Rightarrow> (bool \<times> buffer) run" where
  "insert_b b e =
     (if used b = buf_size b then Inr (False, b)
      else case array b of None \<Rightarrow> Inl Bug
        | Some a \<Rightarrow> if 0 \<le> used b \<and> nat (used b) < length a
            then Inr (True, b\<lparr>array := Some (a[nat (used b) := e]), used := u64 (used b + 1)\<rparr>) else Inl Bug)"

definition remove_b :: "buffer \<Rightarrow> element \<Rightarrow> (bool \<times> buffer \<times> element) run" where
  "remove_b b e =
     (if used b = 0 then Inr (False, b, e)
      else case array b of None \<Rightarrow> Inl Bug
        | Some a \<Rightarrow> if 1 \<le> used b \<and> nat (used b) \<le> length a
            then Inr (True, b\<lparr>array := Some (a[nat (used b - 1) := \<lparr>elem_value = 0, wait_time = 0\<rparr>]), used := u64 (used b - 1)\<rparr>,
                   a ! nat (used b - 1))
            else Inl Bug)"

section \<open>The threads\<close>

definition LIMITER :: nat where "LIMITER = 20"

datatype buf_pc = Lock nat | Body nat | Unlock nat | Finish

record buf_state =
  buf :: buffer
  buffer_mutex :: int
  pos :: "nat \<Rightarrow> buf_pc"
  put_in :: "element list"
  taken :: "element list"
  refused :: nat
  failed :: bool

definition buf_goto :: "nat \<Rightarrow> buf_pc \<Rightarrow> buf_state \<Rightarrow> buf_state" where
  "buf_goto t p s = s\<lparr>pos := (pos s)(t := p)\<rparr>"

definition produce_body :: "element \<Rightarrow> buf_state \<Rightarrow> buf_state" where
  "produce_body e s = (case insert_b (buf s) e of
       Inl _ \<Rightarrow> s\<lparr>failed := True\<rparr>
     | Inr (ok, b) \<Rightarrow> if ok then s\<lparr>buf := b, put_in := put_in s @ [e]\<rparr> else s\<lparr>buf := b, refused := Suc (refused s)\<rparr>)"

definition consume_body :: "buf_state \<Rightarrow> buf_state" where
  "consume_body s = (case remove_b (buf s) \<lparr>elem_value = - 1, wait_time = 0\<rparr> of
       Inl _ \<Rightarrow> s\<lparr>failed := True\<rparr>
     | Inr (ok, b, e) \<Rightarrow> if ok then s\<lparr>buf := b, taken := taken s @ [e]\<rparr> else s\<lparr>buf := b\<rparr>)"

definition buf_step :: "(nat \<Rightarrow> element) \<Rightarrow> nat \<Rightarrow> buf_state \<Rightarrow> buf_state option" where
  "buf_step rdrand t s = (case pos s t of
       Lock k \<Rightarrow> if k < LIMITER
         then map_option (\<lambda>v. buf_goto t (Body k) (s\<lparr>buffer_mutex := v\<rparr>)) (sem_wait (buffer_mutex s))
         else Some (buf_goto t Finish s)
     | Body k \<Rightarrow> Some (buf_goto t (Unlock k) (if t = 0 then produce_body (rdrand k) s else consume_body s))
     | Unlock k \<Rightarrow> Some (buf_goto t (Lock (Suc k)) (s\<lparr>buffer_mutex := sem_post (buffer_mutex s)\<rparr>))
     | Finish \<Rightarrow> None)"

definition buf_init :: "element list option \<Rightarrow> buf_state" where
  "buf_init mem = \<lparr>buf = init_b mem 32, buffer_mutex = 1, pos = (\<lambda>_. Lock 0), put_in = [], taken = [], refused = 0, failed = False\<rparr>"

definition locked :: "buf_state \<Rightarrow> nat \<Rightarrow> nat" where
  "locked s t = (case pos s t of Body _ \<Rightarrow> 1 | Unlock _ \<Rightarrow> 1 | _ \<Rightarrow> 0)"

lemma body_fields [simp]:
  "buffer_mutex (produce_body e s) = buffer_mutex s" "pos (produce_body e s) = pos s"
  "buffer_mutex (consume_body s) = buffer_mutex s" "pos (consume_body s) = pos s"
  by (auto simp: produce_body_def consume_body_def split: sum.splits)

lemma buf_step_mutex:
  "buf_step r t s = Some s' \<Longrightarrow> 0 \<le> buffer_mutex s \<Longrightarrow>
   0 \<le> buffer_mutex s' \<and> buffer_mutex s' + int (locked s' t) = buffer_mutex s + int (locked s t)"
  by (cases "pos s t") (auto simp: buf_step_def buf_goto_def locked_def sem_wait_Some sem_post_def split: if_splits)

lemma buf_step_others: "buf_step r t s = Some s' \<Longrightarrow> u \<noteq> t \<Longrightarrow> pos s' u = pos s u"
  by (cases "pos s t") (auto simp: buf_step_def buf_goto_def split: if_splits)

lemma buf_locked_others: "buf_step r t s = Some s' \<Longrightarrow> u \<noteq> t \<Longrightarrow> locked s' u = locked s u"
  by (simp add: buf_step_others locked_def)

lemma buf_init_held: "buffer_mutex (buf_init mem) = 1" "locked (buf_init mem) t = 0"
  by (simp_all add: buf_init_def locked_def)

interpretation mx: semaphore "buf_step r" buffer_mutex locked "{0, 1}" "buf_init mem" 1 for r mem
  by unfold_locales (simp_all add: buf_init_held buf_step_mutex buf_locked_others)

section \<open>The buffer as a stack\<close>

text \<open>The elements in the buffer, the oldest first.\<close>

definition contents :: "buffer \<Rightarrow> element list \<Rightarrow> bool" where
  "contents b xs \<longleftrightarrow> (\<exists>a. array b = Some a \<and> length a = nat (buf_size b) \<and> xs = take (length xs) a) \<and>
     used b = int (length xs) \<and> used b \<le> buf_size b \<and> buf_size b < 2 ^ 31"

lemma insert_b_spec:
  assumes "contents b xs"
  shows "if used b = buf_size b then insert_b b e = Inr (False, b)
    else \<exists>b'. insert_b b e = Inr (True, b') \<and> contents b' (xs @ [e]) \<and> buf_size b' = buf_size b"
proof -
  obtain a where a: "array b = Some a" "length a = nat (buf_size b)" "xs = take (length xs) a" "used b = int (length xs)"
    "used b \<le> buf_size b" "buf_size b < 2 ^ 31" using assms by (auto simp: contents_def)
  show ?thesis
  proof (cases "used b = buf_size b")
    case False
    have l: "length xs < length a" using a(2, 4, 5) False by linarith
    have s: "u64 (used b + 1) = used b + 1" using a False by (intro u64_id) simp_all
    have "take (Suc (length xs)) (a[length xs := e]) = xs @ [e]"
      using l a(3) by (simp add: take_Suc_conv_app_nth)
    then show ?thesis using a False l s by (auto simp: insert_b_def contents_def)
  qed (simp add: insert_b_def)
qed

lemma remove_b_spec:
  assumes "contents b xs"
  shows "if xs = [] then remove_b b e = Inr (False, b, e)
    else \<exists>b'. remove_b b e = Inr (True, b', last xs) \<and> contents b' (butlast xs) \<and> buf_size b' = buf_size b"
proof -
  obtain a where a: "array b = Some a" "length a = nat (buf_size b)" "xs = take (length xs) a" "used b = int (length xs)"
    "used b \<le> buf_size b" "buf_size b < 2 ^ 31" using assms by (auto simp: contents_def)
  show ?thesis
  proof (cases xs rule: rev_cases)
    case (snoc ys y)
    have l: "length ys < length a" using a(2, 4, 5) snoc by simp
    have s: "u64 (int (length ys)) = int (length ys)" using a(4-6) snoc by (intro u64_id) simp_all
    have t: "take (Suc (length ys)) a = ys @ [y]" using a(3) snoc by simp
    then have "a ! length ys = y" "take (length ys) a = ys" using l by (auto simp: take_Suc_conv_app_nth)
    then show ?thesis using a(1, 2, 4-6) snoc l s by (auto simp: remove_b_def contents_def)
  qed (use a in \<open>simp add: remove_b_def\<close>)
qed

section \<open>What the program guarantees\<close>

definition inserted :: "buf_pc \<Rightarrow> nat" where
  "inserted p = (case p of Lock k \<Rightarrow> k | Body k \<Rightarrow> k | Unlock k \<Rightarrow> Suc k | Finish \<Rightarrow> LIMITER)"

definition buf_ok :: "buf_state \<Rightarrow> bool" where
  "buf_ok s \<longleftrightarrow> (\<exists>xs. contents (buf s) xs \<and> mset (put_in s) = mset (taken s) + mset xs) \<and> buf_size (buf s) = 32 \<and>
     length (put_in s) \<le> inserted (pos s 0) \<and> inserted (pos s 0) \<le> LIMITER \<and> (\<forall>k. pos s 0 = Body k \<longrightarrow> k < LIMITER) \<and>
     refused s = 0 \<and> \<not> failed s"

lemma produce_body_ok:
  assumes "buf_ok s" "pos s 0 = Body k"
  shows "buf_ok (buf_goto 0 (Unlock k) (produce_body e s))"
proof -
  obtain xs where xs: "contents (buf s) xs" "mset (put_in s) = mset (taken s) + mset xs" "buf_size (buf s) = 32" "length (put_in s) \<le> k" "k < LIMITER"
    "refused s = 0" "\<not> failed s" using assms by (auto simp: buf_ok_def inserted_def)
  have "size (mset (put_in s)) = size (mset (taken s) + mset xs)" using xs(2) by simp
  then have "length xs < 32" using xs(4, 5) by (simp add: LIMITER_def)
  then have "used (buf s) \<noteq> buf_size (buf s)" using xs(1, 3) by (simp add: contents_def)
  then obtain b where b: "insert_b (buf s) e = Inr (True, b)" "contents b (xs @ [e])" "buf_size b = 32"
    using insert_b_spec [OF xs(1), of e] xs(3) by auto
  then show ?thesis using xs
    by (auto simp: buf_ok_def produce_body_def buf_goto_def inserted_def intro!: exI [of _ "xs @ [e]"])
qed

lemma consume_body_ok:
  assumes "buf_ok s"
  shows "buf_ok (consume_body s)"
proof -
  obtain xs where xs: "contents (buf s) xs" "mset (put_in s) = mset (taken s) + mset xs" using assms by (auto simp: buf_ok_def)
  show ?thesis
  proof (cases xs rule: rev_cases)
    case Nil
    then have "remove_b (buf s) \<lparr>elem_value = - 1, wait_time = 0\<rparr> = Inr (False, buf s, \<lparr>elem_value = - 1, wait_time = 0\<rparr>)"
      using remove_b_spec [OF xs(1), of "\<lparr>elem_value = - 1, wait_time = 0\<rparr>"] by simp
    then show ?thesis using assms by (simp add: consume_body_def)
  next
    case (snoc ys y)
    then obtain b where "remove_b (buf s) \<lparr>elem_value = - 1, wait_time = 0\<rparr> = Inr (True, b, y)" "contents b ys" "buf_size b = buf_size (buf s)"
      using remove_b_spec [OF xs(1), of "\<lparr>elem_value = - 1, wait_time = 0\<rparr>"] by auto
    then show ?thesis using assms xs snoc by (auto simp: buf_ok_def consume_body_def intro!: exI [of _ ys])
  qed
qed

lemma buf_ok_cong:
  assumes "buf s' = buf s" "put_in s' = put_in s" "taken s' = taken s" "refused s' = refused s" "failed s' = failed s"
    "inserted (pos s' 0) = inserted (pos s 0)" "\<And>k. pos s' 0 = Body k \<Longrightarrow> k < LIMITER"
  shows "buf_ok s \<Longrightarrow> buf_ok s'"
  using assms by (simp add: buf_ok_def)

lemma buf_step_ok:
  assumes "buf_step r t s = Some s'" "buf_ok s"
  shows "buf_ok s'"
proof (cases "pos s t")
  case (Lock k)
  have "inserted (pos s' 0) = inserted (pos s 0)" "\<And>j. pos s' 0 = Body j \<Longrightarrow> j < LIMITER"
    using assms Lock by (auto simp: buf_step_def buf_goto_def inserted_def buf_ok_def split: if_splits buf_pc.splits)
  then show ?thesis using assms Lock by (auto simp: buf_step_def buf_goto_def split: if_splits intro: buf_ok_cong [of _ s])
next
  case (Body k)
  show ?thesis
  proof (cases "t = 0")
    case True
    then show ?thesis using assms Body produce_body_ok by (auto simp: buf_step_def)
  next
    case False
    have "buf_ok (buf_goto t (Unlock k) (consume_body s))"
      by (rule buf_ok_cong [OF _ _ _ _ _ _ _ consume_body_ok [OF assms(2)]])
        (use False consume_body_ok [OF assms(2)] in \<open>auto simp: buf_goto_def buf_ok_def\<close>)
    then show ?thesis using assms(1) Body False by (simp add: buf_step_def)
  qed
next
  case (Unlock k)
  have "inserted (pos s' 0) = inserted (pos s 0)" "\<And>j. pos s' 0 = Body j \<Longrightarrow> j < LIMITER"
    using assms Unlock by (auto simp: buf_step_def buf_goto_def inserted_def buf_ok_def split: if_splits)
  then show ?thesis using assms Unlock by (auto simp: buf_step_def buf_goto_def intro: buf_ok_cong [of _ s])
qed (use assms in \<open>simp add: buf_step_def\<close>)

text \<open>
  C39. The producer and the consumer in any interleaving: the buffer stays well-formed, no access is outside of
  it and no element is refused, since at most 20 elements go into the 32 places; the elements that were put in
  are those that were taken out and those that are still there; the two threads are never both in their
  critical section, and they only stop when both are finished.
\<close>

theorem buffer_program:
  assumes "runs (buf_step r) {0, 1} (buf_init (Some mem)) s" "length mem = 32"
  shows "\<not> failed s \<and> refused s = 0 \<and> (\<exists>xs. contents (buf s) xs \<and> mset (put_in s) = mset (taken s) + mset xs) \<and>
    locked s 0 + locked s 1 \<le> 1 \<and>
    (buf_step r 0 s = None \<longrightarrow> buf_step r 1 s = None \<longrightarrow> pos s 0 = Finish \<and> pos s 1 = Finish)"
proof -
  have "contents (buf (buf_init (Some mem))) []" using assms(2) by (simp add: buf_init_def init_b_def contents_def)
  then have i: "buf_ok (buf_init (Some mem))" by (auto simp: buf_ok_def buf_init_def init_b_def inserted_def)
  have "buf_ok s" using assms(1) by (induction rule: runs.induct) (auto simp: i intro: buf_step_ok)
  moreover have "locked s 0 + locked s 1 \<le> 1" using mx.held_pair [OF assms(1), of 0 1] by simp
  moreover have "pos s 0 = Finish \<and> pos s 1 = Finish" if n: "buf_step r 0 s = None" "buf_step r 1 s = None"
  proof -
    have b: "pos s t = Finish \<or> (\<exists>k. pos s t = Lock k \<and> buffer_mutex s \<le> 0)" if "buf_step r t s = None" for t
      using that by (cases "pos s t") (auto simp: buf_step_def sem_wait_Some split: if_splits)
    have z: "locked s 0 = 0" "locked s 1 = 0" using b [OF n(1)] b [OF n(2)] by (auto simp: locked_def)
    have "buffer_mutex s = 1" using mx.alone [OF assms(1), of 0] z by auto
    then show ?thesis using b [OF n(1)] b [OF n(2)] by auto
  qed
  ultimately show ?thesis by (auto simp: buf_ok_def)
qed

theorem buffer_program_witness:
  "\<exists>s. runs (buf_step (\<lambda>k. \<lparr>elem_value = int k, wait_time = 2\<rparr>)) {0, 1}
     (buf_init (Some (replicate 32 \<lparr>elem_value = 0, wait_time = 0\<rparr>))) s \<and> pos s 0 = Body 0 \<and> locked s 1 = 0"
proof -
  let ?r = "\<lambda>k. \<lparr>elem_value = int k, wait_time = 2\<rparr>" and ?m = "replicate 32 \<lparr>elem_value = 0, wait_time = 0\<rparr>"
  let ?s = "buf_goto 0 (Body 0) ((buf_init (Some ?m))\<lparr>buffer_mutex := 0\<rparr>)"
  have r: "runs (buf_step ?r) {0, 1} (buf_init (Some ?m)) ?s"
    by (rule runs.step [OF runs.start, of 0]) (simp_all add: buf_step_def buf_init_def LIMITER_def sem_wait_def)
  have p: "pos ?s 0 = Body 0" by (simp add: buf_goto_def)
  then have "locked ?s 1 = 0" using buffer_program [OF r] by (simp add: locked_def)
  then show ?thesis using r p by blast
qed

end
