(* ===== verification/Conc_Set.thy ===== *)
theory Conc_Set
  imports Prelude
begin

text \<open>
  The libraries of the Santa Claus exercise: sets of System V semaphores (\<open>concurrency5/prob2/lib_sem.c\<close>) and
  the ss of waiting elves (\<open>lib_set.c\<close>). The kernel's semaphore sets are a map from identifiers to values;
  \<open>semget\<close>, \<open>malloc\<close> and \<open>rand\<close> are parameters. An operation ends with a value, with a failed assertion or
  with the exit of the program; \<open>None\<close> is a thread that waits, or a loop that does not end.
\<close>

section \<open>Semaphore sets\<close>

datatype sem_err = Assert | Exit_failure | Bad_args

type_synonym 'a act = "(sem_err + 'a) option"

type_synonym ipc = "int \<rightharpoonup> int list"

definition act_bind :: "'a act \<Rightarrow> ('a \<Rightarrow> 'b act) \<Rightarrow> 'b act" where
  "act_bind r f = (case r of None \<Rightarrow> None | Some (Inl e) \<Rightarrow> Some (Inl e) | Some (Inr x) \<Rightarrow> f x)"

lemma act_bind_simps [simp]: "act_bind None f = None" "act_bind (Some (Inl e)) f = Some (Inl e)" "act_bind (Some (Inr x)) f = f x"
  by (simp_all add: act_bind_def)

record sem_set_t =
  sem_id :: int
  num_semaphores :: int

record sem_t =
  sem_set :: sem_set_t
  sem_num :: int

definition SEMVMX :: int where "SEMVMX = 32767"

definition sem_fill_set :: "ipc \<Rightarrow> int \<Rightarrow> int list \<Rightarrow> int \<Rightarrow> (sem_set_t \<times> ipc) act" where
  "sem_fill_set k semget vals n =
     (if \<not> 0 < n then Some (Inl Assert)
      else if semget = - 1 then Some (Inl Exit_failure)
      else Some (Inr (\<lparr>sem_id = semget, num_semaphores = n\<rparr>, k(semget \<mapsto> vals))))"

definition sem_empty_set :: "ipc \<Rightarrow> sem_set_t \<Rightarrow> (sem_set_t \<times> ipc) act" where
  "sem_empty_set k ss =
     (case k (sem_id ss) of None \<Rightarrow> Some (Inl Exit_failure)
      | Some _ \<Rightarrow> Some (Inr (\<lparr>sem_id = - 1, num_semaphores = - 1\<rparr>, k(sem_id ss := None))))"

definition sem_unpack_set :: "sem_set_t \<Rightarrow> nat \<Rightarrow> sem_t list act" where
  "sem_unpack_set ss nargs =
     (if nat (num_semaphores ss) > nargs then Some (Inl Bad_args)
      else Some (Inr (map (\<lambda>i. \<lparr>sem_set = ss, sem_num = int i\<rparr>) [0..<nat (num_semaphores ss)])))"

definition sem_init_index :: "ipc \<Rightarrow> sem_set_t \<Rightarrow> int \<Rightarrow> int \<Rightarrow> ipc act" where
  "sem_init_index k ss i v =
     (if \<not> (0 \<le> i \<and> i < num_semaphores ss) then Some (Inl Assert)
      else case k (sem_id ss) of None \<Rightarrow> Some (Inl Exit_failure)
        | Some vs \<Rightarrow> if \<not> nat i < length vs \<or> v < 0 \<or> v > SEMVMX then Some (Inl Exit_failure)
            else Some (Inr (k(sem_id ss \<mapsto> vs[nat i := v]))))"

definition sem_init_all :: "ipc \<Rightarrow> sem_set_t \<Rightarrow> int \<Rightarrow> ipc act" where
  "sem_init_all k ss v =
     (case k (sem_id ss) of None \<Rightarrow> Some (Inl Exit_failure)
      | Some vs \<Rightarrow> if v mod 65536 > SEMVMX then Some (Inl Exit_failure)
          else Some (Inr (k(sem_id ss \<mapsto> replicate (nat (num_semaphores ss)) (v mod 65536)))))"

definition semop :: "ipc \<Rightarrow> sem_set_t \<Rightarrow> int \<Rightarrow> int \<Rightarrow> ipc act" where
  "semop k ss i sem_op =
     (case k (sem_id ss) of None \<Rightarrow> Some (Inl Exit_failure)
      | Some vs \<Rightarrow> if \<not> nat i < length vs then Some (Inl Exit_failure)
          else let v = vs ! nat i
               in if sem_op = 0 then (if v = 0 then Some (Inr k) else None)
                  else if v + sem_op < 0 then None
                  else if v + sem_op > SEMVMX then Some (Inl Exit_failure)
                  else Some (Inr (k(sem_id ss \<mapsto> vs[nat i := v + sem_op]))))"

definition sem_wait_index :: "ipc \<Rightarrow> sem_set_t \<Rightarrow> int \<Rightarrow> ipc act" where
  "sem_wait_index k ss i =
     (if \<not> (0 \<le> i \<and> i < num_semaphores ss) then Some (Inl Assert) else semop k ss i (- 1))"

definition sem_signal_index :: "ipc \<Rightarrow> sem_set_t \<Rightarrow> int \<Rightarrow> int \<Rightarrow> ipc act" where
  "sem_signal_index k ss i num_signals =
     (if \<not> num_signals > 0 then Some (Inl Assert)
      else if \<not> (0 \<le> i \<and> i < num_semaphores ss) then Some (Inl Assert)
      else semop k ss i (s16 num_signals))"

section \<open>The set\<close>

record cset =
  write_lock :: sem_t
  semaphore_set :: sem_set_t
  slots :: "bool list"
  num_slots :: int
  cardinality :: int

definition CRITICAL :: "sem_t \<Rightarrow> ipc \<Rightarrow> (ipc \<Rightarrow> ('a \<times> ipc) act) \<Rightarrow> ('a \<times> ipc) act" where
  "CRITICAL sem k body =
     act_bind (sem_wait_index k (sem_set sem) (sem_num sem)) (\<lambda>k.
       act_bind (body k) (\<lambda>(x, k).
         act_bind (sem_signal_index k (sem_set sem) (sem_num sem) 1) (\<lambda>k. Some (Inr (x, k)))))"

definition set_alloc :: "ipc \<Rightarrow> bool \<Rightarrow> int \<Rightarrow> int list \<Rightarrow> int \<Rightarrow> (cset option \<times> ipc) act" where
  "set_alloc k malloc_ok semget vals n =
     (if \<not> 0 < n then Some (Inl Assert)
      else if \<not> malloc_ok then Some (Inr (None, k))
      else act_bind (sem_fill_set k semget vals 1) (\<lambda>(ss, k).
        act_bind (sem_unpack_set ss 1) (\<lambda>locks.
          act_bind (sem_init_index k (sem_set (hd locks)) (sem_num (hd locks)) 1) (\<lambda>k.
            Some (Inr (Some \<lparr>write_lock = hd locks, semaphore_set = ss, slots = replicate (nat n) False,
              num_slots = n, cardinality = 0\<rparr>, k))))))"

definition set_exit_free :: "ipc \<Rightarrow> cset \<Rightarrow> (cset \<times> ipc) act" where
  "set_exit_free k c = act_bind (sem_empty_set k (semaphore_set c)) (\<lambda>(ss, k). Some (Inr (c\<lparr>semaphore_set := ss\<rparr>, k)))"

definition set_insert :: "ipc \<Rightarrow> cset \<Rightarrow> int \<Rightarrow> (cset \<times> ipc) act" where
  "set_insert k c item =
     (if \<not> (item \<ge> 0 \<and> item < num_slots c) then Some (Inl Assert)
      else CRITICAL (write_lock c) k (\<lambda>k.
        let c = c\<lparr>slots := (slots c)[nat item := True]\<rparr>
        in Some (Inr (if cardinality c < num_slots c then c\<lparr>cardinality := cardinality c + 1\<rparr> else c, k))))"

partial_function (option) take_loop :: "(nat \<Rightarrow> nat) \<Rightarrow> bool list \<Rightarrow> nat \<Rightarrow> nat \<Rightarrow> (nat \<times> nat) option" where
  [code]: "take_loop rand sl n i =
     (if \<not> sl ! (rand i mod n) then take_loop rand sl n (Suc i) else Some (rand i mod n, Suc i))"

definition set_take :: "ipc \<Rightarrow> cset \<Rightarrow> (nat \<Rightarrow> nat) \<Rightarrow> nat \<Rightarrow> ((nat \<times> nat \<times> cset) \<times> ipc) act" where
  "set_take k c rand i =
     CRITICAL (write_lock c) k (\<lambda>k.
       case take_loop rand (slots c) (nat (num_slots c)) i of None \<Rightarrow> None
       | Some (item, i) \<Rightarrow> Some (Inr ((item, i, c\<lparr>slots := (slots c)[item := False], cardinality := cardinality c - 1\<rparr>), k)))"

definition set_cardinality :: "cset \<Rightarrow> int" where
  "set_cardinality c = cardinality c"

section \<open>The set as a set\<close>

definition members :: "cset \<Rightarrow> nat set" where
  "members c = {i. i < length (slots c) \<and> slots c ! i}"

definition set_shape :: "ipc \<Rightarrow> cset \<Rightarrow> bool" where
  "set_shape k c \<longleftrightarrow> 0 < num_slots c \<and> length (slots c) = nat (num_slots c) \<and> k (sem_id (sem_set (write_lock c))) = Some [1] \<and>
     num_semaphores (sem_set (write_lock c)) = 1 \<and> sem_num (write_lock c) = 0"

definition counted :: "cset \<Rightarrow> bool" where
  "counted c \<longleftrightarrow> cardinality c = int (card (members c))"

lemma critical_spec:
  assumes "set_shape k c" "\<And>k. body k = Some (Inr (x, k))"
  shows "CRITICAL (write_lock c) k body = Some (Inr (x, k))"
proof -
  let ?i = "sem_id (sem_set (write_lock c))"
  have "k(?i \<mapsto> [0], ?i \<mapsto> [1]) = k" using assms(1) by (auto simp: set_shape_def)
  then show ?thesis using assms
    by (simp add: CRITICAL_def set_shape_def sem_wait_index_def sem_signal_index_def semop_def SEMVMX_def s16_id)
qed

lemma finite_members [simp]: "finite (members c)"
  by (simp add: members_def)

lemma members_le: "length (slots c) = nat (num_slots c) \<Longrightarrow> 0 < num_slots c \<Longrightarrow> int (card (members c)) \<le> num_slots c"
proof -
  assume "length (slots c) = nat (num_slots c)" "0 < num_slots c"
  moreover have "card (members c) \<le> card {..<length (slots c)}" by (intro card_mono) (auto simp: members_def)
  ultimately show ?thesis by simp
qed

lemma take_loop_stuck:
  assumes "\<And>j. i \<le> j \<Longrightarrow> \<not> sl ! (rand j mod n)"
  shows "take_loop rand sl n i = None"
proof (rule ccontr)
  assume "take_loop rand sl n i \<noteq> None"
  then obtain y where y: "take_loop rand sl n i = Some y" by blast
  have "\<exists>j \<ge> i. sl ! (rand j mod n)"
  proof (rule take_loop.raw_induct [of "\<lambda>rand sl n i y. \<exists>j \<ge> i. sl ! (rand j mod n)", OF _ y])
    fix loop :: "(nat \<Rightarrow> nat) \<Rightarrow> bool list \<Rightarrow> nat \<Rightarrow> nat \<Rightarrow> (nat \<times> nat) option" and rand sl n i y
    assume IH: "\<And>rand sl n i y. loop rand sl n i = Some y \<Longrightarrow> \<exists>j \<ge> i. sl ! (rand j mod n)"
      and e: "(if \<not> sl ! (rand i mod n) then loop rand sl n (Suc i) else Some (rand i mod n, Suc i)) = Some y"
    show "\<exists>j \<ge> i. sl ! (rand j mod n)"
    proof (cases "sl ! (rand i mod n)")
      case False
      then show ?thesis using IH [of rand sl n "Suc i" y] e by (meson Suc_leD)
    qed blast
  qed
  then show False using assms by blast
qed

lemma take_loop_first:
  assumes "sl ! (rand m mod n)" "i \<le> m" "\<And>j. i \<le> j \<Longrightarrow> j < m \<Longrightarrow> \<not> sl ! (rand j mod n)"
  shows "take_loop rand sl n i = Some (rand m mod n, Suc m)"
  using assms(2, 3)
proof (induction "m - i" arbitrary: i)
  case 0
  then show ?case using assms(1) by (subst take_loop.simps) simp
next
  case (Suc d)
  have d: "d = m - Suc i" "Suc i \<le> m" using Suc.hyps(2) by simp_all
  have "take_loop rand sl n i = take_loop rand sl n (Suc i)" using Suc.prems(2) [of i] d by (subst take_loop.simps) simp
  also have "\<dots> = Some (rand m mod n, Suc m)" by (rule Suc.hyps(1) [OF d]) (use Suc.prems(2) in simp)
  finally show ?case .
qed

lemma set_insert_spec:
  assumes sh: "set_shape k c" and n: "counted c" and it: "0 \<le> item" "item < num_slots c"
  shows "\<exists>c'. set_insert k c item = Some (Inr (c', k)) \<and> set_shape k c' \<and> members c' = insert (nat item) (members c) \<and>
      (counted c' \<longleftrightarrow> nat item \<notin> members c \<or> members c = {..<nat (num_slots c)})"
proof -
  let ?c = "c\<lparr>slots := (slots c)[nat item := True]\<rparr>"
  let ?c' = "if cardinality ?c < num_slots ?c then ?c\<lparr>cardinality := cardinality ?c + 1\<rparr> else ?c"
  have l: "nat item < length (slots c)" "length (slots c) = nat (num_slots c)" using sh it by (simp_all add: set_shape_def)
  have i: "set_insert k c item = Some (Inr (?c', k))"
    using it critical_spec [OF sh, of _ ?c'] unfolding set_insert_def Let_def by simp
  have s: "set_shape k ?c'" using sh by (simp add: set_shape_def)
  have m: "members ?c' = insert (nat item) (members c)" using l by (auto simp: members_def nth_list_update)
  have sub: "members c \<subseteq> {..<nat (num_slots c)}" using l by (auto simp: members_def)
  have full: "cardinality c < num_slots c \<longleftrightarrow> members c \<noteq> {..<nat (num_slots c)}"
    using n psubset_card_mono [OF _ psubsetI [OF sub]] sh by (fastforce simp: counted_def set_shape_def)
  have "counted ?c' \<longleftrightarrow> nat item \<notin> members c \<or> members c = {..<nat (num_slots c)}"
  proof (cases "members c = {..<nat (num_slots c)}")
    case True
    then have "nat item \<in> members c" using l by simp
    then show ?thesis using True full n m by (simp add: counted_def insert_absorb)
  next
    case False
    then show ?thesis using full n m by (cases "nat item \<in> members c") (simp_all add: counted_def insert_absorb)
  qed
  then show ?thesis using i s m by blast
qed

lemma rand_member: "set_shape k c \<Longrightarrow> slots c ! (r mod nat (num_slots c)) \<longleftrightarrow> r mod nat (num_slots c) \<in> members c"
  by (simp add: members_def set_shape_def)

lemma set_take_first:
  assumes sh: "set_shape k c" and n: "counted c" and i: "i \<le> m" and r: "rand m mod nat (num_slots c) \<in> members c"
    and b: "\<And>j. i \<le> j \<Longrightarrow> j < m \<Longrightarrow> rand j mod nat (num_slots c) \<notin> members c"
  defines "x \<equiv> rand m mod nat (num_slots c)"
  shows "\<exists>c'. set_take k c rand i = Some (Inr ((x, Suc m, c'), k)) \<and> members c' = members c - {x} \<and> counted c' \<and> set_shape k c'"
proof -
  have t: "take_loop rand (slots c) (nat (num_slots c)) i = Some (x, Suc m)"
    using take_loop_first [of "slots c" rand m "nat (num_slots c)" i] i r b unfolding rand_member [OF sh] x_def by blast
  let ?c = "c\<lparr>slots := (slots c)[x := False], cardinality := cardinality c - 1\<rparr>"
  have "set_take k c rand i = Some (Inr ((x, Suc m, ?c), k))"
    unfolding set_take_def t by (rule critical_spec [OF sh]) simp
  moreover have m: "members ?c = members c - {x}" using r by (auto simp: members_def nth_list_update x_def)
  moreover have "counted ?c" unfolding counted_def m using n r card_gt_0_iff [of "members c"] by (auto simp: counted_def x_def)
  moreover have "set_shape k ?c" using sh by (simp add: set_shape_def)
  ultimately show ?thesis by blast
qed

lemma set_take_none:
  assumes sh: "set_shape k c"
  shows "set_take k c rand i = None \<longleftrightarrow> (\<forall>j \<ge> i. rand j mod nat (num_slots c) \<notin> members c)"
proof
  assume none: "set_take k c rand i = None"
  show "\<forall>j \<ge> i. rand j mod nat (num_slots c) \<notin> members c"
  proof (intro allI impI notI)
    fix j assume j: "i \<le> j" "rand j mod nat (num_slots c) \<in> members c"
    let ?P = "\<lambda>m. i \<le> m \<and> rand m mod nat (num_slots c) \<in> members c"
    have "?P (Least ?P)" by (rule LeastI [of ?P j]) (use j in simp)
    moreover have "\<not> ?P l" if "l < Least ?P" for l using not_less_Least [OF that] .
    ultimately have "take_loop rand (slots c) (nat (num_slots c)) i = Some (rand (Least ?P) mod nat (num_slots c), Suc (Least ?P))"
      using rand_member [OF sh] by (intro take_loop_first) blast+
    then have "set_take k c rand i \<noteq> None" unfolding set_take_def by (subst critical_spec [OF sh]) auto
    then show False using none by simp
  qed
next
  assume "\<forall>j \<ge> i. rand j mod nat (num_slots c) \<notin> members c"
  then have "take_loop rand (slots c) (nat (num_slots c)) i = None" using rand_member [OF sh] by (intro take_loop_stuck) blast
  then show "set_take k c rand i = None" using sh
    by (simp add: set_take_def CRITICAL_def set_shape_def sem_wait_index_def semop_def SEMVMX_def)
qed

text \<open>
  C40. Inserting and taking under the lock of the set. Inserting returns, leaves the lock free and adds the
  item; the counter stays the number of items if and only if the inserted item was not yet in the set or the
  counter was at its limit. Taking ends exactly when \<open>rand\<close> hits an item at some call (so never on an empty
  set, whatever the counter says); it then leaves the lock free and takes out the first item that \<open>rand\<close> hits.
\<close>

theorem lib_set_correct:
  assumes "set_shape k c" "counted c" "0 \<le> item" "item < num_slots c"
  shows "(\<exists>c'. set_insert k c item = Some (Inr (c', k)) \<and> set_shape k c' \<and> members c' = insert (nat item) (members c) \<and>
      (counted c' \<longleftrightarrow> nat item \<notin> members c \<or> members c = {..<nat (num_slots c)})) \<and>
    (\<forall>rand i m. i \<le> m \<longrightarrow> rand m mod nat (num_slots c) \<in> members c \<longrightarrow>
      (\<forall>j. i \<le> j \<longrightarrow> j < m \<longrightarrow> rand j mod nat (num_slots c) \<notin> members c) \<longrightarrow>
      (\<exists>c'. set_take k c rand i = Some (Inr ((rand m mod nat (num_slots c), Suc m, c'), k)) \<and>
        members c' = members c - {rand m mod nat (num_slots c)} \<and> counted c' \<and> set_shape k c')) \<and>
    (\<forall>rand i c0. set_shape k c0 \<longrightarrow>
      (set_take k c0 rand i = None \<longleftrightarrow> (\<forall>j \<ge> i. rand j mod nat (num_slots c0) \<notin> members c0)))"
proof (intro conjI allI impI)
  fix rand :: "nat \<Rightarrow> nat" and i m
  assume "i \<le> m" "rand m mod nat (num_slots c) \<in> members c" "\<forall>j. i \<le> j \<longrightarrow> j < m \<longrightarrow> rand j mod nat (num_slots c) \<notin> members c"
  then show "\<exists>c'. set_take k c rand i = Some (Inr ((rand m mod nat (num_slots c), Suc m, c'), k)) \<and>
      members c' = members c - {rand m mod nat (num_slots c)} \<and> counted c' \<and> set_shape k c'"
    by (intro set_take_first [OF assms(1, 2)]) blast+
qed (rule set_insert_spec [OF assms], rule set_take_none)

definition demo_set :: cset where
  "demo_set = \<lparr>write_lock = \<lparr>sem_set = \<lparr>sem_id = 3, num_semaphores = 1\<rparr>, sem_num = 0\<rparr>, semaphore_set = \<lparr>sem_id = 3, num_semaphores = 1\<rparr>,
     slots = [True, False], num_slots = 2, cardinality = 1\<rparr>"

theorem lib_set_correct_witness:
  "set_alloc Map.empty True 3 [0] 2 = Some (Inr (Some (demo_set\<lparr>slots := replicate 2 False, cardinality := 0\<rparr>), [3 \<mapsto> [1]])) \<and>
   (\<exists>c'. set_insert [3 \<mapsto> [1]] demo_set 0 = Some (Inr (c', [3 \<mapsto> [1]])) \<and> \<not> counted c')"
proof -
  have "set_alloc Map.empty True 3 [0] 2 = Some (Inr (Some (demo_set\<lparr>slots := replicate 2 False, cardinality := 0\<rparr>), [3 \<mapsto> [1]]))"
    by (simp add: set_alloc_def sem_fill_set_def sem_unpack_set_def sem_init_index_def SEMVMX_def demo_set_def)
  note alloc = this
  have s: "set_shape [3 \<mapsto> [1]] demo_set" by (simp add: set_shape_def demo_set_def)
  have "x \<in> members demo_set \<longleftrightarrow> x = 0" for x
    by (cases x; cases "x - 1") (simp_all add: members_def demo_set_def)
  then have m: "members demo_set = {0}" by blast
  have c: "counted demo_set" unfolding counted_def m by (simp add: demo_set_def)
  have "1 \<in> {..<nat (num_slots demo_set)}" by (simp add: demo_set_def)
  moreover have "1 \<notin> members demo_set" unfolding m by simp
  ultimately have ne: "members demo_set \<noteq> {..<nat (num_slots demo_set)}" by metis
  have it: "0 \<le> (0 :: int)" "0 < num_slots demo_set" by (simp_all add: demo_set_def)
  obtain c' where c': "set_insert [3 \<mapsto> [1]] demo_set 0 = Some (Inr (c', [3 \<mapsto> [1]])) \<and> set_shape [3 \<mapsto> [1]] c' \<and>
      members c' = insert (nat 0) (members demo_set) \<and>
      (counted c' \<longleftrightarrow> nat 0 \<notin> members demo_set \<or> members demo_set = {..<nat (num_slots demo_set)})"
    using lib_set_correct [OF s c it, THEN conjunct1] by (rule exE)
  moreover have "nat 0 \<in> members demo_set" unfolding m by simp
  ultimately have "\<not> counted c'" using ne by simp
  then have "\<exists>c'. set_insert [3 \<mapsto> [1]] demo_set 0 = Some (Inr (c', [3 \<mapsto> [1]])) \<and> \<not> counted c'"
    by (intro exI [of _ c'] conjI conjunct1 [OF c'])
  then show ?thesis by (rule conjI [OF alloc])
qed

end
