(* ===== verification/Spec2Isabelle.thy ===== *)
theory Spec2Isabelle
  imports Slob_Thms Sched_Thms Sstf Osurd Conc_Prog Conc_Buffer Conc_Set
begin

text \<open>
  A verification library for the projects and exercises of this repository: the group's changes to the
  Linux 3.0.4 kernel (\<open>src/project1\<close> to \<open>src/project4\<close>), the parts of the kernel they rest on
  (\<open>src/linux_source\<close>), and the user-space concurrency exercises (\<open>src/concurrency1\<close> to \<open>src/concurrency5\<close>).

  \<^bold>\<open>The parts and how they interact.\<close> Four kernel components are modelled. The real-time scheduling class
  (\<open>project1/sched_rt.c\<close>) is called by the scheduler core (\<open>kernel/sched.c\<close>); it keeps the run lists of the
  CPUs in kernel lists, the tasks that may be pushed to other CPUs in priority lists (\<open>lib/plist.c\<close>) and finds
  the CPU to push to through \<open>kernel/sched_cpupri.c\<close>. The slob allocator (\<open>project4/slob.c\<close>) keeps its
  partially free pages in kernel lists and the free blocks of a page in the page itself. The I/O scheduler
  (\<open>project2/sstf-iosched.c\<close>) moves requests from its own kernel list to the dispatch queue of the block
  layer. The RAM disk (\<open>project3/osurd.c\<close>) encrypts what it stores with a cipher of the crypto layer. The
  exercises are programs of threads that share state through semaphores and mutexes.

  \<^bold>\<open>The theories.\<close>
  \<^item> \<open>Prelude\<close>: C integers (\<open>s16\<close>, \<open>s32\<close>, \<open>u32\<close>, \<open>s64\<close>, \<open>u64\<close> reduce an \<open>int\<close> to the width), the result
    type \<open>'a run\<close> (a value, or \<open>Bug\<close> for a \<open>BUG_ON\<close> or a bad pointer, or \<open>Diverge\<close> for a loop that does
    not end), and lemmas on lists.
  \<^item> \<open>Klist\<close>: \<open>include/linux/list.h\<close> at pointer level, one definition per function with the assignments in
    their order. The lemmas show that each operation implements the operation on lists, for one list and
    for a heap of disjoint lists (\<open>fam\<close>).
  \<^item> \<open>Slob_Page\<close>, \<open>Slob_Heap\<close>, \<open>Slob_Free\<close>: the in-page free list, allocation from a page and from the page
    lists, and freeing. \<open>Slob_Inv\<close>, \<open>Slob_Ops\<close>: the invariant \<open>slob_ok\<close> (free and live units partition
    every slob page, the lists hold the pages that have free units) and its preservation. \<open>Slob_Api\<close>,
    \<open>Slob_Kmalloc\<close>: the contract of a block allocator as the locale \<open>block_allocator\<close>, interpreted on the
    slob operations, and \<open>kmalloc\<close>, \<open>kfree\<close>, \<open>ksize\<close>, the caches and deferred freeing on top of it.
    \<open>Slob_Thms\<close> holds the properties.
  \<^item> \<open>Plist\<close>, \<open>Cpupri\<close>: priority lists and the priority map of the CPUs, with the refinement to a sorted list
    and the search for the CPUs of lowest priority.
  \<^item> \<open>Sched_State\<close>: run queues, root domains, tasks as records. \<open>Sched_Rt\<close>: the functions of
    \<open>sched_rt.c\<close>. \<open>Sched_Inv\<close>, \<open>Sched_Ops\<close>: the invariant \<open>rt_ok\<close> (lists, bitmap, counters, highest
    priorities, overload masks, pushable lists agree) and its preservation. \<open>Sched_Bw\<close>: the real-time
    bandwidth. \<open>Sched_Push\<close>: pushing and pulling tasks. \<open>Sched_Core\<close>: \<open>schedule()\<close> and what it calls.
    \<open>Sched_Run\<close>: booting and the events of a running system as the step relation \<open>sched_step\<close>.
    \<open>Sched_Thms\<close> holds the properties.
  \<^item> \<open>Sstf\<close>: the I/O scheduler with \<open>elv_dispatch_sort\<close>, on kernel lists.
  \<^item> \<open>Osurd\<close>: the RAM disk driver with the key check of \<open>crypto/cipher.c\<close>.
  \<^item> \<open>Conc_List\<close>: the linked list of \<open>concurrency3\<close> on an explicit heap. \<open>Conc_Sem\<close>: semaphores, the
    interleavings of thread programs, the locale \<open>semaphore\<close>, and the dining philosophers, on whose forks it is
    interpreted. \<open>Conc_Prog\<close>: the searchers, inserters and deleters of \<open>concurrency3\<close>, one step per access to
    the list, with both of their semaphores as interpretations. \<open>Conc_Buffer\<close>: the producer and the consumer
    of \<open>concurrency1\<close>, with the mutex as an interpretation. \<open>Conc_Set\<close>: the semaphore and set libraries of
    \<open>concurrency5/prob2\<close>.

  \<^bold>\<open>What the theorems show.\<close>
  \<^item> Slob: allocation returns a fresh aligned block or fails only when no page can be had; freeing returns it;
    no sequence of calls corrupts the heap; the best fit is taken; the round trips of allocation and freeing;
    the accounting of claimed pages is exact and that of used memory is not.
  \<^item> Lists and maps: the priority list refines a sorted list; \<open>cpupri_find\<close> returns the lowest class that has
    a CPU the task may use.
  \<^item> Scheduler: a pass of \<open>schedule()\<close> runs a task of the highest real-time priority; no event sequence from
    boot reaches a \<open>BUG_ON\<close> or an endless loop; counters and queues agree; round robin is fair; pushing
    ends, pushes to a best CPU, and pulling raises the priority; in one root domain the bandwidth that CPUs
    borrow is conserved and bounded, and across domains it is not.
  \<^item> I/O scheduler: no request is lost unless the dispatch takes the queue head for a request; dispatching
    takes the first request; adding implements an insertion into a list.
  \<^item> RAM disk: what is written is read back; the contents survive while the device is in use; when the
    request functions return and when they do not; the key is refused; when memory is freed twice.
  \<^item> Exercises: the pointer list is a list; the threads walk along the list while it
    grows without using a bad pointer, a deleter is alone and the threads finish; at most two philosophers
    eat and the table never stands still; no element of the producer is lost or refused; when the counter of
    the elves' set is right and when taking from it ends.

  \<^bold>\<open>Bounds, loops and parameters.\<close> Loops whose end depends on pointers are \<open>partial_function (option)\<close>; the
  theorems show that they return. Loops over CPUs, priorities and thread indices are recursions over the
  list of indices. No fuel is used. Machine integers wrap where the source computes with them. The
  configuration is \<open>CONFIG_SMP\<close> without \<open>CONFIG_RT_GROUP_SCHED\<close>, on a 32 bit
  machine as in the repository's \<open>.config\<close>: \<open>long\<close>, \<open>size_t\<close> and pointers have 32 bits, \<open>sector_t\<close> and the
  \<open>u64\<close> times of the scheduler 64. Parameters stand for
  the page allocator, RCU, clocks, the other scheduling classes, what other CPUs do while a run queue lock
  is dropped, the cipher that is selected at run time, the block layer's queue, \<open>malloc\<close> and \<open>rand\<close>; what
  is assumed of them is a hypothesis of the theorem that needs it, and a witness shows that it can hold.
  Locks are not modelled: an operation that the source runs under a lock is one step.

  \<^bold>\<open>Not modelled.\<close> Printing, module registration and thread creation; statistics and debug output; the group
  scheduling branches of \<open>sched_rt.c\<close>; of the kernel tree everything the modelled components do not call (it
  is the unmodified distribution); the fair, idle and stop classes and load balancing, which enter as
  parameters of \<open>schedule\<close>; the test program of \<open>project4\<close>, which only prints two system calls; the
  barbershop (\<open>concurrency4\<close>), the shared resource (\<open>concurrency5/prob1\<close>, which rests on barriers and
  condition variables) and the threads of \<open>santa.c\<close>, whose counters are partly read without a lock. The
  makefiles, \<open>Kconfig\<close> files, change logs and write-ups hold no code.
\<close>

end
